(* ===== verification/Chunker_Prelude.thy ===== *)
theory Chunker_Prelude
  imports Main "HOL-Library.Word"
begin

section \<open>Shared types, Rust arithmetic and list specifications\<close>

text \<open>
  What every component of the development shares: the types of bytes, offsets and byte
  ranges; the arithmetic of \<open>usize\<close> on a 64-bit target (the crate refuses to compile on any
  other, see \<open>src/src/mmap.rs\<close>), written out on \<open>nat\<close>; the outcome of a call that may panic;
  I/O errors; and the list-level specifications the scanner and the planners are proved
  against: the first occurrence of a delimiter, contiguous coverage of a file by ranges, and
  alignment of the ranges to records.
\<close>

unbundle bit_operations_syntax

named_theorems rust_arith \<open>definitions of the saturating and truncating operations on usize\<close>

subsection \<open>Bytes, offsets and Rust integers\<close>

type_synonym byte = "8 word"
type_synonym bytes = "8 word list"
type_synonym brange = "nat \<times> nat"

text \<open>
  A \<open>usize\<close> is a natural number below \<open>2 ^ 64\<close>. Where the code saturates, the model
  saturates; where it casts, the model truncates.
\<close>

definition usize_max :: nat where
  "usize_max = 2 ^ 64 - 1"

definition isize_max :: nat where
  "isize_max = 2 ^ 63 - 1"

definition as_usize :: "nat \<Rightarrow> nat" where
  [rust_arith]: "as_usize n = n mod 2 ^ 64"

definition as_u128 :: "nat \<Rightarrow> nat" where
  [rust_arith]: "as_u128 n = n mod 2 ^ 128"

definition sat_add :: "nat \<Rightarrow> nat \<Rightarrow> nat" where
  [rust_arith]: "sat_add a b = min (a + b) usize_max"

definition sat_mul :: "nat \<Rightarrow> nat \<Rightarrow> nat" where
  [rust_arith]: "sat_mul a b = min (a * b) usize_max"

definition sat_sub :: "nat \<Rightarrow> nat \<Rightarrow> nat" where
  [rust_arith]: "sat_sub a b = a - b"

definition div_ceil :: "nat \<Rightarrow> nat \<Rightarrow> nat" where
  [rust_arith]: "div_ceil a b = (let d = a div b; r = a mod b in if r > 0 then d + 1 else d)"

text \<open>
  The length of a slice is a \<open>usize\<close>. Rust guarantees that no slice is longer than
  \<open>isize::MAX\<close> bytes, which is the hypothesis \<open>valid_slice\<close> of the theorems.
\<close>

definition slen :: "'a list \<Rightarrow> nat" where
  "slen xs = as_usize (length xs)"

definition valid_slice :: "'a list \<Rightarrow> bool" where
  "valid_slice xs \<longleftrightarrow> length xs \<le> isize_max"

lemma max_consts: "usize_max = 18446744073709551615" "isize_max = 9223372036854775807"
  by (simp_all add: usize_max_def isize_max_def)

lemma slen_less [simp]: "slen xs < 2 ^ 64"
  by (simp add: slen_def rust_arith)

lemma slen_le_usize_max: "slen xs \<le> usize_max"
  using slen_less [of xs] by (simp add: usize_max_def)

lemma slen_le_length: "slen xs \<le> length xs"
  by (simp add: slen_def rust_arith)

lemma slen_valid [simp]: "valid_slice xs \<Longrightarrow> slen xs = length xs"
  by (simp add: slen_def as_usize_def valid_slice_def isize_max_def)

lemma valid_slice_Nil [simp]: "valid_slice []"
  by (simp add: valid_slice_def)

lemma valid_slice_shorter: "valid_slice ys \<Longrightarrow> length xs \<le> length ys \<Longrightarrow> valid_slice xs"
  by (simp add: valid_slice_def)

lemma valid_slice_drop [simp]: "valid_slice xs \<Longrightarrow> valid_slice (drop n xs)"
  by (simp add: valid_slice_def)

lemma valid_slice_take [simp]: "valid_slice xs \<Longrightarrow> valid_slice (take n xs)"
  by (simp add: valid_slice_def)

lemma sat_add_ge: "a \<le> usize_max \<Longrightarrow> a \<le> sat_add a b"
  by (simp add: rust_arith)

lemma sat_add_gt: "a < usize_max \<Longrightarrow> 0 < b \<Longrightarrow> a < sat_add a b"
  by (simp add: rust_arith)

lemma sat_add_exact: "a + b \<le> usize_max \<Longrightarrow> sat_add a b = a + b"
  by (simp add: rust_arith)

lemma sat_add_less_iff: "n \<le> usize_max \<Longrightarrow> sat_add a b < n \<longleftrightarrow> a + b < n"
  by (auto simp: rust_arith)

lemma as_usize_id [simp]: "n \<le> usize_max \<Longrightarrow> as_usize n = n"
  by (simp add: rust_arith usize_max_def)

lemma isize_le_usize: "isize_max \<le> usize_max"
  by (simp add: max_consts)

lemma valid_slice_usize: "valid_slice xs \<Longrightarrow> length xs < usize_max"
  by (simp add: valid_slice_def max_consts)

subsection \<open>Calls that may panic, I/O errors\<close>

datatype 'a run = Ret 'a | Panic string

fun rbind :: "'a run \<Rightarrow> ('a \<Rightarrow> 'b run) \<Rightarrow> 'b run" where
  "rbind (Ret x) f = f x"
| "rbind (Panic m) f = Panic m"

fun rmap :: "('a \<Rightarrow> 'b) \<Rightarrow> 'a run \<Rightarrow> 'b run" where
  "rmap f (Ret x) = Ret (f x)"
| "rmap f (Panic m) = Panic m"

lemma rbind_Ret_iff: "rbind r f = Ret y \<longleftrightarrow> (\<exists>x. r = Ret x \<and> f x = Ret y)"
  by (cases r) auto

lemma rmap_Ret_iff [simp]: "rmap f r = Ret y \<longleftrightarrow> (\<exists>x. r = Ret x \<and> f x = y)"
  by (cases r) auto

lemma rbind_cong [fundef_cong]:
  "r = r' \<Longrightarrow> (\<And>x. r' = Ret x \<Longrightarrow> f x = g x) \<Longrightarrow> rbind r f = rbind r' g"
  by (cases r') auto

text \<open>Checked indexing and slicing: \<open>xs[i]\<close>, \<open>&xs[i..]\<close> and \<open>&xs[a..b]\<close>.\<close>

definition index_at :: "'a list \<Rightarrow> nat \<Rightarrow> 'a run" where
  "index_at xs i = (if i < length xs then Ret (xs ! i) else Panic ''index out of bounds'')"

definition slice_from :: "'a list \<Rightarrow> nat \<Rightarrow> 'a list run" where
  "slice_from xs i = (if i \<le> length xs then Ret (drop i xs) else Panic ''range start index out of range'')"

definition slice_range :: "'a list \<Rightarrow> nat \<Rightarrow> nat \<Rightarrow> 'a list run" where
  "slice_range xs a b =
     (if a > b then Panic ''slice index starts after its end''
      else if b > length xs then Panic ''range end index out of range''
      else Ret (take (b - a) (drop a xs)))"

lemmas slice_ops = index_at_def slice_from_def slice_range_def

text \<open>
  \<open>a - b\<close> on \<open>usize\<close> in a build with overflow checks; \<open>slice.try_into().unwrap()\<close> for an array of
  \<open>n\<close> elements; and \<open>Vec::with_capacity(n)\<close> for elements of \<open>elem\<close> bytes, which panics when the
  vector would take more than \<open>isize::MAX\<close> bytes (running out of memory aborts the process and is
  not modelled).
\<close>

definition sub_usize :: "nat \<Rightarrow> nat \<Rightarrow> nat run" where
  "sub_usize a b = (if b \<le> a then Ret (a - b) else Panic ''attempt to subtract with overflow'')"

definition into_array :: "nat \<Rightarrow> 'a list \<Rightarrow> 'a list run" where
  "into_array n xs =
     (if length xs = n then Ret xs
      else Panic ''called `Result::unwrap()` on an `Err` value: TryFromSliceError(())'')"

definition capacity_msg :: string where
  "capacity_msg = ''capacity overflow''"

definition vec_with_capacity :: "nat \<Rightarrow> nat \<Rightarrow> unit run" where
  "vec_with_capacity elem n = (if elem * n \<le> isize_max then Ret () else Panic capacity_msg)"

text \<open>\<open>slice.starts_with\<close> and other pure steps after a checked one: \<open>rmap\<close> as a bind.\<close>

lemma rmap_rbind: "rmap f (rbind r g) = rbind r (\<lambda>x. rmap f (g x))"
  by (cases r) simp_all

lemma rbind_assoc: "rbind (rbind r f) g = rbind r (\<lambda>x. rbind (f x) g)"
  by (cases r) simp_all

lemma rbind_if: "rbind (if b then r else r') f = (if b then rbind r f else rbind r' f)"
  by simp

datatype io_kind = NotFound | InvalidInput | InvalidData | OutOfMemory | OtherKind | OsKind nat

record io_error =
  err_kind :: io_kind
  err_text :: string

definition io_err :: "io_kind \<Rightarrow> string \<Rightarrow> io_error" where
  "io_err k t = \<lparr>err_kind = k, err_text = t\<rparr>"

type_synonym 'a io = "io_error + 'a"

type_synonym path = string

subsection \<open>Positions and first occurrences\<close>

lemma map_option_plus_zero [simp]: "map_option ((+) (0 :: nat)) x = x"
  by (cases x) simp_all

lemma map_option_plus_plus: "map_option ((+) a) (map_option ((+) b) x) = map_option ((+) (a + b)) x"
  for a b :: nat
  by (cases x) simp_all

text \<open>\<open>position\<close> is \<open>Iterator::position\<close> on a slice: the index of the first match.\<close>

fun position :: "('a \<Rightarrow> bool) \<Rightarrow> 'a list \<Rightarrow> nat option" where
  "position P [] = None"
| "position P (x # xs) = (if P x then Some 0 else map_option Suc (position P xs))"

definition starts_with :: "'a list \<Rightarrow> 'a list \<Rightarrow> bool" where
  "starts_with xs p \<longleftrightarrow> take (length p) xs = p"

text \<open>The specification of every delimiter search: the least offset at which the pattern occurs.\<close>

fun first_occ :: "'a list \<Rightarrow> 'a list \<Rightarrow> nat option" where
  "first_occ p [] = (if p = [] then Some 0 else None)"
| "first_occ p (x # xs) =
     (if starts_with (x # xs) p then Some 0 else map_option Suc (first_occ p xs))"

lemma position_None_iff: "position P xs = None \<longleftrightarrow> (\<forall>x\<in>set xs. \<not> P x)"
  by (induction xs) auto

lemma position_Some_iff:
  "position P xs = Some i \<longleftrightarrow> i < length xs \<and> P (xs ! i) \<and> (\<forall>j<i. \<not> P (xs ! j))"
proof (induction xs arbitrary: i)
  case (Cons x xs)
  show ?case
    by (cases i) (auto simp: Cons.IH less_Suc_eq_0_disj)
qed simp

lemma position_append:
  "position P (xs @ ys) =
     (case position P xs of Some i \<Rightarrow> Some i | None \<Rightarrow> map_option ((+) (length xs)) (position P ys))"
  by (induction xs) (cases "position P ys"; auto split: option.splits)+

lemma position_replicate_False: "(\<And>x. x \<in> set xs \<Longrightarrow> \<not> P x) \<Longrightarrow> position P xs = None"
  by (simp add: position_None_iff)

lemma starts_with_length: "starts_with xs p \<Longrightarrow> length p \<le> length xs"
  by (metis length_take min.cobounded1 starts_with_def)

lemma starts_with_Nil [simp]: "starts_with xs []"
  by (simp add: starts_with_def)

lemma starts_with_Cons_single: "starts_with (x # xs) [d] \<longleftrightarrow> x = d"
  by (simp add: starts_with_def)

lemma starts_with_hd: "starts_with xs (c # p) \<Longrightarrow> xs \<noteq> [] \<and> hd xs = c"
  by (cases xs) (auto simp: starts_with_def)

lemma first_occ_None_iff: "first_occ p xs = None \<longleftrightarrow> (\<forall>i. \<not> (i \<le> length xs \<and> starts_with (drop i xs) p))"
proof (induction xs)
  case Nil
  show ?case by (auto simp: starts_with_def)
next
  case (Cons x xs)
  show ?case
  proof
    assume "first_occ p (x # xs) = None"
    with Cons.IH show "\<forall>i. \<not> (i \<le> length (x # xs) \<and> starts_with (drop i (x # xs)) p)"
      by (auto simp: drop_Cons split: if_splits nat.splits)
  next
    assume a: "\<forall>i. \<not> (i \<le> length (x # xs) \<and> starts_with (drop i (x # xs)) p)"
    have "\<not> starts_with (x # xs) p" using a [rule_format, of 0] by simp
    moreover have "\<forall>i. \<not> (i \<le> length xs \<and> starts_with (drop i xs) p)"
      using a by (metis Suc_le_mono drop_Suc_Cons length_Cons)
    ultimately show "first_occ p (x # xs) = None" using Cons.IH by simp
  qed
qed

lemma first_occ_Some_iff:
  "first_occ p xs = Some i \<longleftrightarrow>
     i \<le> length xs \<and> starts_with (drop i xs) p \<and> (\<forall>j<i. \<not> starts_with (drop j xs) p)"
proof (induction xs arbitrary: i)
  case Nil
  show ?case by (auto simp: starts_with_def)
next
  case (Cons x xs)
  show ?case
    by (cases i) (auto simp: Cons.IH less_Suc_eq_0_disj)
qed

lemma first_occ_bound: "first_occ p xs = Some i \<Longrightarrow> i + length p \<le> length xs"
  using starts_with_length [of "drop i xs" p] by (auto simp: first_occ_Some_iff)

lemma first_occ_single: "first_occ [d] xs = position (\<lambda>b. b = d) xs"
  by (induction xs) (auto simp: starts_with_Cons_single)

lemma first_occ_short: "length xs < length p \<Longrightarrow> first_occ p xs = None"
  using first_occ_bound [of p xs] by (cases "first_occ p xs") auto

lemma first_occ_skip:
  assumes "\<forall>j<n. \<not> starts_with (drop j xs) p" and "n \<le> length xs"
  shows "first_occ p xs = map_option ((+) n) (first_occ p (drop n xs))"
  using assms
proof (induction n arbitrary: xs)
  case 0
  then show ?case by (simp add: option.map_ident)
next
  case (Suc n)
  then obtain y ys where xs: "xs = y # ys" by (cases xs) auto
  have y: "\<not> starts_with (y # ys) p" using Suc.prems(1) xs by force
  have "\<forall>j<n. \<not> starts_with (drop j ys) p" using Suc.prems(1) xs by force
  with Suc.IH [of ys] Suc.prems xs
  have "first_occ p ys = map_option ((+) n) (first_occ p (drop n ys))" by simp
  with y xs show ?case by (simp add: option.map_comp comp_def)
qed

subsection \<open>Byte ranges\<close>

definition subslice :: "'a list \<Rightarrow> brange \<Rightarrow> 'a list" where
  "subslice xs r = take (snd r - fst r) (drop (fst r) xs)"

text \<open>
  \<open>tiles s rs e\<close>: the ranges are non-empty, adjacent and in order, the first starts at \<open>s\<close>
  and the last ends at \<open>e\<close>. This is what \<open>assert_cover\<close> of the test suite checks.
\<close>

fun tiles :: "nat \<Rightarrow> brange list \<Rightarrow> nat \<Rightarrow> bool" where
  "tiles s [] e \<longleftrightarrow> s = e"
| "tiles s ((a, b) # rs) e \<longleftrightarrow> a = s \<and> a < b \<and> tiles b rs e"

text \<open>A record boundary: offset \<open>e\<close> follows a complete delimiter.\<close>

definition ends_after :: "'a list \<Rightarrow> 'a list \<Rightarrow> nat \<Rightarrow> bool" where
  "ends_after p xs e \<longleftrightarrow> length p \<le> e \<and> e \<le> length xs \<and> starts_with (drop (e - length p) xs) p"

text \<open>Every range but the last ends after a delimiter.\<close>

definition aligned :: "'a list \<Rightarrow> 'a list \<Rightarrow> brange list \<Rightarrow> bool" where
  "aligned p xs rs \<longleftrightarrow> (\<forall>r\<in>set rs. snd r = length xs \<or> ends_after p xs (snd r))"

lemma tiles_le: "tiles s rs e \<Longrightarrow> s \<le> e"
  by (induction s rs e rule: tiles.induct) auto

lemma tiles_mem: "tiles s rs e \<Longrightarrow> (a, b) \<in> set rs \<Longrightarrow> s \<le> a \<and> a < b \<and> b \<le> e"
  by (induction s rs e rule: tiles.induct) (auto dest: tiles_le)

lemma tiles_append: "tiles s (rs @ qs) e \<longleftrightarrow> (\<exists>m. tiles s rs m \<and> tiles m qs e)"
  by (induction rs arbitrary: s) (auto split: prod.splits)

lemma tiles_length: "tiles s rs e \<Longrightarrow> length rs \<le> e - s"
  by (induction s rs e rule: tiles.induct) (auto dest: tiles_le)

lemma tiles_Nil_iff: "tiles s rs e \<Longrightarrow> rs = [] \<longleftrightarrow> s = e"
  by (induction s rs e rule: tiles.induct) (auto dest: tiles_le)

lemma subslice_split: "a \<le> b \<Longrightarrow> subslice xs (a, b) @ drop b xs = drop a xs"
  by (simp add: subslice_def) (metis append_take_drop_id drop_drop le_add_diff_inverse2)

lemma concat_tiles_gen: "tiles s rs e \<Longrightarrow> concat (map (subslice xs) rs) @ drop e xs = drop s xs"
proof (induction s rs e rule: tiles.induct)
  case (2 s a b rs e)
  then show ?case using subslice_split [of a b xs] by simp
qed simp

text \<open>Contiguous coverage loses no byte and duplicates none.\<close>

lemma concat_tiles: "tiles 0 rs (length xs) \<Longrightarrow> concat (map (subslice xs) rs) = xs"
  using concat_tiles_gen [of 0 rs "length xs" xs] by simp

lemma length_subslice: "b \<le> length xs \<Longrightarrow> length (subslice xs (a, b)) = b - a"
  by (simp add: subslice_def)

lemma ends_after_found:
  "first_occ p (drop t xs) = Some i \<Longrightarrow> t \<le> length xs \<Longrightarrow> ends_after p xs (t + i + length p)"
  using first_occ_bound [of p "drop t xs" i]
  by (auto simp: ends_after_def first_occ_Some_iff add.commute)

lemma ends_after_single: "ends_after [d] xs e \<longleftrightarrow> 0 < e \<and> e \<le> length xs \<and> xs ! (e - 1) = d"
proof (cases "0 < e \<and> e \<le> length xs")
  case True
  then have "drop (e - 1) xs = xs ! (e - 1) # drop e xs"
    by (metis Cons_nth_drop_Suc Suc_pred' diff_less le_less_trans less_one nat_less_le not_less)
  with True show ?thesis by (auto simp: ends_after_def starts_with_Cons_single)
next
  case False
  then show ?thesis by (auto simp: ends_after_def)
qed

subsection \<open>The next cut at or after a target\<close>

text \<open>
  The specification shared by the chunk scanner, the cursors and the planners: the offset just
  after the first complete delimiter that starts at or after the target, the end of the data
  when there is none.
\<close>

definition next_cut :: "'a list \<Rightarrow> 'a list \<Rightarrow> nat \<Rightarrow> nat" where
  "next_cut p xs t =
     (if length xs \<le> t then length xs
      else case first_occ p (drop t xs) of Some r \<Rightarrow> t + r + length p | None \<Rightarrow> length xs)"

lemma next_cut_le: "next_cut p xs t \<le> length xs"
  by (auto simp: next_cut_def split: option.splits dest: first_occ_bound)

lemma next_cut_gt: "p \<noteq> [] \<Longrightarrow> t < length xs \<Longrightarrow> t < next_cut p xs t"
  by (auto simp: next_cut_def split: option.splits)

lemma next_cut_boundary: "next_cut p xs t = length xs \<or> ends_after p xs (next_cut p xs t)"
  by (auto simp: next_cut_def split: option.splits intro: ends_after_found)

lemma next_cut_least:
  assumes "ends_after p xs e" and "t + length p \<le> e"
  shows "next_cut p xs t \<le> e"
proof (cases "t < length xs")
  case True
  have occ: "starts_with (drop (e - length p - t) (drop t xs)) p" "e - length p - t \<le> length (drop t xs)"
    using assms by (auto simp: ends_after_def)
  then obtain r where r: "first_occ p (drop t xs) = Some r"
    by (cases "first_occ p (drop t xs)") (auto simp: first_occ_None_iff)
  moreover have "r \<le> e - length p - t"
    using r occ by (meson first_occ_Some_iff not_le)
  ultimately show ?thesis using True assms(2) by (simp add: next_cut_def)
next
  case False
  then show ?thesis using assms by (auto simp: next_cut_def ends_after_def)
qed

text \<open>
  The boundary a planner accepts for an ideal target: the target itself when it already follows
  a complete delimiter, the next cut otherwise.
\<close>

definition record_cut :: "'a list \<Rightarrow> 'a list \<Rightarrow> nat \<Rightarrow> nat" where
  "record_cut p xs t = (if ends_after p xs t then t else next_cut p xs t)"

lemma record_cut_le: "record_cut p xs t \<le> length xs"
  by (simp add: record_cut_def ends_after_def next_cut_le)

lemma record_cut_ge: "t \<le> length xs \<Longrightarrow> t \<le> record_cut p xs t"
  by (auto simp: record_cut_def next_cut_def split: option.splits)

lemma record_cut_boundary: "record_cut p xs t = length xs \<or> ends_after p xs (record_cut p xs t)"
  using next_cut_boundary [of p xs t] by (auto simp: record_cut_def)

lemma record_cut_least:
  "ends_after p xs e \<Longrightarrow> e = t \<or> t + length p \<le> e \<Longrightarrow> record_cut p xs t \<le> e"
  by (auto simp: record_cut_def next_cut_least)

end
