(* ===== verification/Scanner_Search.thy ===== *)
theory Scanner_Search
  imports Chunker_Prelude
begin

section \<open>Delimiter search: SWAR byte search and pattern search\<close>

text \<open>
  \<open>find_byte_swar\<close> and \<open>find_pattern_in_slice\<close> of \<open>src/src/scanner.rs\<close>. The byte search reads
  the haystack eight bytes at a time with word-level bit tricks; a scalar prefix reaches
  8-byte alignment of the address and a scalar tail handles the last bytes. The address of
  the first byte is the parameter \<open>ptr\<close>; the results do not depend on it. Both searches are
  proved equal to the list-level first occurrence, and packaged as the interface
  \<open>delimiter_search\<close> that the chunk scanner and the planners rely on.
\<close>

subsection \<open>Little-endian words\<close>

text \<open>\<open>u64::from_le_bytes\<close> and \<open>u64::trailing_zeros\<close> of the standard library.\<close>

fun u64_from_le_bytes :: "bytes \<Rightarrow> 64 word" where
  "u64_from_le_bytes [] = 0"
| "u64_from_le_bytes (b # bs) = ucast b + 256 * u64_from_le_bytes bs"

definition trailing_zeros :: "64 word \<Rightarrow> nat" where
  "trailing_zeros w = length (takeWhile (\<lambda>i. \<not> bit w i) [0..<64])"

subsection \<open>find\_byte\_swar\<close>

text \<open>The scalar loops (phases 1 and 3): \<open>Inl\<close> is a hit, \<open>Inr\<close> the index the loop stopped at.\<close>

function swar_scalar :: "bytes \<Rightarrow> byte \<Rightarrow> nat \<Rightarrow> nat \<Rightarrow> (nat + nat) run" where
  "swar_scalar haystack delimiter i stop =
     (if i < stop then
        rbind (index_at haystack i) (\<lambda>b.
          if b = delimiter then Ret (Inl i) else swar_scalar haystack delimiter (i + 1) stop)
      else Ret (Inr i))"
  by pat_completeness auto
termination
  by (relation "measure (\<lambda>(h, d, i, stop). stop - i)") auto

text \<open>The 8-byte main loop (phase 2).\<close>

definition swar_has_zero :: "64 word \<Rightarrow> 64 word \<Rightarrow> 64 word" where
  "swar_has_zero word pattern =
     (let lo = 0x0101010101010101;
          hi = 0x8080808080808080;
          xored = word XOR pattern
      in (xored - lo) AND (NOT xored) AND hi)"

function swar_words :: "bytes \<Rightarrow> 64 word \<Rightarrow> nat \<Rightarrow> nat \<Rightarrow> (nat + nat) run" where
  "swar_words haystack pattern len i =
     (if i + 8 \<le> len then
        rbind (slice_range haystack i (i + 8)) (\<lambda>window.
        rbind (into_array 8 window) (\<lambda>chunk.
          let word = u64_from_le_bytes chunk;
              has_zero = swar_has_zero word pattern
          in if has_zero \<noteq> 0 then Ret (Inl (i + trailing_zeros has_zero div 8))
             else swar_words haystack pattern len (i + 8)))
      else Ret (Inr i))"
  by pat_completeness auto
termination
  by (relation "measure (\<lambda>(h, p, len, i). len - i)") auto

declare swar_scalar.simps [simp del] swar_words.simps [simp del]

definition find_byte_swar :: "nat \<Rightarrow> bytes \<Rightarrow> byte \<Rightarrow> nat option run" where
  "find_byte_swar ptr haystack delimiter =
     (let len = slen haystack in
      if len = 0 then Ret None
      else
        let pattern = ucast delimiter * 0x0101010101010101;
            align = ptr mod 8;
            prefix_end = (if align \<noteq> 0 then min (8 - align) len else 0)
        in rbind (swar_scalar haystack delimiter 0 prefix_end) (\<lambda>r.
           case r of
             Inl i \<Rightarrow> Ret (Some i)
           | Inr i \<Rightarrow> rbind (swar_words haystack pattern len i) (\<lambda>r.
               case r of
                 Inl i \<Rightarrow> Ret (Some i)
               | Inr i \<Rightarrow> rmap (\<lambda>r. case r of Inl i \<Rightarrow> Some i | Inr _ \<Rightarrow> None)
                            (swar_scalar haystack delimiter i len))))"

text \<open>The scalar reference search of the differential tests.\<close>

function scalar_byte_position_from :: "bytes \<Rightarrow> byte \<Rightarrow> nat \<Rightarrow> nat option run" where
  "scalar_byte_position_from haystack delimiter pos =
     (if pos < slen haystack then
        rbind (index_at haystack pos) (\<lambda>b.
          if b = delimiter then Ret (Some pos)
          else scalar_byte_position_from haystack delimiter (pos + 1))
      else Ret None)"
  by pat_completeness auto
termination
  by (relation "measure (\<lambda>(h, d, i). slen h - i)") auto

declare scalar_byte_position_from.simps [simp del]

definition scalar_byte_position :: "bytes \<Rightarrow> byte \<Rightarrow> nat option run" where
  "scalar_byte_position haystack delimiter = scalar_byte_position_from haystack delimiter 0"

subsection \<open>find\_pattern\_in\_slice\<close>

function find_pattern_loop :: "nat \<Rightarrow> bytes \<Rightarrow> bytes \<Rightarrow> byte \<Rightarrow> nat \<Rightarrow> nat \<Rightarrow> nat option run" where
  "find_pattern_loop ptr haystack pattern first_byte max_search search_start =
     (if search_start \<le> max_search then
        rbind (slice_from haystack search_start) (\<lambda>remainder.
        rbind (find_byte_swar (ptr + search_start) remainder first_byte) (\<lambda>found.
          case found of
            None \<Rightarrow> Ret None
          | Some rel_pos \<Rightarrow>
              let pos = search_start + rel_pos in
              if pos > max_search then Ret None
              else rbind (slice_from haystack pos) (\<lambda>candidate.
                if starts_with candidate pattern then Ret (Some pos)
                else find_pattern_loop ptr haystack pattern first_byte max_search (pos + 1))))
      else Ret None)"
  by pat_completeness auto
termination
  by (relation "measure (\<lambda>(p, h, pat, b, m, s). Suc m - s)") auto

declare find_pattern_loop.simps [simp del]

definition find_pattern_in_slice :: "nat \<Rightarrow> bytes \<Rightarrow> bytes \<Rightarrow> nat option run" where
  "find_pattern_in_slice ptr haystack pattern =
     (let plen = slen pattern in
      if plen = 0 \<or> slen haystack < plen then Ret None
      else if plen = 1 then rbind (index_at pattern 0) (find_byte_swar ptr haystack)
      else
        rbind (index_at pattern 0) (\<lambda>first_byte.
        let hlen = slen haystack in
        rbind (sub_usize hlen plen) (\<lambda>max_search.
          find_pattern_loop ptr haystack pattern first_byte max_search 0)))"

subsection \<open>Correctness of the word trick\<close>

text \<open>
  The argument works on integers, byte by byte from the least significant end: a non-zero
  byte contributes no borrow and no flag, the first zero byte raises the flag in its top bit.
\<close>

fun le_int :: "bytes \<Rightarrow> int" where
  "le_int [] = 0"
| "le_int (b # bs) = uint b + 256 * le_int bs"

fun ones_int :: "nat \<Rightarrow> int" where
  "ones_int 0 = 0"
| "ones_int (Suc n) = 1 + 256 * ones_int n"

definition flags_int :: "bytes \<Rightarrow> int" where
  "flags_int bs = (le_int bs - ones_int (length bs)) AND NOT (le_int bs) AND (128 * ones_int (length bs))"

lemma and_split_byte:
  fixes p q a b :: int
  assumes "0 \<le> p" "p < 256" "0 \<le> q" "q < 256"
  shows "(p + 256 * a) AND (q + 256 * b) = (p AND q) + 256 * (a AND b)"
proof -
  have t: "take_bit 8 (r + 256 * c) = r" "drop_bit 8 (r + 256 * c) = c" if "0 \<le> r" "r < 256" for r c :: int
    using that by (simp_all add: take_bit_eq_mod drop_bit_eq_div)
  let ?x = "(p + 256 * a) AND (q + 256 * b)"
  have "take_bit 8 ?x = p AND q" and "drop_bit 8 ?x = a AND b"
    using assms by (simp_all add: t)
  then have "?x = push_bit 8 (a AND b) + (p AND q)"
    using bits_ident [of 8 ?x] by simp
  then show ?thesis by (simp add: push_bit_eq_mult)
qed

lemma not_split_byte: "NOT (p + 256 * a) = (255 - p) + 256 * NOT (a :: int)"
  by (simp add: not_int_def)

lemma flags_int_Cons:
  "flags_int (b # bs) =
     (if b = 0 then 128 + 256 * ((le_int bs - ones_int (length bs) - 1) AND NOT (le_int bs) AND (128 * ones_int (length bs)))
      else 256 * flags_int bs)"
proof -
  define y l where "y = le_int bs" and "l = ones_int (length bs)"
  define c where "c = uint b"
  have c: "0 \<le> c" "c < 256" unfolding c_def using uint_bounded [of b] by simp_all
  have not_c: "NOT (c + 256 * y) = (255 - c) + 256 * NOT y" by (rule not_split_byte)
  have hi: "128 * ones_int (length (b # bs)) = 128 + 256 * (128 * l)" by (simp add: l_def)
  have le: "le_int (b # bs) = c + 256 * y" by (simp add: c_def y_def)
  have step: "(p + 256 * a) AND NOT (c + 256 * y) AND (128 + 256 * (128 * l))
       = (p AND (255 - c) AND 128) + 256 * (a AND NOT y AND (128 * l))"
    if "0 \<le> p" "p < 256" for p a :: int
  proof -
    have "((255 - c) + 256 * NOT y) AND (128 + 256 * (128 * l)) = ((255 - c) AND 128) + 256 * (NOT y AND (128 * l))"
      using c by (intro and_split_byte) auto
    moreover have "0 \<le> (255 - c) AND 128" "(255 - c) AND 128 < 256"
      using c AND_upper2 [of 128 "255 - c"] by (auto simp: and_nonnegative_int_iff)
    ultimately show ?thesis
      using that by (simp only: not_c and_split_byte)
  qed
  show ?thesis
  proof (cases "b = 0")
    case True
    then have "c = 0" by (simp add: c_def)
    have sub: "c + 256 * y - ones_int (length (b # bs)) = 255 + 256 * (y - l - 1)"
      using \<open>c = 0\<close> by (simp add: l_def)
    have "flags_int (b # bs) = (255 AND (255 - c) AND 128) + 256 * ((y - l - 1) AND NOT y AND (128 * l))"
      by (simp only: flags_int_def le hi sub) (rule step; simp)
    then have "flags_int (b # bs) = 128 + 256 * ((y - l - 1) AND NOT y AND (128 * l))"
      using \<open>c = 0\<close> by simp
    with True show ?thesis by (simp add: y_def l_def)
  next
    case False
    then have "c \<noteq> 0" by (simp add: c_def uint_0_iff)
    with c have "1 \<le> c" by linarith
    have low: "(c - 1) AND (255 - c) AND 128 = 0"
    proof -
      have "\<forall>k\<in>{1..255::int}. (k - 1) AND (255 - k) AND 128 = 0" by code_simp
      with \<open>1 \<le> c\<close> c show ?thesis by simp
    qed
    have sub: "c + 256 * y - ones_int (length (b # bs)) = (c - 1) + 256 * (y - l)"
      by (simp add: l_def)
    have "flags_int (b # bs) = ((c - 1) AND (255 - c) AND 128) + 256 * ((y - l) AND NOT y AND (128 * l))"
      using \<open>1 \<le> c\<close> c by (simp only: flags_int_def le hi sub) (rule step; simp)
    then have "flags_int (b # bs) = 256 * ((y - l) AND NOT y AND (128 * l))" by (simp add: low)
    with False show ?thesis by (simp add: y_def l_def flags_int_def)
  qed
qed

text \<open>The flag word is zero iff no byte is, and its lowest set bit is the top bit of the first zero byte.\<close>

lemma flags_int_bit:
  "n < 8 * length bs \<Longrightarrow> (\<forall>k < n div 8. bs ! k \<noteq> 0) \<Longrightarrow>
     bit (flags_int bs) n \<longleftrightarrow> n mod 8 = 7 \<and> bs ! (n div 8) = 0"
proof (induction bs arbitrary: n)
  case Nil
  then show ?case by simp
next
  case (Cons b bs)
  have byte: "bit (128 + 256 * (z :: int)) n \<longleftrightarrow> (if n < 8 then n = 7 else bit z (n - 8))"
    for z
  proof -
    have "128 + 256 * z = (128 :: int) OR push_bit 8 z"
    proof -
      have "(128 :: int) AND push_bit 8 z = 0"
        using and_split_byte [of 128 0 0 z] by (simp add: push_bit_eq_mult mult.commute)
      then show ?thesis
        using disjunctive_add_eq_or [of 128 "push_bit 8 z"] by (simp add: push_bit_eq_mult mult.commute)
    qed
    moreover have "bit (128 :: int) n \<longleftrightarrow> n = 7"
      using bit_exp_iff [where 'a = int, of 7 n] by simp
    ultimately show ?thesis by (auto simp: bit_or_iff bit_push_bit_iff)
  qed
  show ?case
  proof (cases "n < 8")
    case True
    then have "n div 8 = 0" "n mod 8 = n" by simp_all
    moreover have "\<not> bit (256 * z) n" for z :: int
      using True bit_push_bit_iff [of 8 z n] by (simp add: push_bit_eq_mult mult.commute)
    ultimately show ?thesis using True by (auto simp: flags_int_Cons byte)
  next
    case False
    then obtain m where "n = 8 + m" using le_Suc_ex not_less by blast
    then have n: "n div 8 = Suc ((n - 8) div 8)" "n mod 8 = (n - 8) mod 8" by simp_all
    have "b \<noteq> 0" using Cons.prems(2) n by (metis nth_Cons_0 zero_less_Suc)
    have "bit (256 * z) n \<longleftrightarrow> bit z (n - 8)" for z :: int
      using False bit_push_bit_iff [of 8 z n] by (simp add: push_bit_eq_mult mult.commute)
    moreover have "bit (flags_int bs) (n - 8) \<longleftrightarrow> (n - 8) mod 8 = 7 \<and> bs ! ((n - 8) div 8) = 0"
      using Cons.prems False n by (intro Cons.IH) auto
    ultimately show ?thesis using \<open>b \<noteq> 0\<close> n by (simp add: flags_int_Cons)
  qed
qed

lemma xor_split_byte:
  fixes p q a b :: int
  assumes "0 \<le> p" "p < 256" "0 \<le> q" "q < 256"
  shows "(p + 256 * a) XOR (q + 256 * b) = (p XOR q) + 256 * (a XOR b)"
proof -
  have t: "take_bit 8 (r + 256 * c) = r" "drop_bit 8 (r + 256 * c) = c" if "0 \<le> r" "r < 256" for r c :: int
    using that by (simp_all add: take_bit_eq_mod drop_bit_eq_div)
  let ?x = "(p + 256 * a) XOR (q + 256 * b)"
  have "take_bit 8 ?x = p XOR q" and "drop_bit 8 ?x = a XOR b"
    using assms by (simp_all add: t)
  then have "?x = push_bit 8 (a XOR b) + (p XOR q)"
    using bits_ident [of 8 ?x] by simp
  then show ?thesis by (simp add: push_bit_eq_mult)
qed

lemma le_int_xor: "le_int bs XOR le_int (replicate (length bs) d) = le_int (map (\<lambda>b. b XOR d) bs)"
proof (induction bs)
  case (Cons b bs)
  then show ?case
    using uint_bounded [of b] uint_bounded [of d]
    by (simp add: xor_split_byte uint_xor)
qed simp

lemma word_le_int: "u64_from_le_bytes bs = word_of_int (le_int bs)"
  by (induction bs) simp_all

lemma swar_pattern: "ucast d * 0x0101010101010101 = (word_of_int (le_int (replicate 8 d)) :: 64 word)"
proof -
  have "le_int (replicate 8 d) = uint d * 0x0101010101010101"
    by (simp add: numeral_eq_Suc)
  then show ?thesis by simp
qed

lemma ones_int_8: "ones_int 8 = 0x0101010101010101"
  by (simp add: numeral_eq_Suc)

lemma xor_eq_zero: "b XOR d = 0 \<longleftrightarrow> b = (d :: byte)"
  by (auto simp: bit_eq_iff bit_xor_iff)

lemma swar_flags:
  assumes "length bs = 8"
  shows "swar_has_zero (u64_from_le_bytes bs) (ucast d * 0x0101010101010101)
       = word_of_int (flags_int (map (\<lambda>b. b XOR d) bs))"
proof -
  let ?xs = "map (\<lambda>b. b XOR d) bs"
  have x: "u64_from_le_bytes bs XOR (ucast d * 0x0101010101010101) = word_of_int (le_int ?xs)"
    using le_int_xor [of bs d] assms
    by (simp only: swar_pattern word_le_int) (simp flip: of_int_xor_eq)
  have lo: "(0x0101010101010101 :: 64 word) = word_of_int (ones_int (length ?xs))"
    and hi: "(0x8080808080808080 :: 64 word) = word_of_int (128 * ones_int (length ?xs))"
    using assms by (simp_all add: ones_int_8)
  show ?thesis
    unfolding swar_has_zero_def Let_def unfolding x unfolding lo hi flags_int_def
    by (simp add: of_int_and_eq of_int_not_eq)
qed

lemma trailing_zeros_eq:
  assumes "n < 64" and "bit w n" and "\<forall>m<n. \<not> bit w m"
  shows "trailing_zeros w = n"
proof -
  have "[0..<64] = [0..<n] @ n # [Suc n..<64]"
    using assms(1) by (metis le_add_same_cancel1 less_imp_add_positive upt_add_eq_append upt_conv_Cons zero_le)
  moreover have "takeWhile (\<lambda>i. \<not> bit w i) ([0..<n] @ n # [Suc n..<64]) = [0..<n]"
    using assms(2,3) by (subst takeWhile_append2) simp_all
  ultimately show ?thesis by (simp add: trailing_zeros_def)
qed

lemma swar_word_correct:
  fixes bs :: bytes and d :: byte
  assumes len: "length bs = 8"
  defines "hz \<equiv> swar_has_zero (u64_from_le_bytes bs) (ucast d * 0x0101010101010101)"
  shows "position (\<lambda>b. b = d) bs = (if hz \<noteq> 0 then Some (trailing_zeros hz div 8) else None)"
proof -
  let ?xs = "map (\<lambda>b. b XOR d) bs"
  have xs0: "?xs ! k = 0 \<longleftrightarrow> bs ! k = d" if "k < 8" for k
    using that len by (simp add: xor_eq_zero)
  have bits: "bit hz n \<longleftrightarrow> n < 64 \<and> bit (flags_int ?xs) n" for n
    unfolding hz_def swar_flags [OF len] by (simp add: bit_word_of_int_iff)
  show ?thesis
  proof (cases "position (\<lambda>b. b = d) bs")
    case None
    then have "bs ! k \<noteq> d" if "k < 8" for k
      using that len by (auto simp: position_None_iff)
    with xs0 have none: "\<forall>k<8. ?xs ! k \<noteq> 0" by blast
    have "\<not> bit hz n" for n
    proof (cases "n < 64")
      case True
      then have "n div 8 < 8" by simp
      with none have before: "\<forall>k<n div 8. ?xs ! k \<noteq> 0" by (meson less_trans)
      have "bit (flags_int ?xs) n \<longleftrightarrow> n mod 8 = 7 \<and> ?xs ! (n div 8) = 0"
        by (rule flags_int_bit [OF _ before]) (use True len in simp)
      with none \<open>n div 8 < 8\<close> show ?thesis by (simp add: bits)
    qed (simp add: bits)
    then have "hz = 0" by (simp add: bit_eq_iff)
    with None show ?thesis by simp
  next
    case (Some k)
    then have k: "k < 8" "?xs ! k = 0" "\<forall>j<k. ?xs ! j \<noteq> 0"
      using len xs0 by (auto simp: position_Some_iff)
    have set: "bit hz (8 * k + 7)"
      using k len flags_int_bit [of "8 * k + 7" ?xs] by (simp add: bits)
    have clear: "\<not> bit hz m" if "m < 8 * k + 7" for m
    proof
      assume b: "bit hz m"
      have "m div 8 \<le> k" using that by simp
      then have "m mod 8 = 7 \<and> ?xs ! (m div 8) = 0"
        using b k len flags_int_bit [of m ?xs] by (simp add: bits)
      then have "m mod 8 = 7" "m div 8 = k" using \<open>m div 8 \<le> k\<close> k(3) by (auto simp: le_less)
      then show False using that by presburger
    qed
    have "trailing_zeros hz = 8 * k + 7"
      using k set clear by (intro trailing_zeros_eq) auto
    moreover have "hz \<noteq> 0" using set by auto
    ultimately show ?thesis using Some by simp
  qed
qed

subsection \<open>The byte search is the first position\<close>

lemma position_drop_split:
  assumes "i \<le> j" "j \<le> length xs"
  shows "position P (drop i xs) =
     (case position P (take (j - i) (drop i xs)) of
        Some k \<Rightarrow> Some k | None \<Rightarrow> map_option ((+) (j - i)) (position P (drop j xs)))"
proof -
  have "drop i xs = take (j - i) (drop i xs) @ drop j xs"
    using assms by (metis append_take_drop_id drop_drop le_add_diff_inverse2)
  then have "position P (drop i xs) = position P (take (j - i) (drop i xs) @ drop j xs)" by simp
  then show ?thesis using assms by (simp add: position_append split: option.split)
qed

lemma swar_scalar_position:
  "i \<le> stop \<Longrightarrow> stop \<le> length h \<Longrightarrow>
   swar_scalar h d i stop =
     Ret (case position (\<lambda>b. b = d) (take (stop - i) (drop i h)) of Some k \<Rightarrow> Inl (i + k) | None \<Rightarrow> Inr stop)"
proof (induction h d i stop rule: swar_scalar.induct)
  case (1 h d i stop)
  show ?case
  proof (cases "i < stop")
    case True
    with "1.prems" have "take (stop - i) (drop i h) = h ! i # take (stop - Suc i) (drop (Suc i) h)"
      by (metis Cons_nth_drop_Suc Suc_diff_Suc less_le_trans take_Suc_Cons)
    with True "1.IH" "1.prems" show ?thesis
      by (subst swar_scalar.simps) (auto simp: index_at_def split: option.splits)
  next
    case False
    with "1.prems" show ?thesis by (subst swar_scalar.simps) simp
  qed
qed

lemma swar_words_position:
  assumes "i \<le> len" "len \<le> length h"
  shows "\<exists>r. swar_words h (ucast d * 0x0101010101010101) len i = Ret r \<and>
     (case r of
       Inl r \<Rightarrow> i \<le> r \<and> position (\<lambda>b. b = d) (drop i h) = Some (r - i)
     | Inr j \<Rightarrow> i \<le> j \<and> j \<le> len \<and> position (\<lambda>b. b = d) (take (j - i) (drop i h)) = None)"
  using assms
proof (induction "len - i" arbitrary: i rule: less_induct)
  case less
  let ?Q = "\<lambda>b. b = d" and ?pat = "ucast d * 0x0101010101010101"
  show ?case
  proof (cases "i + 8 \<le> len")
    case False
    with less.prems show ?thesis by (subst swar_words.simps) simp
  next
    case True
    define c where "c = take 8 (drop i h)"
    have lc: "length c = 8" using True less.prems by (simp add: c_def)
    have window: "slice_range h i (i + 8) = Ret c" "into_array 8 c = Ret c"
      using True less.prems lc by (simp_all add: slice_range_def into_array_def c_def)
    have split: "position ?Q (drop i h) =
        (case position ?Q c of Some k \<Rightarrow> Some k | None \<Rightarrow> map_option ((+) 8) (position ?Q (drop (i + 8) h)))"
      using position_drop_split [of i "i + 8" h ?Q] True less.prems by (simp add: c_def cong: option.case_cong)
    note word = swar_word_correct [OF lc, of d]
    show ?thesis
    proof (cases "swar_has_zero (u64_from_le_bytes c) ?pat = 0")
      case False
      with word split True show ?thesis
        by (subst swar_words.simps) (simp add: Let_def window)
    next
      case flag: True
      have step: "swar_words h ?pat len i = swar_words h ?pat len (i + 8)"
        using True flag by (subst swar_words.simps) (simp add: Let_def window)
      obtain r where r: "swar_words h ?pat len (i + 8) = Ret r"
        and IH: "case r of
           Inl r \<Rightarrow> i + 8 \<le> r \<and> position ?Q (drop (i + 8) h) = Some (r - (i + 8))
         | Inr j \<Rightarrow> i + 8 \<le> j \<and> j \<le> len \<and> position ?Q (take (j - (i + 8)) (drop (i + 8) h)) = None"
        using less.hyps [of "i + 8"] True less.prems by (meson add_leD1 diff_less_mono2 less_add_same_cancel1 less_le_trans zero_less_numeral)
      have none: "position ?Q c = None" using word flag by simp
      have tk: "take (j - i) (drop i h) = c @ take (j - (i + 8)) (drop (i + 8) h)" if "i + 8 \<le> j" for j
      proof -
        have "j - i = 8 + (j - (i + 8))" using that by simp
        then show ?thesis by (simp only: c_def take_add drop_drop) (simp add: add.commute)
      qed
      show ?thesis
        using IH none split unfolding step r
        by (auto simp: tk position_append split: sum.splits)
    qed
  qed
qed

lemma find_byte_swar_position:
  assumes "valid_slice h"
  shows "find_byte_swar ptr h d = Ret (position (\<lambda>b. b = d) h)"
proof (cases "h = []")
  case True
  then show ?thesis by (simp add: find_byte_swar_def)
next
  case False
  let ?Q = "\<lambda>b. b = d" and ?len = "length h"
  define pre where "pre = (if ptr mod 8 \<noteq> 0 then min (8 - ptr mod 8) ?len else 0)"
  have pre: "pre \<le> ?len" by (simp add: pre_def)
  have unfold: "find_byte_swar ptr h d =
      rbind (swar_scalar h d 0 pre) (\<lambda>r. case r of
         Inl i \<Rightarrow> Ret (Some i)
       | Inr i \<Rightarrow> rbind (swar_words h (ucast d * 0x0101010101010101) ?len i) (\<lambda>r. case r of
                    Inl i \<Rightarrow> Ret (Some i)
                  | Inr i \<Rightarrow> rmap (\<lambda>r. case r of Inl i \<Rightarrow> Some i | Inr _ \<Rightarrow> None) (swar_scalar h d i ?len)))"
    using assms False by (simp add: find_byte_swar_def Let_def pre_def)
  have head: "position ?Q h = (case position ?Q (take pre h) of
      Some k \<Rightarrow> Some k | None \<Rightarrow> map_option ((+) pre) (position ?Q (drop pre h)))"
    using position_drop_split [of 0 pre h ?Q] pre by (simp cong: option.case_cong)
  obtain w where w: "swar_words h (ucast d * 0x0101010101010101) ?len pre = Ret w"
    and words: "case w of
       Inl r \<Rightarrow> pre \<le> r \<and> position ?Q (drop pre h) = Some (r - pre)
     | Inr j \<Rightarrow> pre \<le> j \<and> j \<le> ?len \<and> position ?Q (take (j - pre) (drop pre h)) = None"
    using swar_words_position [OF pre order.refl, of d] by auto
  show ?thesis
  proof (cases "position ?Q (take pre h)")
    case (Some k)
    then show ?thesis using head pre swar_scalar_position [of 0 pre h d] by (simp add: unfold)
  next
    case None
    then have scalar: "swar_scalar h d 0 pre = Ret (Inr pre)"
      using pre swar_scalar_position [of 0 pre h d] by simp
    show ?thesis
    proof (cases w)
      case (Inl r)
      then show ?thesis using words head None scalar w by (simp add: unfold)
    next
      case (Inr j)
      with words have j: "pre \<le> j" "j \<le> ?len" "position ?Q (take (j - pre) (drop pre h)) = None" by simp_all
      then have "position ?Q (drop pre h) = map_option ((+) (j - pre)) (position ?Q (drop j h))"
        using position_drop_split [of pre j h ?Q] by simp
      moreover have "swar_scalar h d j ?len =
          Ret (case position ?Q (drop j h) of Some k \<Rightarrow> Inl (j + k) | None \<Rightarrow> Inr ?len)"
        using swar_scalar_position [of j ?len h d] j by simp
      ultimately show ?thesis
        using head None scalar Inr j w by (auto simp: unfold split: option.splits)
    qed
  qed
qed

lemma scalar_byte_position_eq:
  assumes "valid_slice h"
  shows "scalar_byte_position h d = Ret (position (\<lambda>b. b = d) h)"
proof -
  have "valid_slice h \<Longrightarrow> scalar_byte_position_from h d pos = Ret (map_option ((+) pos) (position (\<lambda>b. b = d) (drop pos h)))"
    for pos
  proof (induction h d pos rule: scalar_byte_position_from.induct)
    case (1 h d pos)
    show ?case
    proof (cases "pos < length h")
      case True
      then have "drop pos h = h ! pos # drop (Suc pos) h" by (simp add: Cons_nth_drop_Suc)
      with True "1.IH" "1.prems" show ?thesis
        by (subst scalar_byte_position_from.simps) (simp add: index_at_def option.map_comp comp_def)
    next
      case False
      with "1.prems" show ?thesis by (subst scalar_byte_position_from.simps) simp
    qed
  qed
  from this [OF assms, of 0] show ?thesis by (simp add: scalar_byte_position_def)
qed

subsection \<open>The pattern search is the first occurrence\<close>

lemma find_pattern_loop_first_occ:
  assumes "valid_slice h" "pat \<noteq> []" "length pat \<le> length h" "s \<le> length h"
  shows "find_pattern_loop ptr h pat (hd pat) (length h - length pat) s =
     Ret (map_option ((+) s) (first_occ pat (drop s h)))"
  using assms(4)
proof (induction "length h - s" arbitrary: s rule: less_induct)
  case less
  let ?m = "length h - length pat"
  show ?case
  proof (cases "s \<le> ?m")
    case False
    moreover have "0 < length pat" using assms(2) by simp
    ultimately have "length (drop s h) < length pat" using assms(3) less.prems by simp
    then have "first_occ pat (drop s h) = None" by (rule first_occ_short)
    with False show ?thesis by (subst find_pattern_loop.simps) simp
  next
    case True
    obtain c rest where pat: "pat = c # rest" using assms(2) by (cases pat) auto
    have byte: "find_byte_swar (ptr + s) (drop s h) c = Ret (position (\<lambda>b. b = c) (drop s h))"
      using assms(1) by (intro find_byte_swar_position) simp
    have hd_c: "starts_with (drop j (drop s h)) pat \<Longrightarrow> j < length (drop s h) \<and> drop s h ! j = c" for j
      using starts_with_hd [of "drop j (drop s h)" c rest] by (cases "j < length (drop s h)") (auto simp: pat hd_drop_conv_nth add.commute)
    show ?thesis
    proof (cases "position (\<lambda>b. b = c) (drop s h)")
      case None
      then have "c \<notin> set (drop s h)" by (auto simp: position_None_iff)
      then have "\<not> starts_with (drop j (drop s h)) pat" for j
        using hd_c [of j] nth_mem [of j "drop s h"] by metis
      then have "first_occ pat (drop s h) = None" by (simp add: first_occ_None_iff)
      with None True byte show ?thesis by (subst find_pattern_loop.simps) (simp add: pat slice_from_def)
    next
      case (Some r)
      then have r: "r < length (drop s h)" "\<forall>j<r. \<not> starts_with (drop j (drop s h)) pat"
        using hd_c by (auto simp: position_Some_iff)
      then have skip: "first_occ pat (drop s h) = map_option ((+) r) (first_occ pat (drop (s + r) h))"
        using first_occ_skip [of r "drop s h" pat] by (simp add: add.commute)
      consider (late) "s + r > ?m" | (hit) "s + r \<le> ?m" "starts_with (drop (s + r) h) pat"
        | (miss) "s + r \<le> ?m" "\<not> starts_with (drop (s + r) h) pat" by linarith
      then show ?thesis
      proof cases
        case late
        then have "length (drop (s + r) h) < length pat" using assms(3) pat by (simp add: less_diff_conv2)
        then have "first_occ pat (drop (s + r) h) = None" by (rule first_occ_short)
        with late skip True Some byte show ?thesis
          by (subst find_pattern_loop.simps) (simp add: pat Let_def slice_from_def)
      next
        case hit
        then have "first_occ pat (drop (s + r) h) = Some 0" by (auto simp: first_occ_Some_iff)
        with hit skip True Some byte show ?thesis
          by (subst find_pattern_loop.simps) (simp add: pat Let_def slice_from_def)
      next
        case miss
        have one: "first_occ pat (drop (s + r) h) = map_option ((+) 1) (first_occ pat (drop (s + r + 1) h))"
          using first_occ_skip [of 1 "drop (s + r) h" pat] miss r(1) by simp
        have "find_pattern_loop ptr h pat (hd pat) ?m (s + r + 1) = Ret (map_option ((+) (s + r + 1)) (first_occ pat (drop (s + r + 1) h)))"
          using r(1) by (intro less.hyps) auto
        with miss skip one True Some byte show ?thesis
          by (subst find_pattern_loop.simps) (simp add: pat Let_def map_option_plus_plus slice_from_def)
      qed
    qed
  qed
qed

lemma find_pattern_in_slice_first_occ:
  assumes "valid_slice h" "valid_slice pat" "pat \<noteq> []"
  shows "find_pattern_in_slice ptr h pat = Ret (first_occ pat h)"
proof -
  consider (short) "length h < length pat" | (one) "length pat = 1" "length pat \<le> length h"
    | (many) "length pat > 1" "length pat \<le> length h"
    using assms(3) by (cases pat) fastforce+
  then show ?thesis
  proof cases
    case short
    with assms show ?thesis by (simp add: find_pattern_in_slice_def first_occ_short)
  next
    case one
    then obtain d where "pat = [d]" by (cases pat) auto
    with one assms show ?thesis
      by (simp add: find_pattern_in_slice_def find_byte_swar_position first_occ_single index_at_def)
  next
    case many
    with assms find_pattern_loop_first_occ [of h pat 0 ptr] show ?thesis
      by (simp add: find_pattern_in_slice_def index_at_def sub_usize_def hd_conv_nth)
  qed
qed

subsection \<open>The search interface\<close>

text \<open>
  What the scanner and the planners rely on: for a well-formed delimiter the search returns
  the first occurrence, whatever the address of the haystack.
\<close>

locale delimiter_search =
  fixes search :: "nat \<Rightarrow> bytes \<Rightarrow> bytes \<Rightarrow> nat option run"
    and wf_delim :: "bytes \<Rightarrow> bool"
  assumes wf_nonempty: "wf_delim p \<Longrightarrow> p \<noteq> []"
    and search_first: "wf_delim p \<Longrightarrow> valid_slice h \<Longrightarrow> search ptr h p = Ret (first_occ p h)"
begin

lemma search_ptr_irrelevant: "wf_delim p \<Longrightarrow> valid_slice h \<Longrightarrow> search ptr h p = search ptr' h p"
  by (simp add: search_first)

lemma search_bound: "wf_delim p \<Longrightarrow> valid_slice h \<Longrightarrow> search ptr h p = Ret (Some r) \<Longrightarrow> r + length p \<le> length h"
  by (simp add: search_first first_occ_bound)

lemma search_cut:
  assumes "wf_delim p" "valid_slice xs" "t < length xs"
  shows "rmap (\<lambda>found. case found of Some r \<Rightarrow> min (t + r + length p) (length xs) | None \<Rightarrow> length xs)
      (search ptr (drop t xs) p) = Ret (next_cut p xs t)"
  using assms search_bound [of p "drop t xs" ptr]
  by (auto simp: search_first next_cut_def split: option.splits)

end

interpretation swar: delimiter_search "\<lambda>ptr h p. find_byte_swar ptr h (hd p)" "\<lambda>p. length p = 1"
proof
  fix p h :: bytes and ptr
  assume "length p = 1" "valid_slice h"
  then show "find_byte_swar ptr h (hd p) = Ret (first_occ p h)"
    by (cases p) (simp_all add: find_byte_swar_position first_occ_single)
qed auto

interpretation pat: delimiter_search find_pattern_in_slice "\<lambda>p. p \<noteq> [] \<and> valid_slice p"
  by unfold_locales (simp_all add: find_pattern_in_slice_first_occ)

subsection \<open>Properties\<close>

text \<open>
  Claim C20: the SWAR byte search, at any address alignment, never panics (its indices and
  8-byte windows stay inside the haystack) and returns exactly what the scalar reference search
  returns: the index of the first delimiter byte, or nothing when the delimiter does not occur.
\<close>

theorem swar_search_correct:
  assumes "valid_slice haystack"
  shows "(\<exists>r. find_byte_swar ptr haystack delimiter = Ret r) \<and>
     find_byte_swar ptr haystack delimiter = scalar_byte_position haystack delimiter \<and>
     (find_byte_swar ptr haystack delimiter = Ret None \<longleftrightarrow> delimiter \<notin> set haystack) \<and>
     (\<forall>i. find_byte_swar ptr haystack delimiter = Ret (Some i) \<longleftrightarrow>
        i < length haystack \<and> haystack ! i = delimiter \<and> (\<forall>j<i. haystack ! j \<noteq> delimiter))"
  using assms
  by (auto simp: find_byte_swar_position scalar_byte_position_eq position_None_iff position_Some_iff)

theorem swar_search_correct_witness:
  "valid_slice [1, 2, 3, 4, 5, 6, 7, 8, 9, 10, 11 :: byte] \<and>
   find_byte_swar 3 [1, 2, 3, 4, 5, 6, 7, 8, 9, 10, 11] 10 = Ret (Some 9) \<and>
   scalar_byte_position [1, 2, 3, 4, 5, 6, 7, 8, 9, 10, 11] 10 = Ret (Some 9)"
proof -
  let ?h = "[1, 2, 3, 4, 5, 6, 7, 8, 9, 10, 11] :: byte list"
  have v: "valid_slice ?h" by (simp add: valid_slice_def max_consts)
  have "scalar_byte_position ?h 10 = Ret (Some 9)"
    by (simp add: scalar_byte_position_def scalar_byte_position_from.simps slen_def as_usize_def index_at_def)
  with v swar_search_correct [OF v, of 3 10] show ?thesis by metis
qed

text \<open>
  Claim C21: the multi-byte pattern search never panics; it returns the least offset at which the
  whole pattern occurs, and nothing exactly when the pattern occurs nowhere; for an empty pattern
  it returns nothing.
\<close>

theorem pattern_search_correct:
  assumes "valid_slice haystack" "valid_slice pattern"
  shows "(\<exists>r. find_pattern_in_slice ptr haystack pattern = Ret r) \<and>
     (pattern = [] \<longrightarrow> find_pattern_in_slice ptr haystack pattern = Ret None) \<and>
     (pattern \<noteq> [] \<longrightarrow>
        (\<forall>i. find_pattern_in_slice ptr haystack pattern = Ret (Some i) \<longleftrightarrow>
           take (length pattern) (drop i haystack) = pattern \<and>
           (\<forall>j<i. take (length pattern) (drop j haystack) \<noteq> pattern)))"
proof -
  have "take (length pattern) (drop i haystack) = pattern \<Longrightarrow> pattern \<noteq> [] \<Longrightarrow> i \<le> length haystack" for i
    by (cases "i \<le> length haystack") auto
  moreover have "find_pattern_in_slice ptr haystack [] = Ret None"
    by (simp add: find_pattern_in_slice_def)
  ultimately show ?thesis
    using assms by (cases "pattern = []") (auto simp: find_pattern_in_slice_first_occ first_occ_Some_iff starts_with_def)
qed

theorem pattern_search_correct_witness:
  "valid_slice [97, 13, 13, 10, 98 :: byte] \<and> valid_slice [13, 10 :: byte] \<and>
   find_pattern_in_slice 5 [97, 13, 13, 10, 98] [13, 10] = Ret (Some 2) \<and>
   take 2 (drop 2 [97, 13, 13, 10, 98]) = [13, 10 :: byte]"
proof -
  have v: "valid_slice [97, 13, 13, 10, 98 :: byte]" "valid_slice [13, 10 :: byte]"
    by (simp_all add: valid_slice_def max_consts)
  have "\<forall>j<2. take (Suc (Suc 0)) (drop j [97, 13, 13, 10, 98]) \<noteq> [13, 10 :: byte]"
  proof (intro allI impI)
    fix j :: nat
    assume "j < 2"
    then consider "j = 0" | "j = 1" by linarith
    then show "take (Suc (Suc 0)) (drop j [97, 13, 13, 10, 98]) \<noteq> [13, 10 :: byte]" by cases simp_all
  qed
  with v pattern_search_correct [OF v, of 5] show ?thesis by simp
qed

end
