(* ===== verification/Scanner_Chunks.thy ===== *)
theory Scanner_Chunks
  imports Scanner_Search
begin

section \<open>Delimiter-aware chunking: eager scan, cursors, fixed-size layout\<close>

text \<open>
  \<open>find_chunk_boundaries\<close>, \<open>find_chunk_boundaries_pattern\<close>, the lazy cursors \<open>ChunkCursor\<close> and
  \<open>PatternChunkCursor\<close>, and the fixed-size arithmetic of \<open>src/src/scanner.rs\<close>, together with
  the scalar oracles of its differential tests and of the fuzz targets. One list-level
  specification, \<open>chunks_from\<close>, is refined by all of them.
\<close>

subsection \<open>Eager scan, single byte\<close>

text \<open>
  Every slice expression of the scans is the checked operation of the prelude, so a bound that the
  code forgot would be a panic of the model. The result vector is allocated up front for
  \<open>len / step + 2\<close> pairs of 16 bytes; \<open>Vec::with_capacity\<close> panics when these would take more than
  \<open>isize::MAX\<close> bytes, which needs a slice of more than \<open>2 ^ 58\<close> bytes.
\<close>

text \<open>One iteration of the loop of \<open>find_chunk_boundaries\<close>: the end of the chunk that starts at \<open>start\<close>.\<close>

definition chunk_end :: "nat \<Rightarrow> bytes \<Rightarrow> nat \<Rightarrow> byte \<Rightarrow> nat \<Rightarrow> nat run" where
  "chunk_end ptr data chunk_size delimiter start =
     (let len = slen data;
          step = max chunk_size 1;
          end0 = sat_add start step
      in if end0 \<ge> len then Ret len
         else rbind (slice_from data end0) (\<lambda>remainder.
              rmap (\<lambda>found. case found of
                      Some rel_pos \<Rightarrow> (let e = end0 + rel_pos + 1 in if e > len then len else e)
                    | None \<Rightarrow> len)
                (find_byte_swar (ptr + end0) remainder delimiter)))"

lemma sat_step_gt: "start < slen (data :: 'a list) \<Longrightarrow> start < sat_add start (max n 1)"
  using slen_le_usize_max [of data] by (intro sat_add_gt) auto

text \<open>A hit of the search, or the end of the data, is at or after the position it started from.\<close>

lemma search_end_ge:
  assumes "rbind r (\<lambda>remainder. rmap (\<lambda>found. case found of
      Some k \<Rightarrow> if t + k + l > len then len else t + k + l | None \<Rightarrow> len) (f remainder)) = Ret e"
    "t < len"
  shows "t \<le> (e :: nat)"
proof -
  obtain found where "e = (case found of Some k \<Rightarrow> if t + k + l > len then len else t + k + l | None \<Rightarrow> len)"
    using assms(1) by (auto simp: rbind_Ret_iff)
  with assms(2) show ?thesis by (cases found) auto
qed

lemma chunk_end_gt:
  assumes "start < slen data" "chunk_end ptr data n d start = Ret e"
  shows "start < e"
proof (cases "slen data \<le> sat_add start (max n 1)")
  case True
  with assms show ?thesis by (simp add: chunk_end_def)
next
  case False
  with assms(2) have "sat_add start (max n 1) \<le> e"
    unfolding chunk_end_def Let_def by (simp only: if_False) (rule search_end_ge, assumption, simp)
  with sat_step_gt [OF assms(1), of n] show ?thesis by (rule less_le_trans)
qed

function chunk_loop :: "nat \<Rightarrow> bytes \<Rightarrow> nat \<Rightarrow> byte \<Rightarrow> nat \<Rightarrow> brange list run" where
  "chunk_loop ptr data chunk_size delimiter start =
     (if start < slen data then
        rbind (chunk_end ptr data chunk_size delimiter start) (\<lambda>e.
          rmap ((#) (start, e)) (chunk_loop ptr data chunk_size delimiter e))
      else Ret [])"
  by pat_completeness auto
termination
proof (relation "measure (\<lambda>(ptr, data, n, d, start). slen data - start)")
  fix ptr n start e :: nat and data :: bytes and d :: byte
  assume "start < slen data" "chunk_end ptr data n d start = Ret e"
  then show "((ptr, data, n, d, e), ptr, data, n, d, start) \<in> measure (\<lambda>(ptr, data, n, d, start). slen data - start)"
    using chunk_end_gt [of start data ptr n d e] by (simp add: diff_less_mono2)
qed simp

declare chunk_loop.simps [simp del]

definition find_chunk_boundaries :: "nat \<Rightarrow> bytes \<Rightarrow> nat \<Rightarrow> byte \<Rightarrow> brange list run" where
  "find_chunk_boundaries ptr data chunk_size delimiter =
     (if data = [] then Ret []
      else
        let len = slen data;
            step = max chunk_size 1;
            estimate = len div step + 2
        in rbind (vec_with_capacity 16 estimate) (\<lambda>_. chunk_loop ptr data chunk_size delimiter 0))"

subsection \<open>Lazy cursor, single byte\<close>

record chunk_cursor =
  cc_ptr :: nat
  cc_data :: bytes
  cc_chunk_size :: nat
  cc_delimiter :: byte
  cc_position :: nat

definition cursor_new :: "nat \<Rightarrow> bytes \<Rightarrow> nat \<Rightarrow> byte \<Rightarrow> chunk_cursor" where
  "cursor_new ptr data chunk_size delimiter =
     \<lparr>cc_ptr = ptr, cc_data = data, cc_chunk_size = chunk_size, cc_delimiter = delimiter, cc_position = 0\<rparr>"

definition cursor_position :: "chunk_cursor \<Rightarrow> nat" where
  "cursor_position c = cc_position c"

definition cursor_len :: "chunk_cursor \<Rightarrow> nat" where
  "cursor_len c = slen (cc_data c)"

definition cursor_is_empty :: "chunk_cursor \<Rightarrow> bool" where
  "cursor_is_empty c \<longleftrightarrow> cc_position c \<ge> slen (cc_data c)"

definition cursor_next :: "chunk_cursor \<Rightarrow> (bytes option \<times> chunk_cursor) run" where
  "cursor_next c =
     (let len = slen (cc_data c) in
      if cc_position c \<ge> len then Ret (None, c)
      else
        let step = max (cc_chunk_size c) 1;
            target = sat_add (cc_position c) step
        in rbind (if target \<ge> len then Ret len
                  else rbind (slice_from (cc_data c) target) (\<lambda>remainder.
                       rmap (\<lambda>found. case found of Some rel_pos \<Rightarrow> min (target + rel_pos + 1) len | None \<Rightarrow> len)
                         (find_byte_swar (cc_ptr c + target) remainder (cc_delimiter c)))) (\<lambda>e.
           rmap (\<lambda>chunk. (Some chunk, c\<lparr>cc_position := e\<rparr>)) (slice_range (cc_data c) (cc_position c) e)))"

definition cursor_size_hint :: "chunk_cursor \<Rightarrow> nat \<times> nat option" where
  "cursor_size_hint c =
     (let len = slen (cc_data c) in
      if cc_position c \<ge> len then (0, Some 0)
      else (let remaining = len - cc_position c in (1, Some remaining)))"

text \<open>
  The cursor run to exhaustion: the range of each chunk, as the tests compute it from the chunk's
  address, the chunk itself, and the final cursor.
\<close>

lemma cursor_next_progress:
  assumes "cursor_next c = Ret (Some ch, c')"
  shows "cc_data c' = cc_data c \<and> cc_position c < slen (cc_data c) \<and> cc_position c < cc_position c'"
  using assms sat_step_gt [of "cc_position c" "cc_data c" "cc_chunk_size c"]
  by (auto simp: cursor_next_def Let_def rbind_Ret_iff split: if_splits option.splits)

function cursor_ranges :: "chunk_cursor \<Rightarrow> ((brange \<times> bytes) list \<times> chunk_cursor) run" where
  "cursor_ranges c =
     rbind (cursor_next c) (\<lambda>item.
       case item of
         (None, c') \<Rightarrow> Ret ([], c')
       | (Some chunk, c') \<Rightarrow>
           rmap (\<lambda>(rs, c''). (((cc_position c, cc_position c + length chunk), chunk) # rs, c''))
             (cursor_ranges c'))"
  by pat_completeness auto
termination
proof (relation "measure (\<lambda>c. slen (cc_data c) - cc_position c)")
  fix c item c' a ch
  assume "cursor_next c = Ret item" "(a, c') = item" "a = Some ch"
  then show "(c', c) \<in> measure (\<lambda>c. slen (cc_data c) - cc_position c)"
    using cursor_next_progress [of c ch c'] by auto
qed simp

declare cursor_ranges.simps [simp del]

subsection \<open>Eager scan, multi-byte pattern\<close>

definition pattern_chunk_end :: "nat \<Rightarrow> bytes \<Rightarrow> nat \<Rightarrow> bytes \<Rightarrow> nat \<Rightarrow> nat run" where
  "pattern_chunk_end ptr data chunk_size delimiter start =
     (let dlen = slen delimiter;
          len = slen data;
          step = max chunk_size 1;
          end0 = sat_add start step
      in if end0 \<ge> len then Ret len
         else rbind (slice_from data end0) (\<lambda>remainder.
              rmap (\<lambda>found. case found of
                      Some rel_pos \<Rightarrow> (let e = end0 + rel_pos + dlen in if e > len then len else e)
                    | None \<Rightarrow> len)
                (find_pattern_in_slice (ptr + end0) remainder delimiter)))"

lemma pattern_chunk_end_gt:
  assumes "start < slen data" "pattern_chunk_end ptr data n d start = Ret e"
  shows "start < e"
proof (cases "slen data \<le> sat_add start (max n 1)")
  case True
  with assms show ?thesis by (simp add: pattern_chunk_end_def)
next
  case False
  with assms(2) have "sat_add start (max n 1) \<le> e"
    unfolding pattern_chunk_end_def Let_def by (simp only: if_False) (rule search_end_ge, assumption, simp)
  with sat_step_gt [OF assms(1), of n] show ?thesis by (rule less_le_trans)
qed

function pattern_chunk_loop :: "nat \<Rightarrow> bytes \<Rightarrow> nat \<Rightarrow> bytes \<Rightarrow> nat \<Rightarrow> brange list run" where
  "pattern_chunk_loop ptr data chunk_size delimiter start =
     (if start < slen data then
        rbind (pattern_chunk_end ptr data chunk_size delimiter start) (\<lambda>e.
          rmap ((#) (start, e)) (pattern_chunk_loop ptr data chunk_size delimiter e))
      else Ret [])"
  by pat_completeness auto
termination
proof (relation "measure (\<lambda>(ptr, data, n, d, start). slen data - start)")
  fix ptr n start e :: nat and data :: bytes and d :: bytes
  assume "start < slen data" "pattern_chunk_end ptr data n d start = Ret e"
  then show "((ptr, data, n, d, e), ptr, data, n, d, start) \<in> measure (\<lambda>(ptr, data, n, d, start). slen data - start)"
    using pattern_chunk_end_gt [of start data ptr n d e] by (simp add: diff_less_mono2)
qed simp

declare pattern_chunk_loop.simps [simp del]

definition empty_delimiter_msg :: string where
  "empty_delimiter_msg = ''delimiter must not be empty''"

definition find_chunk_boundaries_pattern :: "nat \<Rightarrow> bytes \<Rightarrow> nat \<Rightarrow> bytes \<Rightarrow> brange list run" where
  "find_chunk_boundaries_pattern ptr data chunk_size delimiter =
     (if delimiter = [] then Panic empty_delimiter_msg
      else if data = [] then Ret []
      else
        let len = slen data;
            step = max chunk_size 1;
            estimate = len div step + 2
        in rbind (vec_with_capacity 16 estimate) (\<lambda>_. pattern_chunk_loop ptr data chunk_size delimiter 0))"

subsection \<open>Lazy cursor, multi-byte pattern\<close>

record pattern_cursor =
  pc_ptr :: nat
  pc_data :: bytes
  pc_chunk_size :: nat
  pc_delimiter :: bytes
  pc_position :: nat

definition pattern_cursor_new :: "nat \<Rightarrow> bytes \<Rightarrow> nat \<Rightarrow> bytes \<Rightarrow> pattern_cursor run" where
  "pattern_cursor_new ptr data chunk_size delimiter =
     (if delimiter = [] then Panic empty_delimiter_msg
      else Ret \<lparr>pc_ptr = ptr, pc_data = data, pc_chunk_size = chunk_size,
                 pc_delimiter = delimiter, pc_position = 0\<rparr>)"

definition pattern_cursor_position :: "pattern_cursor \<Rightarrow> nat" where
  "pattern_cursor_position c = pc_position c"

definition pattern_cursor_len :: "pattern_cursor \<Rightarrow> nat" where
  "pattern_cursor_len c = slen (pc_data c)"

definition pattern_cursor_is_empty :: "pattern_cursor \<Rightarrow> bool" where
  "pattern_cursor_is_empty c \<longleftrightarrow> pc_position c \<ge> slen (pc_data c)"

definition pattern_cursor_next :: "pattern_cursor \<Rightarrow> (bytes option \<times> pattern_cursor) run" where
  "pattern_cursor_next c =
     (let len = slen (pc_data c) in
      if pc_position c \<ge> len then Ret (None, c)
      else
        let dlen = slen (pc_delimiter c);
            step = max (pc_chunk_size c) 1;
            target = sat_add (pc_position c) step
        in rbind (if target \<ge> len then Ret len
                  else rbind (slice_from (pc_data c) target) (\<lambda>remainder.
                       rmap (\<lambda>found. case found of Some rel_pos \<Rightarrow> min (target + rel_pos + dlen) len | None \<Rightarrow> len)
                         (find_pattern_in_slice (pc_ptr c + target) remainder (pc_delimiter c)))) (\<lambda>e.
           rmap (\<lambda>chunk. (Some chunk, c\<lparr>pc_position := e\<rparr>)) (slice_range (pc_data c) (pc_position c) e)))"

definition pattern_cursor_size_hint :: "pattern_cursor \<Rightarrow> nat \<times> nat option" where
  "pattern_cursor_size_hint c =
     (let len = slen (pc_data c) in
      if pc_position c \<ge> len then (0, Some 0)
      else (let remaining = len - pc_position c in (1, Some remaining)))"

lemma pattern_cursor_next_progress:
  assumes "pattern_cursor_next c = Ret (Some ch, c')"
  shows "pc_data c' = pc_data c \<and> pc_position c < slen (pc_data c) \<and> pc_position c < pc_position c'"
  using assms sat_step_gt [of "pc_position c" "pc_data c" "pc_chunk_size c"]
  by (auto simp: pattern_cursor_next_def Let_def rbind_Ret_iff split: if_splits option.splits)

function pattern_cursor_ranges :: "pattern_cursor \<Rightarrow> ((brange \<times> bytes) list \<times> pattern_cursor) run" where
  "pattern_cursor_ranges c =
     rbind (pattern_cursor_next c) (\<lambda>item.
       case item of
         (None, c') \<Rightarrow> Ret ([], c')
       | (Some chunk, c') \<Rightarrow>
           rmap (\<lambda>(rs, c''). (((pc_position c, pc_position c + length chunk), chunk) # rs, c''))
             (pattern_cursor_ranges c'))"
  by pat_completeness auto
termination
proof (relation "measure (\<lambda>c. slen (pc_data c) - pc_position c)")
  fix c item c' a ch
  assume "pattern_cursor_next c = Ret item" "(a, c') = item" "a = Some ch"
  then show "(c', c) \<in> measure (\<lambda>c. slen (pc_data c) - pc_position c)"
    using pattern_cursor_next_progress [of c ch c'] by auto
qed simp

declare pattern_cursor_ranges.simps [simp del]

subsection \<open>Fixed-size chunks\<close>

definition fixed_chunk_count :: "nat \<Rightarrow> nat \<Rightarrow> nat" where
  "fixed_chunk_count file_len chunk_size =
     (if file_len = 0 then 0 else div_ceil file_len (max chunk_size 1))"

definition fixed_chunk_bounds :: "nat \<Rightarrow> nat \<Rightarrow> nat \<Rightarrow> brange option" where
  "fixed_chunk_bounds file_len chunk_size index =
     (let effective_size = max chunk_size 1 in
      if file_len = 0 then None
      else
        let count = div_ceil file_len effective_size in
        if index \<ge> count then None
        else
          let start = sat_mul index effective_size;
              raw_end = sat_add start effective_size;
              e = (if raw_end > file_len then file_len else raw_end)
          in Some (start, e))"

text \<open>The 128-bit oracles of the fuzz target \<open>fixed_extremes\<close>.\<close>

definition oracle_count :: "nat \<Rightarrow> nat \<Rightarrow> nat" where
  "oracle_count file_len chunk_size =
     (if file_len = 0 then 0
      else let size = max chunk_size 1
           in as_usize (as_u128 (file_len + size - 1) div size))"

definition oracle_bounds :: "nat \<Rightarrow> nat \<Rightarrow> nat \<Rightarrow> brange option" where
  "oracle_bounds file_len chunk_size index =
     (let count = oracle_count file_len chunk_size in
      if index \<ge> count then None
      else
        let size = max chunk_size 1;
            start = as_u128 (index * size);
            e = min (as_u128 (start + size)) file_len
        in Some (as_usize start, as_usize e))"

subsection \<open>The scalar oracles of the differential tests\<close>

function scalar_scan :: "bytes \<Rightarrow> byte \<Rightarrow> nat \<Rightarrow> nat run" where
  "scalar_scan data delimiter e =
     (if e < slen data then
        rbind (index_at data e) (\<lambda>b.
          if b = delimiter then Ret (e + 1) else scalar_scan data delimiter (e + 1))
      else Ret e)"
  by pat_completeness auto
termination
  by (relation "measure (\<lambda>(data, d, e). slen data - e)") auto

declare scalar_scan.simps [simp del]

lemma scalar_scan_ge: "scalar_scan data d e = Ret e' \<Longrightarrow> e \<le> e' \<and> (e < slen data \<longrightarrow> e < e')"
proof (induction data d e rule: scalar_scan.induct)
  case (1 data d e)
  then show ?case
    by (subst (asm) (2) scalar_scan.simps) (fastforce simp: rbind_Ret_iff split: if_splits)
qed

function scalar_single_loop :: "bytes \<Rightarrow> nat \<Rightarrow> byte \<Rightarrow> nat \<Rightarrow> brange list run" where
  "scalar_single_loop data chunk_size delimiter start =
     (if start < slen data then
        let target = sat_add start (max chunk_size 1) in
        if target \<ge> slen data then Ret [(start, slen data)]
        else
          rbind (scalar_scan data delimiter target) (\<lambda>e.
            rmap ((#) (start, min e (slen data))) (scalar_single_loop data chunk_size delimiter e))
      else Ret [])"
  by pat_completeness auto
termination
proof (relation "measure (\<lambda>(data, n, d, start). slen data - start)")
  fix data n d start t e
  assume "start < slen (data :: bytes)" "t = sat_add start (max n 1)" "\<not> slen data \<le> t" "scalar_scan data d t = Ret e"
  then show "((data, n, d, e), data, n, d, start) \<in> measure (\<lambda>(data, n, d, start). slen data - start)"
    using sat_step_gt [of start data n] scalar_scan_ge [of data d t e] by auto
qed simp

declare scalar_single_loop.simps [simp del]

definition scalar_single_byte_boundaries :: "bytes \<Rightarrow> nat \<Rightarrow> byte \<Rightarrow> brange list run" where
  "scalar_single_byte_boundaries data chunk_size delimiter = scalar_single_loop data chunk_size delimiter 0"

text \<open>The innermost loop of the pattern oracle compares one byte after the other.\<close>

function scalar_pattern_matches :: "bytes \<Rightarrow> bytes \<Rightarrow> nat \<Rightarrow> nat \<Rightarrow> bool run" where
  "scalar_pattern_matches data pattern candidate offset =
     (if offset < slen pattern then
        rbind (index_at data (candidate + offset)) (\<lambda>a.
        rbind (index_at pattern offset) (\<lambda>b.
          if a \<noteq> b then Ret False else scalar_pattern_matches data pattern candidate (offset + 1)))
      else Ret True)"
  by pat_completeness auto
termination
  by (relation "measure (\<lambda>(data, p, c, offset). slen p - offset)") auto

declare scalar_pattern_matches.simps [simp del]

function scalar_pattern_scan :: "bytes \<Rightarrow> bytes \<Rightarrow> nat \<Rightarrow> nat run" where
  "scalar_pattern_scan data pattern candidate =
     (if candidate + slen pattern \<le> slen data then
        rbind (scalar_pattern_matches data pattern candidate 0) (\<lambda>matches.
          if matches then Ret (candidate + slen pattern)
          else scalar_pattern_scan data pattern (candidate + 1))
      else Ret (slen data))"
  by pat_completeness auto
termination
  by (relation "measure (\<lambda>(data, p, c). Suc (slen data) - c)") auto

declare scalar_pattern_scan.simps [simp del]

lemma scalar_pattern_scan_ge: "scalar_pattern_scan data p c = Ret e \<Longrightarrow> c \<le> e \<or> e = slen data"
proof (induction data p c rule: scalar_pattern_scan.induct)
  case (1 data p c)
  then show ?case
    by (subst (asm) (2) scalar_pattern_scan.simps) (fastforce simp: rbind_Ret_iff split: if_splits)
qed

function scalar_pattern_loop :: "bytes \<Rightarrow> nat \<Rightarrow> bytes \<Rightarrow> nat \<Rightarrow> brange list run" where
  "scalar_pattern_loop data chunk_size pattern start =
     (if start < slen data then
        let target = sat_add start (max chunk_size 1) in
        if target \<ge> slen data then Ret [(start, slen data)]
        else
          rbind (scalar_pattern_scan data pattern target) (\<lambda>e.
            rmap ((#) (start, e)) (scalar_pattern_loop data chunk_size pattern e))
      else Ret [])"
  by pat_completeness auto
termination
proof (relation "measure (\<lambda>(data, n, p, start). slen data - start)")
  fix data n p start t e
  assume "start < slen (data :: bytes)" "t = sat_add start (max n 1)" "\<not> slen data \<le> t" "scalar_pattern_scan data p t = Ret e"
  then show "((data, n, p, e), data, n, p, start) \<in> measure (\<lambda>(data, n, p, start). slen data - start)"
    using sat_step_gt [of start data n] scalar_pattern_scan_ge [of data p t e] by auto
qed simp

declare scalar_pattern_loop.simps [simp del]

definition scalar_pattern_boundaries :: "bytes \<Rightarrow> nat \<Rightarrow> bytes \<Rightarrow> brange list run" where
  "scalar_pattern_boundaries data chunk_size pattern =
     (if pattern = [] then Panic ''assertion failed: !pattern.is_empty()''
      else scalar_pattern_loop data chunk_size pattern 0)"

text \<open>\<open>assert_cover\<close> of the tests: true when no assertion fails.\<close>

fun assert_cover_loop :: "nat \<Rightarrow> brange list \<Rightarrow> nat option" where
  "assert_cover_loop next_start [] = Some next_start"
| "assert_cover_loop next_start ((s, e) # rs) =
     (if s = next_start \<and> e > s then assert_cover_loop e rs else None)"

definition assert_cover :: "bytes \<Rightarrow> brange list \<Rightarrow> bool" where
  "assert_cover data ranges =
     (if data = [] then ranges = []
      else ranges \<noteq> [] \<and> fst (hd ranges) = 0 \<and> snd (last ranges) = slen data \<and>
           assert_cover_loop 0 ranges = Some (slen data))"

subsection \<open>The chunking specification\<close>

text \<open>
  From each start, the chunk ends at the next cut at or after \<open>start + size\<close>. For an empty
  delimiter the specification takes the whole rest, so that it is total.
\<close>

function chunks_from :: "bytes \<Rightarrow> bytes \<Rightarrow> nat \<Rightarrow> nat \<Rightarrow> brange list" where
  "chunks_from p data chunk_size start =
     (if start < length data then
        let e = next_cut p data (start + max chunk_size 1)
        in (start, e) # chunks_from p data chunk_size e
      else [])"
  by pat_completeness auto
termination
proof (relation "measure (\<lambda>(p, data, n, start). length data - start)")
  fix p data n start e
  assume "start < length (data :: bytes)" "e = next_cut p data (start + max n 1)"
  then show "((p, data, n, e), p, data, n, start) \<in> measure (\<lambda>(p, data, n, start). length data - start)"
    by (auto simp: next_cut_def intro!: diff_less_mono2 split: option.splits)
qed simp

declare chunks_from.simps [simp del]

lemma next_cut_step_gt: "start < length data \<Longrightarrow> start < next_cut p data (start + max n 1)"
  by (auto simp: next_cut_def split: option.splits)

lemma next_cut_step_ge:
  "start + max n 1 \<le> next_cut p data (start + max n 1) \<or> next_cut p data (start + max n 1) = length data"
  by (auto simp: next_cut_def split: option.splits)

lemma chunks_from_tiles: "start \<le> length data \<Longrightarrow> tiles start (chunks_from p data n start) (length data)"
proof (induction p data n start rule: chunks_from.induct)
  case (1 p data n start)
  then show ?case
    using next_cut_step_gt [of start data p n] next_cut_le [of p data "start + max n 1"]
    by (subst chunks_from.simps) (simp add: Let_def)
qed

lemma chunks_from_aligned: "aligned p data (chunks_from p data n start)"
proof (induction p data n start rule: chunks_from.induct)
  case (1 p data n start)
  show ?case
  proof (cases "start < length data")
    case True
    with 1 next_cut_boundary [of p data "start + max n 1"] show ?thesis
      by (subst chunks_from.simps) (simp add: Let_def aligned_def)
  next
    case False
    then show ?thesis by (subst chunks_from.simps) (simp add: aligned_def)
  qed
qed

lemma chunks_from_size:
  "(a, b) \<in> set (chunks_from p data n start) \<Longrightarrow> b = next_cut p data (a + max n 1)"
proof (induction p data n start rule: chunks_from.induct)
  case (1 p data n start)
  then show ?case by (subst (asm) (2) chunks_from.simps) (auto simp: Let_def split: if_splits)
qed

text \<open>
  The allocation of the result vector: it fits for every slice below \<open>2 ^ 58\<close> bytes and, whatever
  the slice, once the requested size is two bytes or more. \<open>scan_result\<close> is the outcome of an
  eager scan whose ranges are \<open>rs\<close>.
\<close>

definition scan_fits :: "bytes \<Rightarrow> nat \<Rightarrow> bool" where
  "scan_fits data chunk_size \<longleftrightarrow> data = [] \<or> 16 * (length data div max chunk_size 1 + 2) \<le> isize_max"

definition scan_result :: "bytes \<Rightarrow> nat \<Rightarrow> brange list \<Rightarrow> brange list run" where
  "scan_result data chunk_size rs = (if scan_fits data chunk_size then Ret rs else Panic capacity_msg)"

lemma scan_fits_Nil [simp]: "scan_fits [] n"
  by (simp add: scan_fits_def)

lemma scan_fits_small:
  assumes "length data \<le> 2 ^ 58"
  shows "scan_fits data n"
proof -
  have "length data div max n 1 \<le> 2 ^ 58" using assms div_le_dividend le_trans by blast
  then have "16 * (length data div max n 1 + 2) \<le> 16 * (2 ^ 58 + 2)" by simp
  also have "\<dots> \<le> isize_max" by (simp add: max_consts)
  finally show ?thesis by (simp add: scan_fits_def)
qed

lemma scan_fits_large_size:
  assumes "valid_slice data" "32 \<le> n"
  shows "scan_fits data n"
proof -
  have "length data div max n 1 \<le> length data div 32" using assms(2) by (intro div_le_mono2) simp_all
  also have "\<dots> \<le> 2 ^ 58" using assms(1) by (simp add: valid_slice_def max_consts)
  finally have "16 * (length data div max n 1 + 2) \<le> 16 * (2 ^ 58 + 2)" by simp
  also have "\<dots> \<le> isize_max" by (simp add: max_consts)
  finally show ?thesis by (simp add: scan_fits_def)
qed

lemma scan_result_simps [simp]:
  "scan_fits data n \<Longrightarrow> scan_result data n rs = Ret rs"
  "\<not> scan_fits data n \<Longrightarrow> scan_result data n rs = Panic capacity_msg"
  by (simp_all add: scan_result_def)

lemma scan_result_Ret_iff: "scan_result data n rs = Ret rs' \<longleftrightarrow> scan_fits data n \<and> rs' = rs"
  by (auto simp: scan_result_def)

subsection \<open>Every implementation refines the specification\<close>

lemma sat_step_cut:
  assumes "valid_slice data" "start < length data"
  shows "sat_add start (max n 1) \<ge> length data \<Longrightarrow> next_cut p data (start + max n 1) = length data"
    and "sat_add start (max n 1) < length data \<Longrightarrow> sat_add start (max n 1) = start + max n 1"
  using assms valid_slice_usize [OF assms(1)] by (auto simp: sat_add_def next_cut_def min_def split: if_splits)

text \<open>
  The search at the tentative end of a chunk, in range, finds the next cut; the scans cap it with
  \<open>if\<close>, the cursors with \<open>min\<close>.
\<close>

lemma search_end_byte:
  assumes "valid_slice data" "start < length data" "sat_add start (max n 1) < length data"
  obtains found where "find_byte_swar q (drop (sat_add start (max n 1)) data) d = Ret found"
    "next_cut [d] data (start + max n 1) =
       (case found of Some r \<Rightarrow> min (sat_add start (max n 1) + r + 1) (length data) | None \<Rightarrow> length data)"
proof -
  let ?t = "sat_add start (max n 1)"
  have t: "?t = start + max n 1" by (rule sat_step_cut(2) [OF assms])
  obtain found where f: "find_byte_swar q (drop ?t data) d = Ret found"
    using assms(1) by (simp add: find_byte_swar_position)
  have "rmap (\<lambda>found. case found of Some r \<Rightarrow> min (?t + r + length [d]) (length data) | None \<Rightarrow> length data)
      (find_byte_swar q (drop ?t data) (hd [d])) = Ret (next_cut [d] data ?t)"
    using assms by (intro swar.search_cut) simp_all
  with f that [OF f] show ?thesis unfolding t by (cases found) simp_all
qed

lemma chunk_end_next_cut:
  assumes "valid_slice data" "start < length data"
  shows "chunk_end ptr data n d start = Ret (next_cut [d] data (start + max n 1))"
proof (cases "sat_add start (max n 1) \<ge> length data")
  case True
  with assms sat_step_cut(1) [OF assms True, of "[d]"] show ?thesis by (simp add: chunk_end_def)
next
  case False
  then have lt: "sat_add start (max n 1) < length data" by simp
  obtain found where f: "find_byte_swar (ptr + sat_add start (max n 1)) (drop (sat_add start (max n 1)) data) d = Ret found"
    "next_cut [d] data (start + max n 1) =
       (case found of Some r \<Rightarrow> min (sat_add start (max n 1) + r + 1) (length data) | None \<Rightarrow> length data)"
    using search_end_byte [OF assms lt] .
  show ?thesis
    using f lt assms unfolding f(2)
    by (cases found) (auto simp: chunk_end_def Let_def slice_from_def min_def)
qed

lemma chunk_loop_spec:
  assumes "valid_slice data"
  shows "chunk_loop ptr data n d start = Ret (chunks_from [d] data n start)"
proof (induction "length data - start" arbitrary: start rule: less_induct)
  case less
  show ?case
  proof (cases "start < length data")
    case True
    with assms less next_cut_step_gt [OF True, of "[d]" n] show ?thesis
      by (subst chunk_loop.simps, subst chunks_from.simps)
        (simp add: Let_def chunk_end_next_cut diff_less_mono2)
  next
    case False
    with assms show ?thesis by (subst chunk_loop.simps, subst chunks_from.simps) simp
  qed
qed

lemma find_chunk_boundaries_spec:
  "valid_slice data \<Longrightarrow> find_chunk_boundaries ptr data n d = scan_result data n (chunks_from [d] data n 0)"
  by (cases "data = []")
    (simp_all add: find_chunk_boundaries_def chunk_loop_spec chunks_from.simps [of _ "[]"] scan_result_def scan_fits_def
      vec_with_capacity_def)

lemma search_end_pattern:
  assumes "valid_slice data" "start < length data" "sat_add start (max n 1) < length data" "valid_slice p" "p \<noteq> []"
  obtains found where "find_pattern_in_slice q (drop (sat_add start (max n 1)) data) p = Ret found"
    "next_cut p data (start + max n 1) =
       (case found of Some r \<Rightarrow> min (sat_add start (max n 1) + r + length p) (length data) | None \<Rightarrow> length data)"
proof -
  let ?t = "sat_add start (max n 1)"
  have t: "?t = start + max n 1" by (rule sat_step_cut(2) [OF assms(1-3)])
  obtain found where f: "find_pattern_in_slice q (drop ?t data) p = Ret found"
    using assms by (simp add: find_pattern_in_slice_first_occ)
  have "rmap (\<lambda>found. case found of Some r \<Rightarrow> min (?t + r + length p) (length data) | None \<Rightarrow> length data)
      (find_pattern_in_slice q (drop ?t data) p) = Ret (next_cut p data ?t)"
    using assms by (intro pat.search_cut) simp_all
  with f that [OF f] show ?thesis unfolding t by (cases found) simp_all
qed

lemma pattern_chunk_end_next_cut:
  assumes "valid_slice data" "start < length data" "valid_slice p" "p \<noteq> []"
  shows "pattern_chunk_end ptr data n p start = Ret (next_cut p data (start + max n 1))"
proof (cases "sat_add start (max n 1) \<ge> length data")
  case True
  with assms sat_step_cut(1) [OF assms(1,2) True, of p] show ?thesis by (simp add: pattern_chunk_end_def)
next
  case False
  then have lt: "sat_add start (max n 1) < length data" by simp
  obtain found where f: "find_pattern_in_slice (ptr + sat_add start (max n 1)) (drop (sat_add start (max n 1)) data) p = Ret found"
    "next_cut p data (start + max n 1) =
       (case found of Some r \<Rightarrow> min (sat_add start (max n 1) + r + length p) (length data) | None \<Rightarrow> length data)"
    using search_end_pattern [OF assms(1,2) lt assms(3,4)] .
  show ?thesis
    using f lt assms unfolding f(2)
    by (cases found) (auto simp: pattern_chunk_end_def Let_def slice_from_def min_def)
qed

lemma pattern_chunk_loop_spec:
  assumes "valid_slice data" "valid_slice p" "p \<noteq> []"
  shows "pattern_chunk_loop ptr data n p start = Ret (chunks_from p data n start)"
proof (induction "length data - start" arbitrary: start rule: less_induct)
  case less
  show ?case
  proof (cases "start < length data")
    case True
    with assms less next_cut_step_gt [OF True, of p n] show ?thesis
      by (subst pattern_chunk_loop.simps, subst chunks_from.simps)
        (simp add: Let_def pattern_chunk_end_next_cut diff_less_mono2)
  next
    case False
    with assms show ?thesis by (subst pattern_chunk_loop.simps, subst chunks_from.simps) simp
  qed
qed

lemma find_chunk_boundaries_pattern_spec:
  "valid_slice data \<Longrightarrow> valid_slice p \<Longrightarrow> p \<noteq> [] \<Longrightarrow>
     find_chunk_boundaries_pattern ptr data n p = scan_result data n (chunks_from p data n 0)"
  by (cases "data = []")
    (simp_all add: find_chunk_boundaries_pattern_def pattern_chunk_loop_spec chunks_from.simps [of _ "[]"]
      scan_result_def scan_fits_def vec_with_capacity_def)

lemma cursor_next_spec:
  assumes "valid_slice (cc_data c)"
  shows "cursor_next c =
     (if cc_position c \<ge> length (cc_data c) then Ret (None, c)
      else let e = next_cut [cc_delimiter c] (cc_data c) (cc_position c + max (cc_chunk_size c) 1)
           in Ret (Some (subslice (cc_data c) (cc_position c, e)), c\<lparr>cc_position := e\<rparr>))"
proof (cases "cc_position c < length (cc_data c)")
  case True
  let ?len = "length (cc_data c)" and ?t = "sat_add (cc_position c) (max (cc_chunk_size c) 1)"
  let ?e = "next_cut [cc_delimiter c] (cc_data c) (cc_position c + max (cc_chunk_size c) 1)"
  have e: "cc_position c \<le> ?e" "?e \<le> ?len"
    using next_cut_step_gt [OF True] next_cut_le by (auto simp: less_imp_le)
  show ?thesis
  proof (cases "?t \<ge> ?len")
    case at_end: True
    with e sat_step_cut(1) [OF assms(1) True at_end, of "[cc_delimiter c]"] True assms show ?thesis
      by (simp add: cursor_next_def slice_range_def subslice_def)
  next
    case False
    then have lt: "?t < ?len" by simp
    obtain found where "find_byte_swar (cc_ptr c + ?t) (drop ?t (cc_data c)) (cc_delimiter c) = Ret found"
      "?e = (case found of Some r \<Rightarrow> min (?t + r + 1) ?len | None \<Rightarrow> ?len)"
      using search_end_byte [OF assms True lt] .
    with e lt True assms show ?thesis
      by (cases found) (simp_all add: cursor_next_def slice_from_def slice_range_def subslice_def Let_def)
  qed
qed (simp add: cursor_next_def assms)

lemma cursor_ranges_spec:
  assumes "valid_slice (cc_data c)" "cc_position c \<le> length (cc_data c)"
  shows "cursor_ranges c =
     Ret (map (\<lambda>r. (r, subslice (cc_data c) r))
        (chunks_from [cc_delimiter c] (cc_data c) (cc_chunk_size c) (cc_position c)),
      c\<lparr>cc_position := length (cc_data c)\<rparr>)"
  using assms
proof (induction "length (cc_data c) - cc_position c" arbitrary: c rule: less_induct)
  case less
  show ?case
  proof (cases "cc_position c < length (cc_data c)")
    case True
    define e where "e = next_cut [cc_delimiter c] (cc_data c) (cc_position c + max (cc_chunk_size c) 1)"
    have e: "cc_position c < e" "e \<le> length (cc_data c)"
      using next_cut_step_gt [OF True, of "[cc_delimiter c]" "cc_chunk_size c"] next_cut_le by (simp_all add: e_def)
    have "cursor_ranges (c\<lparr>cc_position := e\<rparr>) =
      Ret (map (\<lambda>r. (r, subslice (cc_data c) r)) (chunks_from [cc_delimiter c] (cc_data c) (cc_chunk_size c) e),
       c\<lparr>cc_position := length (cc_data c)\<rparr>)"
      using less.hyps [of "c\<lparr>cc_position := e\<rparr>"] e True less.prems by (simp add: diff_less_mono2)
    moreover have "cursor_next c = Ret (Some (subslice (cc_data c) (cc_position c, e)), c\<lparr>cc_position := e\<rparr>)"
      using True less.prems by (simp add: cursor_next_spec e_def Let_def)
    moreover have "chunks_from [cc_delimiter c] (cc_data c) (cc_chunk_size c) (cc_position c) =
        (cc_position c, e) # chunks_from [cc_delimiter c] (cc_data c) (cc_chunk_size c) e"
      using True by (subst chunks_from.simps) (simp add: e_def Let_def)
    ultimately show ?thesis
      using e by (subst cursor_ranges.simps) (simp add: length_subslice)
  next
    case False
    with less.prems show ?thesis
      by (subst cursor_ranges.simps, subst chunks_from.simps) (simp add: cursor_next_spec)
  qed
qed

lemma pattern_cursor_next_spec:
  assumes "valid_slice (pc_data c)" "valid_slice (pc_delimiter c)" "pc_delimiter c \<noteq> []"
  shows "pattern_cursor_next c =
     (if pc_position c \<ge> length (pc_data c) then Ret (None, c)
      else let e = next_cut (pc_delimiter c) (pc_data c) (pc_position c + max (pc_chunk_size c) 1)
           in Ret (Some (subslice (pc_data c) (pc_position c, e)), c\<lparr>pc_position := e\<rparr>))"
proof (cases "pc_position c < length (pc_data c)")
  case True
  let ?len = "length (pc_data c)" and ?t = "sat_add (pc_position c) (max (pc_chunk_size c) 1)"
  let ?e = "next_cut (pc_delimiter c) (pc_data c) (pc_position c + max (pc_chunk_size c) 1)"
  have e: "pc_position c \<le> ?e" "?e \<le> ?len"
    using next_cut_step_gt [OF True] next_cut_le by (auto simp: less_imp_le)
  show ?thesis
  proof (cases "?t \<ge> ?len")
    case at_end: True
    with e sat_step_cut(1) [OF assms(1) True at_end, of "pc_delimiter c"] True assms show ?thesis
      by (simp add: pattern_cursor_next_def slice_range_def subslice_def)
  next
    case False
    then have lt: "?t < ?len" by simp
    obtain found where "find_pattern_in_slice (pc_ptr c + ?t) (drop ?t (pc_data c)) (pc_delimiter c) = Ret found"
      "?e = (case found of Some r \<Rightarrow> min (?t + r + length (pc_delimiter c)) ?len | None \<Rightarrow> ?len)"
      using search_end_pattern [OF assms(1) True lt assms(2,3)] .
    with e lt True assms show ?thesis
      by (cases found) (simp_all add: pattern_cursor_next_def slice_from_def slice_range_def subslice_def Let_def)
  qed
qed (simp add: pattern_cursor_next_def assms)

lemma pattern_cursor_ranges_spec:
  assumes "valid_slice (pc_data c)" "valid_slice (pc_delimiter c)" "pc_delimiter c \<noteq> []"
    "pc_position c \<le> length (pc_data c)"
  shows "pattern_cursor_ranges c =
     Ret (map (\<lambda>r. (r, subslice (pc_data c) r))
        (chunks_from (pc_delimiter c) (pc_data c) (pc_chunk_size c) (pc_position c)),
      c\<lparr>pc_position := length (pc_data c)\<rparr>)"
  using assms
proof (induction "length (pc_data c) - pc_position c" arbitrary: c rule: less_induct)
  case less
  show ?case
  proof (cases "pc_position c < length (pc_data c)")
    case True
    define e where "e = next_cut (pc_delimiter c) (pc_data c) (pc_position c + max (pc_chunk_size c) 1)"
    have e: "pc_position c < e" "e \<le> length (pc_data c)"
      using next_cut_step_gt [OF True, of "pc_delimiter c" "pc_chunk_size c"] next_cut_le by (simp_all add: e_def)
    have "pattern_cursor_ranges (c\<lparr>pc_position := e\<rparr>) =
      Ret (map (\<lambda>r. (r, subslice (pc_data c) r)) (chunks_from (pc_delimiter c) (pc_data c) (pc_chunk_size c) e),
       c\<lparr>pc_position := length (pc_data c)\<rparr>)"
      using less.hyps [of "c\<lparr>pc_position := e\<rparr>"] e True less.prems by (simp add: diff_less_mono2)
    moreover have "pattern_cursor_next c = Ret (Some (subslice (pc_data c) (pc_position c, e)), c\<lparr>pc_position := e\<rparr>)"
      using True less.prems by (simp add: pattern_cursor_next_spec e_def Let_def)
    moreover have "chunks_from (pc_delimiter c) (pc_data c) (pc_chunk_size c) (pc_position c) =
        (pc_position c, e) # chunks_from (pc_delimiter c) (pc_data c) (pc_chunk_size c) e"
      using True by (subst chunks_from.simps) (simp add: e_def Let_def)
    ultimately show ?thesis
      using e by (subst pattern_cursor_ranges.simps) (simp add: length_subslice)
  next
    case False
    with less.prems show ?thesis
      by (subst pattern_cursor_ranges.simps, subst chunks_from.simps) (simp add: pattern_cursor_next_spec)
  qed
qed

subsection \<open>The scalar oracles compute the same ranges\<close>

lemma next_cut_single_step:
  "t < length data \<Longrightarrow> next_cut [d] data t = (if data ! t = d then t + 1 else next_cut [d] data (t + 1))"
proof -
  assume t: "t < length data"
  then have "drop t data = data ! t # drop (Suc t) data" by (simp add: Cons_nth_drop_Suc)
  with t show ?thesis
    by (cases "Suc t < length data") (auto simp: next_cut_def starts_with_Cons_single split: option.splits)
qed

lemma scalar_scan_next_cut:
  "valid_slice data \<Longrightarrow> e \<le> length data \<Longrightarrow> scalar_scan data d e = Ret (next_cut [d] data e)"
proof (induction data d e rule: scalar_scan.induct)
  case (1 data d e)
  then show ?case
    by (subst scalar_scan.simps) (auto simp: next_cut_single_step index_at_def, simp add: next_cut_def)
qed

lemma scalar_single_spec:
  assumes "valid_slice data"
  shows "scalar_single_loop data n d start = Ret (chunks_from [d] data n start)"
proof (induction "length data - start" arbitrary: start rule: less_induct)
  case less
  let ?t = "sat_add start (max n 1)"
  show ?case
  proof (cases "start < length data")
    case True
    note cut = sat_step_cut [OF assms True, of n]
    show ?thesis
    proof (cases "?t \<ge> length data")
      case True
      then have "chunks_from [d] data n (length data) = []" by (subst chunks_from.simps) simp
      with True cut(1) [of "[d]"] \<open>start < length data\<close> assms show ?thesis
        by (subst scalar_single_loop.simps, subst chunks_from.simps) simp
    next
      case False
      with cut assms have "scalar_scan data d ?t = Ret (next_cut [d] data (start + max n 1))"
        by (simp add: scalar_scan_next_cut)
      with False True less.hyps assms next_cut_step_gt [OF True, of "[d]" n] next_cut_le [of "[d]" data] show ?thesis
        by (subst scalar_single_loop.simps, subst chunks_from.simps)
          (simp add: Let_def diff_less_mono2 min_def)
    qed
  next
    case False
    with assms show ?thesis by (subst scalar_single_loop.simps, subst chunks_from.simps) simp
  qed
qed

lemma starts_with_nth:
  assumes "c + length p \<le> length data"
  shows "starts_with (drop c data) p \<longleftrightarrow> (\<forall>k\<in>set [0..<length p]. data ! (c + k) = p ! k)"
proof -
  have "starts_with (drop c data) p \<longleftrightarrow> (\<forall>k<length p. take (length p) (drop c data) ! k = p ! k)"
    using assms by (simp add: starts_with_def list_eq_iff_nth_eq)
  also have "\<dots> \<longleftrightarrow> (\<forall>k<length p. data ! (c + k) = p ! k)" using assms by simp
  finally show ?thesis by auto
qed

lemma next_cut_step:
  assumes "t < length data" "p \<noteq> []"
  shows "next_cut p data t = (if starts_with (drop t data) p then t + length p else next_cut p data (t + 1))"
proof -
  have "drop t data = data ! t # drop (Suc t) data" using assms by (simp add: Cons_nth_drop_Suc)
  with assms show ?thesis
    by (cases "Suc t < length data") (auto simp: next_cut_def split: option.splits)
qed

lemma next_cut_short: "p \<noteq> [] \<Longrightarrow> length data < t + length p \<Longrightarrow> next_cut p data t = length data"
  using first_occ_short [of "drop t data" p] by (auto simp: next_cut_def)

lemma scalar_pattern_matches_spec:
  assumes "valid_slice p" "c + length p \<le> length data" "offset \<le> length p"
  shows "scalar_pattern_matches data p c offset =
     Ret (\<forall>k\<in>set [offset..<length p]. data ! (c + k) = p ! k)"
  using assms(3)
proof (induction "length p - offset" arbitrary: offset rule: less_induct)
  case less
  show ?case
  proof (cases "offset < length p")
    case True
    then have "[offset..<length p] = offset # [Suc offset..<length p]" by (rule upt_conv_Cons)
    with True assms(1,2) less.hyps [of "Suc offset"] show ?thesis
      by (subst scalar_pattern_matches.simps) (simp add: index_at_def)
  next
    case False
    with assms(1) less.prems show ?thesis by (subst scalar_pattern_matches.simps) simp
  qed
qed

lemma scalar_pattern_scan_next_cut:
  "valid_slice data \<Longrightarrow> valid_slice p \<Longrightarrow> p \<noteq> [] \<Longrightarrow> scalar_pattern_scan data p c = Ret (next_cut p data c)"
proof (induction data p c rule: scalar_pattern_scan.induct)
  case (1 data p c)
  show ?case
  proof (cases "c + length p \<le> length data")
    case True
    moreover have "c < length data" using True "1.prems" by (cases p) auto
    moreover have "scalar_pattern_matches data p c 0 = Ret (starts_with (drop c data) p)"
      using True "1.prems" by (simp add: scalar_pattern_matches_spec starts_with_nth)
    ultimately show ?thesis
      using 1 by (subst scalar_pattern_scan.simps) (auto simp: next_cut_step)
  next
    case False
    with "1.prems" show ?thesis by (subst scalar_pattern_scan.simps) (simp add: next_cut_short)
  qed
qed

lemma scalar_pattern_spec:
  assumes "valid_slice data" "valid_slice p" "p \<noteq> []"
  shows "scalar_pattern_loop data n p start = Ret (chunks_from p data n start)"
proof (induction "length data - start" arbitrary: start rule: less_induct)
  case less
  let ?t = "sat_add start (max n 1)"
  show ?case
  proof (cases "start < length data")
    case True
    note cut = sat_step_cut [OF assms(1) True, of n]
    show ?thesis
    proof (cases "?t \<ge> length data")
      case True
      then have "chunks_from p data n (length data) = []" by (subst chunks_from.simps) simp
      with True cut(1) [of p] \<open>start < length data\<close> assms show ?thesis
        by (subst scalar_pattern_loop.simps, subst chunks_from.simps) simp
    next
      case False
      with True less.hyps assms cut(2) next_cut_step_gt [OF True, of p n] show ?thesis
        by (subst scalar_pattern_loop.simps, subst chunks_from.simps)
          (simp add: Let_def diff_less_mono2 scalar_pattern_scan_next_cut)
    qed
  next
    case False
    with assms show ?thesis by (subst scalar_pattern_loop.simps, subst chunks_from.simps) simp
  qed
qed

lemma assert_cover_loop_tiles: "assert_cover_loop s rs = Some e \<longleftrightarrow> tiles s rs e"
  by (induction s rs rule: assert_cover_loop.induct) auto

lemma tiles_ends: "tiles s rs e \<Longrightarrow> rs \<noteq> [] \<Longrightarrow> fst (hd rs) = s \<and> snd (last rs) = e"
  by (induction s rs e rule: tiles.induct) (auto simp: neq_Nil_conv)

lemma assert_cover_iff: "valid_slice data \<Longrightarrow> assert_cover data rs \<longleftrightarrow> tiles 0 rs (length data)"
  using tiles_ends [of 0 rs "length data"] tiles_Nil_iff [of 0 rs "length data"]
  by (auto simp: assert_cover_def assert_cover_loop_tiles)

subsection \<open>Fixed-size arithmetic\<close>

lemma max_one_pos [simp]: "0 < max n (Suc 0)"
  by simp

lemma div_ceil_eq: "0 < b \<Longrightarrow> div_ceil a b = (a + b - 1) div b"
proof -
  assume b: "0 < b"
  define q r where "q = a div b" and "r = a mod b"
  have a: "a = b * q + r" "r < b" using b by (simp_all add: q_def r_def)
  have "(a + b - 1) div b = (if r > 0 then q + 1 else q)"
  proof (cases "r > 0")
    case True
    then have "a + b - 1 = b * (q + 1) + (r - 1)" using a by simp
    moreover have "r - 1 < b" using a by simp
    ultimately show ?thesis using True b by (metis div_mult_self4 div_less less_numeral_extra(3) add.right_neutral add.commute)
  next
    case False
    then have "a + b - 1 = b * q + (b - 1)" using a b by simp
    then show ?thesis using False b by (metis div_mult_self4 div_less diff_less less_numeral_extra(1,3) add.right_neutral add.commute)
  qed
  then show ?thesis by (simp add: div_ceil_def q_def r_def Let_def)
qed

lemma less_div_ceil_iff: "0 < b \<Longrightarrow> i < div_ceil a b \<longleftrightarrow> i * b < a"
proof -
  assume b: "0 < b"
  have "i < div_ceil a b \<longleftrightarrow> Suc i \<le> (a + b - 1) div b" using b by (simp add: div_ceil_eq Suc_le_eq)
  also have "\<dots> \<longleftrightarrow> Suc i * b \<le> a + b - 1" using b by (rule less_eq_div_iff_mult_less_eq)
  also have "\<dots> \<longleftrightarrow> i * b < a" using b by auto
  finally show ?thesis .
qed

lemma fixed_chunk_bounds_exact:
  assumes "file_len \<le> usize_max"
  shows "fixed_chunk_bounds file_len n i =
     (if i * max n 1 < file_len then Some (i * max n 1, min (Suc i * max n 1) file_len) else None)"
proof (cases "i * max n 1 < file_len")
  case True
  then have "sat_mul i (max n 1) = i * max n 1" using assms by (simp add: sat_mul_def)
  with True assms less_div_ceil_iff [of "max n 1" i file_len] show ?thesis
    by (auto simp: fixed_chunk_bounds_def Let_def sat_add_def min_def not_le add.commute)
next
  case False
  then show ?thesis using less_div_ceil_iff [of "max n 1" i file_len]
    by (auto simp: fixed_chunk_bounds_def Let_def)
qed

lemma fixed_chunk_count_iff: "i < fixed_chunk_count file_len n \<longleftrightarrow> i * max n 1 < file_len"
  using less_div_ceil_iff [of "max n 1" i file_len] by (auto simp: fixed_chunk_count_def)

lemma oracle_count_eq:
  assumes "file_len \<le> usize_max" "n \<le> usize_max"
  shows "oracle_count file_len n = fixed_chunk_count file_len n"
proof -
  have "(file_len + max n 1 - 1) div max n 1 \<le> usize_max"
  proof -
    have "div_ceil file_len (max n 1) \<le> file_len"
      using less_div_ceil_iff [of "max n 1" file_len file_len] by (simp add: not_less [symmetric])
    then show ?thesis using assms(1) by (simp add: div_ceil_eq)
  qed
  moreover have "as_u128 (file_len + max n 1 - 1) = file_len + max n 1 - 1"
    using assms by (simp add: as_u128_def max_consts)
  ultimately show ?thesis
    by (simp add: oracle_count_def fixed_chunk_count_def Let_def div_ceil_eq)
qed

lemma oracle_bounds_eq:
  assumes "file_len \<le> usize_max" "n \<le> usize_max"
  shows "oracle_bounds file_len n i = fixed_chunk_bounds file_len n i"
proof (cases "i * max n 1 < file_len")
  case True
  have u: "as_u128 (i * max n 1) = i * max n 1"
    using True assms by (simp add: as_u128_def max_consts)
  have v: "as_u128 (i * max n 1 + max n 1) = i * max n 1 + max n 1"
  proof -
    have "i * max n 1 + max n 1 < 2 ^ 128" using True assms by (simp add: max_consts)
    then show ?thesis by (simp add: as_u128_def)
  qed
  have c: "i < fixed_chunk_count file_len n" using True by (simp add: fixed_chunk_count_iff)
  have "min (i * max n 1 + max n 1) file_len \<le> usize_max" "i * max n 1 \<le> usize_max"
    using True assms by simp_all
  then show ?thesis
    using c True unfolding oracle_bounds_def Let_def oracle_count_eq [OF assms] u v fixed_chunk_bounds_exact [OF assms(1)]
    by (simp only: as_usize_id) (simp add: not_le add.commute)
next
  case False
  then show ?thesis
    using fixed_chunk_bounds_exact [OF assms(1)] fixed_chunk_count_iff [of i file_len n]
    by (simp add: oracle_bounds_def Let_def oracle_count_eq [OF assms])
qed

lemma fixed_tiles_gen:
  "0 < m \<Longrightarrow> (k - 1) * m < file_len \<or> k = 0 \<Longrightarrow>
     tiles 0 (map (\<lambda>i. (i * m, min (Suc i * m) file_len)) [0..<k]) (min (k * m) file_len)"
proof (induction k)
  case (Suc k)
  then have "k * m < file_len" by simp
  moreover have "tiles 0 (map (\<lambda>i. (i * m, min (Suc i * m) file_len)) [0..<k]) (min (k * m) file_len)"
  proof (cases k)
    case (Suc j)
    have "j * m \<le> k * m" by (simp add: Suc)
    then show ?thesis using Suc.IH Suc.prems \<open>k * m < file_len\<close> Suc by simp
  qed simp
  ultimately show ?case using Suc.prems(1) by (auto simp: tiles_append)
qed simp

subsection \<open>Properties\<close>

lemma chunks_from_least:
  "(a, b) \<in> set (chunks_from p data n start) \<Longrightarrow> ends_after p data e \<Longrightarrow> a + max n 1 + length p \<le> e \<Longrightarrow> b \<le> e"
  using chunks_from_size next_cut_least by blast

lemma chunks_from_long:
  "(a, b) \<in> set (chunks_from p data n start) \<Longrightarrow> b = length data \<or> a + max n 1 \<le> b"
  using chunks_from_size next_cut_step_ge by metis

text \<open>
  Claim C16: the eager single-byte scan panics only when its result vector would exceed
  \<open>isize::MAX\<close> bytes (never for a slice of at most \<open>2 ^ 58\<close> bytes, never for a chunk size of 32 or
  more); otherwise it cuts the data into non-empty, adjacent chunks that cover it completely
  (concatenated, they are the data); every chunk but the last ends just after the delimiter and
  is at least the requested size long, and no record boundary at or after the requested size is
  skipped.
\<close>

theorem chunk_scan_correct:
  assumes "valid_slice data"
  shows "(length data \<le> 2 ^ 58 \<or> 32 \<le> chunk_size \<longrightarrow> scan_fits data chunk_size) \<and>
     (\<exists>rs. find_chunk_boundaries ptr data chunk_size delimiter =
          (if scan_fits data chunk_size then Ret rs else Panic capacity_msg) \<and>
        tiles 0 rs (length data) \<and> concat (map (subslice data) rs) = data \<and>
        aligned [delimiter] data rs \<and>
        (\<forall>a b. (a, b) \<in> set rs \<longrightarrow> b = length data \<or> a + max chunk_size 1 \<le> b) \<and>
        (\<forall>a b k. (a, b) \<in> set rs \<and> a + max chunk_size 1 \<le> k \<and> k < length data \<and> data ! k = delimiter \<longrightarrow> b \<le> k + 1))"
proof -
  let ?rs = "chunks_from [delimiter] data chunk_size 0"
  have least: "b \<le> k + 1" if "(a, b) \<in> set ?rs" "a + max chunk_size 1 \<le> k" "k < length data" "data ! k = delimiter" for a b k
    using that by (intro chunks_from_least [of a b "[delimiter]" data chunk_size 0]) (simp_all add: ends_after_single)
  have "tiles 0 ?rs (length data)" by (rule chunks_from_tiles) simp
  moreover from this have "concat (map (subslice data) ?rs) = data" by (rule concat_tiles)
  moreover have "\<forall>a b. (a, b) \<in> set ?rs \<longrightarrow> b = length data \<or> a + max chunk_size 1 \<le> b"
    using chunks_from_long by blast
  moreover have "find_chunk_boundaries ptr data chunk_size delimiter = scan_result data chunk_size ?rs"
    using assms by (rule find_chunk_boundaries_spec)
  ultimately show ?thesis
    using least assms unfolding scan_result_def
    by (blast intro: scan_fits_small scan_fits_large_size chunks_from_aligned)
qed

theorem chunk_scan_correct_witness:
  "valid_slice [97, 98, 10, 99, 10, 100 :: byte] \<and> scan_fits [97, 98, 10, 99, 10, 100] 1 \<and>
   find_chunk_boundaries 0 [97, 98, 10, 99, 10, 100] 1 10 = Ret [(0, 3), (3, 5), (5, 6)] \<and>
   concat (map (subslice [97, 98, 10, 99, 10, 100]) [(0, 3), (3, 5), (5, 6)]) = [97, 98, 10, 99, 10, 100 :: byte]"
proof -
  let ?d = "[97, 98, 10, 99, 10, 100] :: byte list"
  have v: "valid_slice ?d" by (simp add: valid_slice_def max_consts)
  have "find_chunk_boundaries 0 ?d 1 10 = Ret [(0, 3), (3, 5), (5, 6)]"
    by (simp add: find_chunk_boundaries_def vec_with_capacity_def chunk_loop.simps chunk_end_def find_byte_swar_def
        swar_scalar.simps swar_words.simps slen_def as_usize_def sat_add_def max_consts slice_ops)
  with v chunk_scan_correct [OF v, of 1 0 10] show ?thesis by (auto split: if_splits)
qed

text \<open>
  Claim C17: the multi-byte scan panics on an empty delimiter and, like the single-byte scan, when
  its result vector would exceed \<open>isize::MAX\<close> bytes, and in no other case: every slice it takes is
  in range. Otherwise it covers the data like the single-byte scan, every chunk but the last ends
  after the complete delimiter pattern, no complete pattern at or after the requested size is
  skipped, and for a one-byte pattern the result is that of the single-byte scan.
\<close>

theorem pattern_scan_correct:
  assumes "valid_slice data" "valid_slice delimiter"
  shows "(delimiter = [] \<longrightarrow> find_chunk_boundaries_pattern ptr data chunk_size delimiter = Panic empty_delimiter_msg) \<and>
     (delimiter \<noteq> [] \<longrightarrow>
        (\<exists>rs. find_chunk_boundaries_pattern ptr data chunk_size delimiter =
             (if scan_fits data chunk_size then Ret rs else Panic capacity_msg) \<and>
           tiles 0 rs (length data) \<and> concat (map (subslice data) rs) = data \<and> aligned delimiter data rs \<and>
           (\<forall>a b. (a, b) \<in> set rs \<longrightarrow> b = length data \<or> a + max chunk_size 1 \<le> b) \<and>
           (\<forall>a b e. (a, b) \<in> set rs \<and> ends_after delimiter data e \<and> a + max chunk_size 1 + length delimiter \<le> e \<longrightarrow> b \<le> e))) \<and>
     (\<forall>d. delimiter = [d] \<longrightarrow>
        find_chunk_boundaries_pattern ptr data chunk_size delimiter = find_chunk_boundaries ptr data chunk_size d) \<and>
     (length data \<le> 2 ^ 58 \<or> 32 \<le> chunk_size \<longrightarrow> scan_fits data chunk_size)"
proof (cases "delimiter = []")
  case True
  with assms show ?thesis
    by (auto simp: find_chunk_boundaries_pattern_def intro: scan_fits_small scan_fits_large_size)
next
  case False
  let ?rs = "chunks_from delimiter data chunk_size 0"
  have "tiles 0 ?rs (length data)" by (rule chunks_from_tiles) simp
  moreover from this have "concat (map (subslice data) ?rs) = data" by (rule concat_tiles)
  moreover have "aligned delimiter data ?rs" by (rule chunks_from_aligned)
  moreover have "\<forall>a b. (a, b) \<in> set ?rs \<longrightarrow> b = length data \<or> a + max chunk_size 1 \<le> b"
    using chunks_from_long by blast
  moreover have "\<forall>a b e. (a, b) \<in> set ?rs \<and> ends_after delimiter data e \<and> a + max chunk_size 1 + length delimiter \<le> e \<longrightarrow> b \<le> e"
    using chunks_from_least by blast
  moreover have eager: "find_chunk_boundaries_pattern ptr data chunk_size delimiter = scan_result data chunk_size ?rs"
    using assms False by (simp add: find_chunk_boundaries_pattern_spec)
  moreover have "\<forall>d. delimiter = [d] \<longrightarrow> scan_result data chunk_size ?rs = find_chunk_boundaries ptr data chunk_size d"
    using assms(1) by (simp add: find_chunk_boundaries_spec)
  moreover have "length data \<le> 2 ^ 58 \<or> 32 \<le> chunk_size \<longrightarrow> scan_fits data chunk_size"
    using assms(1) by (blast intro: scan_fits_small scan_fits_large_size)
  ultimately show ?thesis using False unfolding eager scan_result_def by blast
qed

theorem pattern_scan_correct_witness:
  "valid_slice [97, 13, 10, 98, 13, 10 :: byte] \<and> valid_slice [13, 10 :: byte] \<and> [13, 10 :: byte] \<noteq> [] \<and>
   (\<exists>rs. find_chunk_boundaries_pattern 0 [97, 13, 10, 98, 13, 10] 18446744073709551615 [13, 10] = Ret rs \<and>
      tiles 0 rs (length [97, 13, 10, 98, 13, 10 :: byte]) \<and> aligned [13, 10 :: byte] [97, 13, 10, 98, 13, 10] rs)"
proof -
  have v: "valid_slice [97, 13, 10, 98, 13, 10 :: byte]" "valid_slice [13, 10 :: byte]"
    by (simp_all add: valid_slice_def max_consts)
  have "scan_fits [97, 13, 10, 98, 13, 10 :: byte] 18446744073709551615" by (simp add: scan_fits_small)
  with v pattern_scan_correct [OF v, of 0 18446744073709551615] show ?thesis by auto
qed

text \<open>
  The eager scans compute the same ranges as the scalar reference loops of the
  differential tests, and those ranges pass the tests' coverage assertion.
\<close>

lemma scan_matches_scalar_oracle:
  assumes "valid_slice data" "valid_slice pattern"
  shows "(\<exists>rs. scalar_single_byte_boundaries data chunk_size delimiter = Ret rs \<and> assert_cover data rs \<and>
        find_chunk_boundaries ptr data chunk_size delimiter = scan_result data chunk_size rs) \<and>
     (pattern \<noteq> [] \<longrightarrow>
        (\<exists>rs. scalar_pattern_boundaries data chunk_size pattern = Ret rs \<and> assert_cover data rs \<and>
           find_chunk_boundaries_pattern ptr data chunk_size pattern = scan_result data chunk_size rs))"
  using assms chunks_from_tiles [of 0 data]
  by (simp add: find_chunk_boundaries_spec find_chunk_boundaries_pattern_spec scalar_single_byte_boundaries_def
      scalar_single_spec scalar_pattern_boundaries_def scalar_pattern_spec assert_cover_iff)

lemma scan_matches_scalar_oracle_witness:
  "valid_slice [97, 98, 10, 99 :: byte] \<and> valid_slice [10 :: byte] \<and>
   find_chunk_boundaries 5 [97, 98, 10, 99] 2 10 = Ret [(0, 3), (3, 4)]"
proof -
  let ?d = "[97, 98, 10, 99] :: byte list"
  have v: "valid_slice ?d" "valid_slice [10 :: byte]" by (simp_all add: valid_slice_def max_consts)
  have "scalar_single_byte_boundaries ?d 2 10 = Ret [(0, 3), (3, 4)]"
    by (simp add: scalar_single_byte_boundaries_def scalar_single_loop.simps scalar_scan.simps
        slen_def as_usize_def sat_add_def max_consts index_at_def)
  moreover have "scan_fits ?d 2" by (simp add: scan_fits_small)
  ultimately show ?thesis using v scan_matches_scalar_oracle [OF v, of 2 10 5] by auto
qed

text \<open>
  Claim C18: a lazy cursor, run to exhaustion, never panics and yields exactly the ranges and the
  bytes of the eager scan (which returns these ranges unless its result vector cannot be
  allocated), for single-byte and multi-byte delimiters; afterwards it is empty, stands at the end
  of the data and keeps returning nothing.
\<close>

theorem cursor_equals_scan:
  assumes "valid_slice data" "valid_slice pattern" "pattern \<noteq> []"
  shows "(\<exists>rs c. find_chunk_boundaries ptr data chunk_size delimiter = scan_result data chunk_size rs \<and>
       cursor_ranges (cursor_new ptr data chunk_size delimiter) = Ret (map (\<lambda>r. (r, subslice data r)) rs, c) \<and>
       concat (map (subslice data) rs) = data \<and>
       cursor_is_empty c \<and> cursor_position c = length data \<and> cursor_next c = Ret (None, c)) \<and>
     (\<exists>c0 rs c. pattern_cursor_new ptr data chunk_size pattern = Ret c0 \<and>
        find_chunk_boundaries_pattern ptr data chunk_size pattern = scan_result data chunk_size rs \<and>
        pattern_cursor_ranges c0 = Ret (map (\<lambda>r. (r, subslice data r)) rs, c) \<and>
        concat (map (subslice data) rs) = data \<and>
        pattern_cursor_is_empty c \<and> pattern_cursor_position c = length data \<and> pattern_cursor_next c = Ret (None, c))"
proof
  note cover = concat_tiles [OF chunks_from_tiles [of 0 data "[delimiter]" chunk_size]]
    concat_tiles [OF chunks_from_tiles [of 0 data pattern chunk_size]]
  show "\<exists>rs c. find_chunk_boundaries ptr data chunk_size delimiter = scan_result data chunk_size rs \<and>
      cursor_ranges (cursor_new ptr data chunk_size delimiter) = Ret (map (\<lambda>r. (r, subslice data r)) rs, c) \<and>
      concat (map (subslice data) rs) = data \<and>
      cursor_is_empty c \<and> cursor_position c = length data \<and> cursor_next c = Ret (None, c)"
    using assms(1) cover(1)
    by (intro exI [of _ "chunks_from [delimiter] data chunk_size 0"]
        exI [of _ "cursor_new ptr data chunk_size delimiter\<lparr>cc_position := length data\<rparr>"])
      (simp add: cursor_ranges_spec cursor_new_def find_chunk_boundaries_spec cursor_is_empty_def
        cursor_position_def cursor_next_spec)
  show "\<exists>c0 rs c. pattern_cursor_new ptr data chunk_size pattern = Ret c0 \<and>
      find_chunk_boundaries_pattern ptr data chunk_size pattern = scan_result data chunk_size rs \<and>
      pattern_cursor_ranges c0 = Ret (map (\<lambda>r. (r, subslice data r)) rs, c) \<and>
      concat (map (subslice data) rs) = data \<and>
      pattern_cursor_is_empty c \<and> pattern_cursor_position c = length data \<and> pattern_cursor_next c = Ret (None, c)"
    using assms cover(2)
    by (intro exI [of _ "\<lparr>pc_ptr = ptr, pc_data = data, pc_chunk_size = chunk_size, pc_delimiter = pattern,
          pc_position = 0\<rparr>"] exI [of _ "chunks_from pattern data chunk_size 0"]
        exI [of _ "\<lparr>pc_ptr = ptr, pc_data = data, pc_chunk_size = chunk_size, pc_delimiter = pattern,
          pc_position = length data\<rparr>"])
      (simp add: pattern_cursor_new_def pattern_cursor_ranges_spec find_chunk_boundaries_pattern_spec
        pattern_cursor_is_empty_def pattern_cursor_next_spec pattern_cursor_position_def)
qed

theorem cursor_equals_scan_witness:
  "valid_slice [97, 13, 10, 98 :: byte] \<and> valid_slice [13, 10 :: byte] \<and> [13, 10 :: byte] \<noteq> [] \<and>
   (\<exists>rs c. cursor_ranges (cursor_new 0 [97, 13, 10, 98] 1 10) = Ret (map (\<lambda>r. (r, subslice [97, 13, 10, 98] r)) rs, c) \<and>
      find_chunk_boundaries 0 [97, 13, 10, 98] 1 10 = Ret rs \<and> concat (map (subslice [97, 13, 10, 98 :: byte]) rs) = [97, 13, 10, 98])"
proof -
  have v: "valid_slice [97, 13, 10, 98 :: byte]" "valid_slice [13, 10 :: byte]" "[13, 10 :: byte] \<noteq> []"
    by (simp_all add: valid_slice_def max_consts)
  have "scan_fits [97, 13, 10, 98 :: byte] 1" by (simp add: scan_fits_small)
  with v cursor_equals_scan [OF v, of 0 1 10] show ?thesis by auto
qed

lemma chunks_from_count:
  assumes "pos \<le> length data"
  shows "(if pos < length data then 1 else 0) \<le> length (chunks_from p data n pos) \<and>
     length (chunks_from p data n pos) \<le> length data - pos"
  using tiles_Nil_iff [OF chunks_from_tiles [OF assms, of p n]] tiles_length [OF chunks_from_tiles [OF assms, of p n]]
  by (auto simp: Suc_le_eq)

text \<open>
  At every position a cursor can have, \<open>size_hint\<close> brackets the number of chunks the cursor still
  yields when it is run to exhaustion.
\<close>

lemma cursor_size_hint_brackets:
  assumes "valid_slice (cc_data c)" "cc_position c \<le> cursor_len c"
    "valid_slice (pc_data pc)" "valid_slice (pc_delimiter pc)" "pc_delimiter pc \<noteq> []" "pc_position pc \<le> pattern_cursor_len pc"
  shows "(\<exists>lower upper items c'. cursor_size_hint c = (lower, Some upper) \<and> cursor_ranges c = Ret (items, c') \<and>
        lower \<le> length items \<and> length items \<le> upper) \<and>
     (\<exists>lower upper items c'. pattern_cursor_size_hint pc = (lower, Some upper) \<and>
        pattern_cursor_ranges pc = Ret (items, c') \<and> lower \<le> length items \<and> length items \<le> upper)"
proof -
  have le: "cc_position c \<le> length (cc_data c)" "pc_position pc \<le> length (pc_data pc)"
    using assms by (simp_all add: cursor_len_def pattern_cursor_len_def)
  show ?thesis
    using assms le chunks_from_count [OF le(1), of "[cc_delimiter c]" "cc_chunk_size c"]
      chunks_from_count [OF le(2), of "pc_delimiter pc" "pc_chunk_size pc"]
    by (auto simp: cursor_size_hint_def pattern_cursor_size_hint_def Let_def cursor_ranges_spec
        pattern_cursor_ranges_spec split: if_splits)
qed

text \<open>
  Claim C22: for every 64-bit file length and chunk size, the saturating fixed-size arithmetic
  equals the 128-bit oracle of the fuzz target; the chunks are exactly those with an index
  below the count, and they tile the file.
\<close>

theorem fixed_layout_correct:
  assumes "file_len \<le> usize_max" "chunk_size \<le> usize_max"
  shows "fixed_chunk_count file_len chunk_size = oracle_count file_len chunk_size \<and>
     fixed_chunk_bounds file_len chunk_size index = oracle_bounds file_len chunk_size index \<and>
     (fixed_chunk_bounds file_len chunk_size index = None \<longleftrightarrow> fixed_chunk_count file_len chunk_size \<le> index) \<and>
     tiles 0 (map (the \<circ> fixed_chunk_bounds file_len chunk_size) [0..<fixed_chunk_count file_len chunk_size]) file_len"
proof -
  let ?m = "max chunk_size 1" and ?k = "fixed_chunk_count file_len chunk_size"
  have lt: "i < ?k \<longleftrightarrow> i * ?m < file_len" for i by (rule fixed_chunk_count_iff)
  have "map (the \<circ> fixed_chunk_bounds file_len chunk_size) [0..<?k] = map (\<lambda>i. (i * ?m, min (Suc i * ?m) file_len)) [0..<?k]"
    using lt by (simp add: fixed_chunk_bounds_exact [OF assms(1)])
  moreover have "min (?k * ?m) file_len = file_len" using lt [of ?k] by simp
  moreover have "(?k - 1) * ?m < file_len \<or> ?k = 0" using lt [of "?k - 1"] by (cases ?k) auto
  ultimately have "tiles 0 (map (the \<circ> fixed_chunk_bounds file_len chunk_size) [0..<?k]) file_len"
    using fixed_tiles_gen [of ?m ?k file_len] by (simp only: max_less_iff_conj)
  then show ?thesis
    using lt [of index] assms by (auto simp: oracle_count_eq oracle_bounds_eq fixed_chunk_bounds_exact not_less)
qed

theorem fixed_layout_correct_witness:
  "(18446744073709551615 :: nat) \<le> usize_max \<and>
   fixed_chunk_count 18446744073709551615 18446744073709551614 = 2 \<and>
   fixed_chunk_bounds 18446744073709551615 18446744073709551614 1 = Some (18446744073709551614, 18446744073709551615) \<and>
   oracle_bounds 18446744073709551615 18446744073709551614 1 = Some (18446744073709551614, 18446744073709551615)"
proof -
  have h: "(18446744073709551615 :: nat) \<le> usize_max" "(18446744073709551614 :: nat) \<le> usize_max"
    by (simp_all add: max_consts)
  have "fixed_chunk_count 18446744073709551615 18446744073709551614 = 2"
    "fixed_chunk_bounds 18446744073709551615 18446744073709551614 1 = Some (18446744073709551614, 18446744073709551615)"
    by (simp_all add: fixed_chunk_count_def fixed_chunk_bounds_def div_ceil_def sat_mul_def sat_add_def max_consts)
  with h fixed_layout_correct [OF h, of 1] show ?thesis by simp
qed

end
