(* ===== verification/Scanner_Partition.thy ===== *)
theory Scanner_Partition
  imports Scanner_Chunks
begin

section \<open>Record-aligned N-way partitioning of a slice\<close>

text \<open>
  \<open>find_partition_boundaries\<close>, \<open>find_partition_boundaries_pattern\<close> and
  \<open>ranges_from_boundaries\<close> of \<open>src/src/scanner.rs\<close>, with the scalar oracles and the invariant
  assertions of the differential tests. All planners of the program, here and in the byte-source
  layer, refine one specification: the accepted record boundaries of an increasing list of
  ideal targets (\<open>plan_cuts\<close>), turned into ranges.
\<close>

subsection \<open>Ideal targets and range assembly\<close>

text \<open>\<open>((file_len as u128) * (i as u128) / (n as u128)) as usize\<close>\<close>

definition partition_target :: "nat \<Rightarrow> nat \<Rightarrow> nat \<Rightarrow> nat" where
  "partition_target file_len i n = as_usize (as_u128 (file_len * i) div n)"

fun ranges_loop :: "nat \<Rightarrow> nat \<Rightarrow> nat list \<Rightarrow> brange list" where
  "ranges_loop file_len prev [] = (if prev < file_len then [(prev, file_len)] else [])"
| "ranges_loop file_len prev (boundary # bs) =
     (if boundary > prev then (prev, boundary) # ranges_loop file_len boundary bs
      else ranges_loop file_len boundary bs)"

definition ranges_from_boundaries :: "nat \<Rightarrow> nat list \<Rightarrow> brange list" where
  "ranges_from_boundaries file_len boundaries = ranges_loop file_len 0 boundaries"

subsection \<open>The single-byte planner\<close>

function partition_loop :: "nat \<Rightarrow> bytes \<Rightarrow> byte \<Rightarrow> nat \<Rightarrow> nat \<Rightarrow> nat \<Rightarrow> nat list run" where
  "partition_loop ptr data delimiter n i last_boundary =
     (if i < n then
        let file_len = slen data;
            target = partition_target file_len i n
        in if target \<le> last_boundary then partition_loop ptr data delimiter n (i + 1) last_boundary
           else rbind (index_at data (target - 1)) (\<lambda>b.
             if b = delimiter then rmap ((#) target) (partition_loop ptr data delimiter n (i + 1) target)
             else rbind (slice_from data target) (\<lambda>remainder.
             rbind (find_byte_swar (ptr + target) remainder delimiter) (\<lambda>found.
               case found of
                 Some rel_pos \<Rightarrow>
                   (let boundary = min (target + rel_pos + 1) file_len
                    in rmap ((#) boundary) (partition_loop ptr data delimiter n (i + 1) boundary))
               | None \<Rightarrow> Ret [file_len])))
      else Ret [])"
  by pat_completeness auto
termination
  by (relation "measure (\<lambda>(ptr, data, d, n, i, last). n - i)") auto

declare partition_loop.simps [simp del]

definition find_partition_boundaries :: "nat \<Rightarrow> bytes \<Rightarrow> nat \<Rightarrow> byte \<Rightarrow> brange list run" where
  "find_partition_boundaries ptr data num_partitions delimiter =
     (let file_len = slen data in
      if file_len = 0 \<or> num_partitions = 0 then Ret []
      else if num_partitions = 1 then Ret [(0, file_len)]
      else
        let n = min num_partitions file_len
        in rmap (ranges_from_boundaries file_len) (partition_loop ptr data delimiter n 1 0))"

subsection \<open>The multi-byte planner\<close>

function partition_pattern_loop :: "nat \<Rightarrow> bytes \<Rightarrow> bytes \<Rightarrow> nat \<Rightarrow> nat \<Rightarrow> nat \<Rightarrow> nat list run" where
  "partition_pattern_loop ptr data delimiter n i last_boundary =
     (if i < n then
        let file_len = slen data;
            dlen = slen delimiter;
            target = partition_target file_len i n
        in if target \<le> last_boundary then partition_pattern_loop ptr data delimiter n (i + 1) last_boundary
           else rbind (if target \<ge> dlen then rmap (\<lambda>w. w = delimiter) (slice_range data (target - dlen) target) else Ret False)
             (\<lambda>exact.
               if exact then rmap ((#) target) (partition_pattern_loop ptr data delimiter n (i + 1) target)
               else rbind (slice_from data target) (\<lambda>remainder.
               rbind (find_pattern_in_slice (ptr + target) remainder delimiter) (\<lambda>found.
                 case found of
                   Some rel_pos \<Rightarrow>
                     (let boundary = min (sat_add (sat_add target rel_pos) dlen) file_len
                      in rmap ((#) boundary) (partition_pattern_loop ptr data delimiter n (i + 1) boundary))
                 | None \<Rightarrow> Ret [file_len])))
      else Ret [])"
  by pat_completeness auto
termination
  by (relation "measure (\<lambda>(ptr, data, d, n, i, last). n - i)") auto

declare partition_pattern_loop.simps [simp del]

definition find_partition_boundaries_pattern :: "nat \<Rightarrow> bytes \<Rightarrow> nat \<Rightarrow> bytes \<Rightarrow> brange list run" where
  "find_partition_boundaries_pattern ptr data num_partitions delimiter =
     (if delimiter = [] then Panic empty_delimiter_msg
      else if slen delimiter = 1 then find_partition_boundaries ptr data num_partitions (delimiter ! 0)
      else
        let file_len = slen data in
        if file_len = 0 \<or> num_partitions = 0 then Ret []
        else if num_partitions = 1 then Ret [(0, file_len)]
        else
          let n = min num_partitions file_len
          in rmap (ranges_from_boundaries file_len) (partition_pattern_loop ptr data delimiter n 1 0))"

subsection \<open>The scalar oracles and invariant checks of the tests\<close>

text \<open>The delimiter scan of \<open>scalar_partition_boundaries\<close>, from a target to the cut.\<close>

function scalar_forward :: "bytes \<Rightarrow> byte \<Rightarrow> nat \<Rightarrow> nat run" where
  "scalar_forward data delimiter pos =
     (if pos < slen data then
        rbind (index_at data pos) (\<lambda>b.
          if b \<noteq> delimiter then scalar_forward data delimiter (pos + 1) else Ret pos)
      else Ret pos)"
  by pat_completeness auto
termination
  by (relation "measure (\<lambda>(data, d, pos). slen data - pos)") auto

declare scalar_forward.simps [simp del]

definition scalar_cut :: "bytes \<Rightarrow> byte \<Rightarrow> nat \<Rightarrow> nat run" where
  "scalar_cut data delimiter target =
     rbind (index_at data (target - 1)) (\<lambda>b.
       if b = delimiter then Ret target
       else rmap (\<lambda>pos. if pos < slen data then pos + 1 else slen data) (scalar_forward data delimiter target))"

function scalar_partition_loop :: "bytes \<Rightarrow> byte \<Rightarrow> nat \<Rightarrow> nat \<Rightarrow> nat \<Rightarrow> nat list run" where
  "scalar_partition_loop data delimiter n i last_cut =
     (if i < n then
        let target = partition_target (slen data) i n
        in if target \<le> last_cut then scalar_partition_loop data delimiter n (i + 1) last_cut
           else rbind (scalar_cut data delimiter target) (\<lambda>cut_at.
                rmap ((#) cut_at)
                  (if cut_at = slen data then Ret [] else scalar_partition_loop data delimiter n (i + 1) cut_at))
      else Ret [])"
  by pat_completeness auto
termination
  by (relation "measure (\<lambda>(data, d, n, i, last). n - i)") auto

declare scalar_partition_loop.simps [simp del]

definition scalar_partition_boundaries :: "bytes \<Rightarrow> nat \<Rightarrow> byte \<Rightarrow> brange list run" where
  "scalar_partition_boundaries data num_partitions delimiter =
     (if data = [] \<or> num_partitions = 0 then Ret []
      else if num_partitions = 1 then Ret [(0, slen data)]
      else
        let n = min num_partitions (slen data)
        in rmap (ranges_loop (slen data) 0) (scalar_partition_loop data delimiter n 1 0))"

text \<open>
  The multi-byte oracle does not cap the request at the file length; its product is computed in
  \<open>usize\<close> and panics on overflow. It compares whole windows.
\<close>

function scalar_window_scan :: "bytes \<Rightarrow> bytes \<Rightarrow> nat \<Rightarrow> nat run" where
  "scalar_window_scan data pattern candidate =
     (if candidate + slen pattern \<le> slen data then
        rbind (slice_range data candidate (candidate + slen pattern)) (\<lambda>w.
          if w = pattern then Ret (candidate + slen pattern)
          else scalar_window_scan data pattern (candidate + 1))
      else Ret (slen data))"
  by pat_completeness auto
termination
  by (relation "measure (\<lambda>(data, p, c). Suc (slen data) - c)") auto

declare scalar_window_scan.simps [simp del]

function scalar_partition_pattern_loop :: "bytes \<Rightarrow> bytes \<Rightarrow> nat \<Rightarrow> nat \<Rightarrow> nat \<Rightarrow> nat list run" where
  "scalar_partition_pattern_loop data pattern n i last_cut =
     (if i < n then
        if slen data * i > usize_max then Panic ''attempt to multiply with overflow''
        else
          let target = slen data * i div n
          in if target \<le> last_cut then scalar_partition_pattern_loop data pattern n (i + 1) last_cut
             else rbind (if target \<ge> slen pattern
                         then rmap (\<lambda>w. w = pattern) (slice_range data (target - slen pattern) target) else Ret False)
               (\<lambda>exact. rbind (if exact then Ret target else scalar_window_scan data pattern target) (\<lambda>cut_at.
                rmap ((#) cut_at)
                  (if cut_at = slen data then Ret [] else scalar_partition_pattern_loop data pattern n (i + 1) cut_at)))
      else Ret [])"
  by pat_completeness auto
termination
  by (relation "measure (\<lambda>(data, d, n, i, last). n - i)") auto

declare scalar_partition_pattern_loop.simps [simp del]

definition scalar_partition_boundaries_pattern :: "bytes \<Rightarrow> nat \<Rightarrow> bytes \<Rightarrow> brange list run" where
  "scalar_partition_boundaries_pattern data num_partitions pattern =
     (if pattern = [] then Panic ''assertion failed: !pattern.is_empty()''
      else if data = [] \<or> num_partitions = 0 then Ret []
      else if num_partitions = 1 then Ret [(0, slen data)]
      else rmap (ranges_loop (slen data) 0) (scalar_partition_pattern_loop data pattern num_partitions 1 0))"

fun partition_inv_loop :: "bytes \<Rightarrow> bytes \<Rightarrow> nat \<Rightarrow> brange list \<Rightarrow> nat option" where
  "partition_inv_loop data pattern previous_end [] = Some previous_end"
| "partition_inv_loop data pattern previous_end ((s, e) # rs) =
     (if s = previous_end \<and> e > s \<and>
         (rs \<noteq> [] \<longrightarrow> e \<ge> slen pattern \<and> take (slen pattern) (drop (e - slen pattern) data) = pattern)
      then partition_inv_loop data pattern e rs else None)"

definition assert_partition_invariants_pattern :: "bytes \<Rightarrow> nat \<Rightarrow> bytes \<Rightarrow> brange list \<Rightarrow> bool" where
  "assert_partition_invariants_pattern data num_partitions pattern partitions =
     (pattern \<noteq> [] \<and>
      (if data = [] \<or> num_partitions = 0 then partitions = []
       else partitions \<noteq> [] \<and> length partitions \<le> num_partitions \<and>
            fst (hd partitions) = 0 \<and> snd (last partitions) = slen data \<and>
            partition_inv_loop data pattern 0 partitions = Some (slen data)))"

fun partition_inv_byte_loop :: "bytes \<Rightarrow> byte \<Rightarrow> nat \<Rightarrow> brange list \<Rightarrow> nat option" where
  "partition_inv_byte_loop data delimiter previous_end [] = Some previous_end"
| "partition_inv_byte_loop data delimiter previous_end ((s, e) # rs) =
     (if s = previous_end \<and> e > s \<and> (rs \<noteq> [] \<longrightarrow> e - 1 < slen data \<and> data ! (e - 1) = delimiter)
      then partition_inv_byte_loop data delimiter e rs else None)"

definition assert_partition_invariants :: "bytes \<Rightarrow> nat \<Rightarrow> byte \<Rightarrow> brange list \<Rightarrow> bool" where
  "assert_partition_invariants data num_partitions delimiter partitions =
     (if data = [] \<or> num_partitions = 0 then partitions = []
      else partitions \<noteq> [] \<and> length partitions \<le> num_partitions \<and>
           fst (hd partitions) = 0 \<and> snd (last partitions) = slen data \<and>
           partition_inv_byte_loop data delimiter 0 partitions = Some (slen data))"

subsection \<open>The planning specification\<close>

fun plan_cuts :: "(nat \<Rightarrow> nat) \<Rightarrow> nat list \<Rightarrow> nat \<Rightarrow> nat list" where
  "plan_cuts cutf [] last_cut = []"
| "plan_cuts cutf (t # ts) last_cut =
     (if t \<le> last_cut then plan_cuts cutf ts last_cut else cutf t # plan_cuts cutf ts (cutf t))"

definition ideal_targets :: "nat \<Rightarrow> nat \<Rightarrow> nat list" where
  "ideal_targets len n = map (\<lambda>i. len * i div n) [1..<n]"

definition plan_spec :: "(nat \<Rightarrow> nat) \<Rightarrow> nat \<Rightarrow> nat \<Rightarrow> brange list" where
  "plan_spec cutf len n = (if n = 0 \<or> len = 0 then [] else ranges_loop len 0 (plan_cuts cutf (ideal_targets len n) 0))"

lemma plan_cuts_done: "(\<And>t. t \<in> set ts \<Longrightarrow> t \<le> l) \<Longrightarrow> plan_cuts cutf ts l = []"
  by (induction ts) auto

text \<open>
  The interface of a boundary oracle: it moves a target forward, never past the end, to the
  end or to a boundary.
\<close>

locale boundary_oracle =
  fixes cutf :: "nat \<Rightarrow> nat" and len :: nat and is_boundary :: "nat \<Rightarrow> bool"
  assumes cut_ge: "t \<le> len \<Longrightarrow> t \<le> cutf t"
    and cut_le: "cutf t \<le> len"
    and cut_boundary: "cutf t = len \<or> is_boundary (cutf t)"
begin

lemma cuts_ranges_tile:
  "(\<forall>t\<in>set ts. t \<le> len) \<Longrightarrow> l \<le> len \<Longrightarrow> tiles l (ranges_loop len l (plan_cuts cutf ts l)) len"
proof (induction ts arbitrary: l)
  case (Cons t ts)
  then show ?case using cut_ge [of t] cut_le [of t] by simp
qed simp

lemma cuts_bounds:
  "(\<forall>t\<in>set ts. t \<le> len) \<Longrightarrow> b \<in> set (plan_cuts cutf ts l) \<Longrightarrow>
     l < b \<and> b \<le> len \<and> (\<exists>t\<in>set ts. b = cutf t \<and> t \<le> b)"
proof (induction ts arbitrary: l)
  case (Cons t ts)
  show ?case
  proof (cases "t \<le> l \<or> b \<noteq> cutf t")
    case True
    with Cons cut_ge [of t] show ?thesis by (fastforce split: if_splits)
  next
    case False
    with Cons.prems cut_ge [of t] cut_le [of t] show ?thesis by auto
  qed
qed simp

lemma ranges_loop_ends: "(a, b) \<in> set (ranges_loop len l bs) \<Longrightarrow> b = len \<or> b \<in> set bs"
  by (induction len l bs rule: ranges_loop.induct) (auto split: if_splits)

lemma cuts_ranges_boundary:
  assumes "\<forall>t\<in>set ts. t \<le> len" "(a, b) \<in> set (ranges_loop len l (plan_cuts cutf ts l))"
  shows "b = len \<or> is_boundary b"
proof -
  consider "b = len" | "b \<in> set (plan_cuts cutf ts l)" using assms(2) ranges_loop_ends by blast
  then show ?thesis using cuts_bounds [OF assms(1)] cut_boundary by cases metis+
qed

lemma ranges_loop_count: "length (ranges_loop len l bs) \<le> Suc (length bs)"
  by (induction len l bs rule: ranges_loop.induct) auto

lemma plan_cuts_count: "length (plan_cuts cutf ts l) \<le> length ts"
  by (induction ts arbitrary: l) (auto simp: le_SucI)

lemma plan_cuts_dup:
  assumes "\<forall>t\<in>set (t # ts). t \<le> len"
  shows "plan_cuts cutf (t # t # ts) l = plan_cuts cutf (t # ts) l"
  using assms cut_ge [of t] by simp

lemma plan_cuts_remdups_adj:
  "(\<forall>t\<in>set ts. t \<le> len) \<Longrightarrow> plan_cuts cutf (remdups_adj ts) l = plan_cuts cutf ts l"
proof (induction ts arbitrary: l rule: remdups_adj.induct)
  case (3 x y xs)
  show ?case
  proof (cases "x = y")
    case True
    with 3 show ?thesis using plan_cuts_dup [of y xs l] by simp
  next
    case False
    with 3 show ?thesis by simp
  qed
qed simp_all

lemma ideal_targets_le: "t \<in> set (ideal_targets len n) \<Longrightarrow> t \<le> len"
  unfolding ideal_targets_def by (auto simp: div_le_mono) (metis less_imp_le_nat mult_le_mono2 div_mult_self_is_m div_le_mono gr_implies_not_zero neq0_conv)

lemma plan_spec_tiles: "0 < n \<Longrightarrow> tiles 0 (plan_spec cutf len n) len"
  using cuts_ranges_tile [of "ideal_targets len n" 0] ideal_targets_le by (auto simp: plan_spec_def)

lemma plan_spec_boundary: "(a, b) \<in> set (plan_spec cutf len n) \<Longrightarrow> b = len \<or> is_boundary b"
  using cuts_ranges_boundary [of "ideal_targets len n"] ideal_targets_le by (auto simp: plan_spec_def split: if_splits)

lemma plan_spec_count: "length (plan_spec cutf len n) \<le> n"
proof -
  have "length (ranges_loop len 0 (plan_cuts cutf (ideal_targets len n) 0)) \<le> Suc (length (ideal_targets len n))"
    using ranges_loop_count plan_cuts_count order_trans Suc_le_mono by metis
  then show ?thesis by (auto simp: plan_spec_def ideal_targets_def)
qed

lemma plan_spec_near:
  "(a, b) \<in> set (plan_spec cutf len n) \<Longrightarrow> b \<noteq> len \<Longrightarrow> \<exists>i. 0 < i \<and> i < n \<and> b = cutf (len * i div n)"
proof -
  assume ab: "(a, b) \<in> set (plan_spec cutf len n)" and ne: "b \<noteq> len"
  then have "b \<in> set (plan_cuts cutf (ideal_targets len n) 0)"
    using ranges_loop_ends [of a b 0] by (auto simp: plan_spec_def split: if_splits)
  then obtain t where "t \<in> set (ideal_targets len n)" "b = cutf t"
    using cuts_bounds ideal_targets_le by meson
  then show ?thesis by (auto simp: ideal_targets_def Suc_le_eq)
qed

end

interpretation rec: boundary_oracle "record_cut p xs" "length xs" "ends_after p xs" for p xs :: bytes
  by unfold_locales (simp_all add: record_cut_ge record_cut_le record_cut_boundary)

subsection \<open>The 128-bit target arithmetic is exact\<close>

lemma target_less: "i < n \<Longrightarrow> 0 < len \<Longrightarrow> len * i div n < (len :: nat)"
  by (metis div_less_iff_less_mult gr_implies_not_zero mult_less_cancel1 neq0_conv)

lemma partition_target_exact:
  assumes "i < n" "0 < len" "len \<le> usize_max" "n \<le> len"
  shows "partition_target len i n = len * i div n"
proof -
  have "len * i \<le> usize_max * usize_max" using assms by (intro mult_le_mono) auto
  also have "\<dots> < 2 ^ 128" by (simp add: max_consts)
  finally have "as_u128 (len * i) = len * i" by (simp add: as_u128_def)
  moreover have "len * i div n \<le> usize_max" using target_less [of i n len] assms by simp
  ultimately show ?thesis by (simp add: partition_target_def)
qed

subsection \<open>The planners refine the specification\<close>

lemma targets_unfold:
  "i < n \<Longrightarrow> map (\<lambda>j. len * j div n) [i..<n] = len * i div n # map (\<lambda>j. len * j div n) [Suc i..<n]"
  for len :: nat
  by (simp add: upt_conv_Cons)

lemma record_cut_found:
  "t \<le> length xs \<Longrightarrow> \<not> ends_after p xs t \<Longrightarrow> first_occ p (drop t xs) = Some r \<Longrightarrow> p \<noteq> [] \<Longrightarrow>
     record_cut p xs t = t + r + length p"
  by (auto simp: record_cut_def next_cut_def dest: first_occ_bound)

lemma record_cut_none:
  "\<not> ends_after p xs t \<Longrightarrow> first_occ p (drop t xs) = None \<Longrightarrow> record_cut p xs t = length xs"
  by (simp add: record_cut_def next_cut_def)

lemma later_targets_done:
  assumes "0 < len"
  shows "plan_cuts cutf (map (\<lambda>j. len * j div n) [i..<n]) len = []"
  using assms by (intro plan_cuts_done) (auto intro!: less_imp_le [OF target_less])

lemma partition_loop_spec:
  assumes "valid_slice data" "data \<noteq> []" "n \<le> length data" "0 < i"
  shows "partition_loop ptr data d n i l =
     Ret (plan_cuts (record_cut [d] data) (map (\<lambda>j. length data * j div n) [i..<n]) l)"
  using assms(4)
proof (induction "n - i" arbitrary: i l rule: less_induct)
  case less
  let ?L = "length data" and ?cut = "record_cut [d] data"
  show ?case
  proof (cases "i < n")
    case False
    then show ?thesis by (subst partition_loop.simps) simp
  next
    case True
    define t where "t = ?L * i div n"
    have t: "partition_target (slen data) i n = t" "t < ?L"
      using True assms valid_slice_usize [OF assms(1)]
      by (simp_all add: t_def partition_target_exact target_less)
    have IH: "partition_loop ptr data d n (i + 1) l' =
        Ret (plan_cuts ?cut (map (\<lambda>j. ?L * j div n) [Suc i..<n]) l')" for l'
      using less.hyps [of "i + 1" l'] True by simp
    note upt = targets_unfold [OF True, of ?L, folded t_def]
    note unfold = partition_loop.simps [of ptr data d n i l]
    consider (skip) "t \<le> l" | (exact) "l < t" "data ! (t - 1) = d"
      | (search) "l < t" "data ! (t - 1) \<noteq> d" by linarith
    then show ?thesis
    proof cases
      case skip
      then show ?thesis using True IH t by (simp add: unfold upt Let_def)
    next
      case exact
      then have "?cut t = t" using t by (simp add: record_cut_def ends_after_single)
      then show ?thesis using exact True IH t by (simp add: unfold upt Let_def slice_ops)
    next
      case search
      then have nb: "\<not> ends_after [d] data t" by (simp add: ends_after_single)
      have occ: "find_byte_swar (ptr + t) (drop t data) d = Ret (first_occ [d] (drop t data))"
        using assms(1) by (simp add: find_byte_swar_position first_occ_single)
      show ?thesis
      proof (cases "first_occ [d] (drop t data)")
        case None
        then have "?cut t = ?L" using nb by (simp add: record_cut_none)
        then show ?thesis
          using None search True t occ assms later_targets_done [of ?L ?cut n "Suc i"]
          by (simp add: unfold upt Let_def slice_ops)
      next
        case (Some r)
        then have "?cut t = t + r + 1" "t + r + 1 \<le> ?L"
          using nb t record_cut_found [of t data "[d]" r] first_occ_bound [OF Some] by simp_all
        then show ?thesis
          using Some search True IH t occ assms(1) by (simp add: unfold upt Let_def slice_ops)
      qed
    qed
  qed
qed

lemma plan_spec_one: "0 < len \<Longrightarrow> plan_spec cutf len (Suc 0) = [(0, len)]"
  by (simp add: plan_spec_def ideal_targets_def)

lemma find_partition_boundaries_spec:
  assumes "valid_slice data"
  shows "find_partition_boundaries ptr data n d =
     Ret (plan_spec (record_cut [d] data) (length data) (min n (length data)))"
proof -
  consider "data = [] \<or> n = 0" | "data \<noteq> []" "n = 1" | "data \<noteq> []" "n > 1" by linarith
  then show ?thesis
  proof cases
    case 1
    with assms show ?thesis by (auto simp: find_partition_boundaries_def plan_spec_def)
  next
    case 2
    then have "min n (length data) = Suc 0" by (simp add: Suc_leI min_def)
    with 2 assms show ?thesis by (simp add: find_partition_boundaries_def plan_spec_one)
  next
    case 3
    with assms partition_loop_spec [of data "min n (length data)" 1 ptr d 0] show ?thesis
      by (simp add: find_partition_boundaries_def plan_spec_def ideal_targets_def
          ranges_from_boundaries_def Let_def)
  qed
qed

lemma exact_target_check:
  assumes "t \<le> length data"
  shows "(if t \<ge> length p then rmap (\<lambda>w. w = p) (slice_range data (t - length p) t) else Ret False) =
     Ret (ends_after p data t)"
  using assms by (auto simp: slice_ops ends_after_def starts_with_def)

lemma partition_pattern_loop_spec:
  assumes "valid_slice data" "data \<noteq> []" "valid_slice p" "p \<noteq> []" "n \<le> length data" "0 < i"
  shows "partition_pattern_loop ptr data p n i l =
     Ret (plan_cuts (record_cut p data) (map (\<lambda>j. length data * j div n) [i..<n]) l)"
  using assms(6)
proof (induction "n - i" arbitrary: i l rule: less_induct)
  case less
  let ?L = "length data" and ?cut = "record_cut p data"
  show ?case
  proof (cases "i < n")
    case False
    then show ?thesis by (subst partition_pattern_loop.simps) simp
  next
    case True
    define t where "t = ?L * i div n"
    have t: "partition_target (slen data) i n = t" "t < ?L"
      using True assms valid_slice_usize [OF assms(1)]
      by (simp_all add: t_def partition_target_exact target_less)
    have IH: "partition_pattern_loop ptr data p n (i + 1) l' =
        Ret (plan_cuts ?cut (map (\<lambda>j. ?L * j div n) [Suc i..<n]) l')" for l'
      using less.hyps [of "i + 1" l'] True by simp
    note upt = targets_unfold [OF True, of ?L, folded t_def]
    have chk: "(if slen p \<le> t then rmap (\<lambda>w. w = p) (slice_range data (t - slen p) t) else Ret False) =
        Ret (ends_after p data t)"
      using exact_target_check [OF less_imp_le [OF t(2)], of p] by (simp only: slen_valid [OF assms(3)])
    note unfold = partition_pattern_loop.simps [of ptr data p n i l]
    consider (skip) "t \<le> l" | (exact) "l < t" "ends_after p data t"
      | (search) "l < t" "\<not> ends_after p data t" by linarith
    then show ?thesis
    proof cases
      case skip
      then show ?thesis using True IH t by (simp add: unfold upt Let_def)
    next
      case exact
      then have "?cut t = t" by (simp add: record_cut_def)
      then show ?thesis using exact True IH t unfolding unfold Let_def t(1) chk
        by (simp add: upt)
    next
      case search
      have occ: "find_pattern_in_slice (ptr + t) (drop t data) p = Ret (first_occ p (drop t data))"
        using assms by (simp add: find_pattern_in_slice_first_occ)
      show ?thesis
      proof (cases "first_occ p (drop t data)")
        case None
        then have "?cut t = ?L" using search by (simp add: record_cut_none)
        then show ?thesis
          using None search True t occ assms later_targets_done [of ?L ?cut n "Suc i"]
          unfolding unfold Let_def t(1) chk by (simp add: upt slice_from_def)
      next
        case (Some r)
        then have c: "?cut t = t + r + length p" "t + r + length p \<le> ?L"
          using search t assms(4) record_cut_found [of t data p r] first_occ_bound [OF Some] by simp_all
        then have "min (sat_add (sat_add t r) (slen p)) (slen data) = t + r + length p"
          using assms valid_slice_usize [OF assms(1)] by (simp add: sat_add_exact)
        then show ?thesis
          using Some c search True IH t occ
          unfolding unfold Let_def t(1) chk by (simp add: upt slice_from_def)
      qed
    qed
  qed
qed

lemma find_partition_boundaries_pattern_spec:
  assumes "valid_slice data" "valid_slice p" "p \<noteq> []"
  shows "find_partition_boundaries_pattern ptr data n p =
     Ret (plan_spec (record_cut p data) (length data) (min n (length data)))"
proof -
  consider (one) "length p = 1" | (none) "length p > 1" "data = [] \<or> n = 0"
    | (single) "length p > 1" "data \<noteq> []" "n = 1" | (many) "length p > 1" "data \<noteq> []" "n > 1"
    using assms(3) by (cases p) force+
  then show ?thesis
  proof cases
    case one
    then obtain d where "p = [d]" by (cases p) auto
    with assms show ?thesis by (simp add: find_partition_boundaries_pattern_def find_partition_boundaries_spec)
  next
    case none
    with assms show ?thesis by (auto simp: find_partition_boundaries_pattern_def plan_spec_def)
  next
    case single
    then have "min n (length data) = Suc 0" by (simp add: Suc_leI min_def)
    with single assms show ?thesis by (simp add: find_partition_boundaries_pattern_def plan_spec_one)
  next
    case many
    with assms partition_pattern_loop_spec [of data p "min n (length data)" 1 ptr 0] show ?thesis
      by (simp add: find_partition_boundaries_pattern_def plan_spec_def ideal_targets_def
          ranges_from_boundaries_def Let_def)
  qed
qed

subsection \<open>Requests above the file length\<close>

text \<open>
  The comment in \<open>find_partition_boundaries\<close>: for a request above the file length, the
  absolute-target algorithm visits the same useful targets as a request of exactly the file
  length, so capping the request changes nothing.
\<close>

lemma sorted_ideal_targets: "sorted (ideal_targets len n)"
  unfolding ideal_targets_def sorted_wrt_map
  by (rule sorted_wrt_mono_rel [OF _ sorted_upt]) (simp add: div_le_mono)

lemma ideal_targets_above:
  assumes "0 < len" "len < n"
  shows "set (ideal_targets len n) = {0..<len}"
proof
  show "set (ideal_targets len n) \<subseteq> {0..<len}"
    using assms(1) by (auto simp: ideal_targets_def intro: target_less)
  show "{0..<len} \<subseteq> set (ideal_targets len n)"
  proof
    fix v
    assume "v \<in> {0..<len}"
    then have v: "v < len" by simp
    show "v \<in> set (ideal_targets len n)"
    proof (cases "v = 0")
      case True
      then have "v = len * 1 div n" using assms by simp
      moreover have "1 \<in> set [1..<n]" using assms by simp
      ultimately show ?thesis unfolding ideal_targets_def set_map by blast
    next
      case False
      define i where "i = div_ceil (v * n) len"
      have lo: "v * n \<le> i * len" and hi: "(i - 1) * len < v * n" and "0 < i"
        using less_div_ceil_iff [of len i "v * n"] less_div_ceil_iff [of len "i - 1" "v * n"]
          less_div_ceil_iff [of len 0 "v * n"] assms False by (auto simp: i_def not_less)
      have "i * len < (v + 1) * n" using hi \<open>0 < i\<close> assms(2) by (cases i) auto
      then have eq: "len * i div n = v"
        using lo by (intro div_nat_eqI) (simp_all add: mult.commute)
      have "i * len < len * n"
      proof -
        have "(v + 1) * n \<le> len * n" using v by (intro mult_le_mono) auto
        then show ?thesis using \<open>i * len < (v + 1) * n\<close> by linarith
      qed
      then have "i < n" using assms(1) by (simp add: mult.commute)
      with eq \<open>0 < i\<close> show ?thesis by (auto simp: ideal_targets_def image_iff intro!: bexI [of _ i])
    qed
  qed
qed

lemma distinct_remdups_adj_sorted: "sorted xs \<Longrightarrow> distinct (remdups_adj (xs :: nat list))"
  by (induction xs rule: remdups_adj.induct) (auto simp: le_less)

context boundary_oracle
begin

lemma plan_spec_cap: "plan_spec cutf len n = plan_spec cutf len (min n len)"
proof (cases "0 < len \<and> len < n")
  case True
  have "remdups_adj (ideal_targets len n) = [0..<len]"
    using True sorted_ideal_targets ideal_targets_above
    by (intro sorted_distinct_set_unique) (auto simp: sorted_remdups_adj distinct_remdups_adj_sorted)
  then have "plan_cuts cutf (ideal_targets len n) 0 = plan_cuts cutf [0..<len] 0"
    using plan_cuts_remdups_adj [of "ideal_targets len n" 0] ideal_targets_le by auto
  also have "\<dots> = plan_cuts cutf (ideal_targets len len) 0"
    using True by (simp add: ideal_targets_def upt_conv_Cons)
  finally show ?thesis using True by (simp add: plan_spec_def min_def)
next
  case False
  then show ?thesis by (auto simp: plan_spec_def min_def)
qed

end

subsection \<open>The scalar oracles\<close>

lemma next_cut_end: "next_cut p xs (length xs) = length xs"
  using next_cut_le [of p xs "length xs"] by (auto simp: next_cut_def split: option.split)

lemma scalar_forward_next_cut:
  "valid_slice data \<Longrightarrow> t \<le> length data \<Longrightarrow>
     \<exists>pos. scalar_forward data d t = Ret pos \<and> t \<le> pos \<and> pos \<le> length data \<and>
       next_cut [d] data t = (if pos < length data then pos + 1 else length data)"
proof (induction data d t rule: scalar_forward.induct)
  case (1 data d t)
  consider (step) "t < length data" "data ! t \<noteq> d" | (hit) "t < length data" "data ! t = d" | (fin) "t = length data"
    using "1.prems"(2) by linarith
  then show ?case
  proof cases
    case step
    have t: "t < slen data" "index_at data t = Ret (data ! t)"
      using step(1) "1.prems"(1) by (simp_all add: index_at_def)
    obtain pos where "scalar_forward data d (t + 1) = Ret pos" "t + 1 \<le> pos" "pos \<le> length data"
      "next_cut [d] data (t + 1) = (if pos < length data then pos + 1 else length data)"
      using "1.IH" [OF t step(2) "1.prems"(1)] step(1) by (metis Suc_eq_plus1 Suc_leI)
    with step "1.prems" show ?thesis
      by (subst scalar_forward.simps) (simp add: index_at_def next_cut_single_step)
  next
    case hit
    with "1.prems" show ?thesis by (subst scalar_forward.simps) (simp add: index_at_def next_cut_single_step)
  next
    case fin
    with "1.prems" show ?thesis by (subst scalar_forward.simps) (simp add: next_cut_end)
  qed
qed

lemma scalar_cut_record_cut:
  assumes "valid_slice data" "0 < t" "t < length data"
  shows "scalar_cut data d t = Ret (record_cut [d] data t)"
proof -
  obtain pos where pos: "scalar_forward data d t = Ret pos"
    "next_cut [d] data t = (if pos < length data then pos + 1 else length data)"
    using scalar_forward_next_cut [OF assms(1) less_imp_le [OF assms(3)], of d] by metis
  have "index_at data (t - 1) = Ret (data ! (t - 1))" "ends_after [d] data t \<longleftrightarrow> data ! (t - 1) = d"
    using assms by (simp_all add: index_at_def ends_after_single)
  with pos assms(1) show ?thesis by (simp add: scalar_cut_def record_cut_def)
qed

lemma scalar_window_scan_next_cut:
  "valid_slice data \<Longrightarrow> valid_slice p \<Longrightarrow> p \<noteq> [] \<Longrightarrow> scalar_window_scan data p c = Ret (next_cut p data c)"
proof (induction data p c rule: scalar_window_scan.induct)
  case (1 data p c)
  show ?case
  proof (cases "c + length p \<le> length data")
    case True
    moreover have "c < length data" using True "1.prems" by (cases p) auto
    ultimately show ?thesis
      using 1 by (subst scalar_window_scan.simps) (auto simp: next_cut_step slice_range_def starts_with_def)
  next
    case False
    with "1.prems" show ?thesis by (subst scalar_window_scan.simps) (simp add: next_cut_short)
  qed
qed

lemma scalar_partition_loop_spec:
  assumes "valid_slice data" "data \<noteq> []" "n \<le> length data" "0 < i"
  shows "scalar_partition_loop data d n i l =
     Ret (plan_cuts (record_cut [d] data) (map (\<lambda>j. length data * j div n) [i..<n]) l)"
  using assms(4)
proof (induction "n - i" arbitrary: i l rule: less_induct)
  case less
  let ?L = "length data" and ?cut = "record_cut [d] data"
  show ?case
  proof (cases "i < n")
    case False
    then show ?thesis by (subst scalar_partition_loop.simps) simp
  next
    case True
    define t where "t = ?L * i div n"
    have t: "partition_target (slen data) i n = t" "t < ?L"
      using True assms valid_slice_usize [OF assms(1)]
      by (simp_all add: t_def partition_target_exact target_less)
    have IH: "scalar_partition_loop data d n (i + 1) l' =
        Ret (plan_cuts ?cut (map (\<lambda>j. ?L * j div n) [Suc i..<n]) l')" for l'
      using less.hyps [of "i + 1" l'] True by simp
    with targets_unfold [OF True, of ?L, folded t_def] True IH t assms later_targets_done [of ?L ?cut n "Suc i"] show ?thesis
      by (subst scalar_partition_loop.simps) (auto simp: Let_def scalar_cut_record_cut)
  qed
qed

lemma scalar_partition_pattern_loop_spec:
  assumes "valid_slice data" "data \<noteq> []" "valid_slice p" "p \<noteq> []" "length data * n \<le> usize_max" "0 < i"
  shows "scalar_partition_pattern_loop data p n i l =
     Ret (plan_cuts (record_cut p data) (map (\<lambda>j. length data * j div n) [i..<n]) l)"
  using assms(6)
proof (induction "n - i" arbitrary: i l rule: less_induct)
  case less
  let ?L = "length data" and ?cut = "record_cut p data"
  show ?case
  proof (cases "i < n")
    case False
    then show ?thesis by (subst scalar_partition_pattern_loop.simps) simp
  next
    case True
    define t where "t = ?L * i div n"
    have t: "t < ?L" using True assms(2) by (simp add: t_def target_less)
    have no_ov: "\<not> usize_max < ?L * i"
    proof -
      have "?L * i \<le> ?L * n" using True by (intro mult_le_mono2) simp
      with assms(5) show ?thesis by linarith
    qed
    have IH: "scalar_partition_pattern_loop data p n (i + 1) l' =
        Ret (plan_cuts ?cut (map (\<lambda>j. ?L * j div n) [Suc i..<n]) l')" for l'
      using less.hyps [of "i + 1" l'] True by simp
    note upt = targets_unfold [OF True, of ?L, folded t_def]
    have chk: "(if slen p \<le> t then rmap (\<lambda>w. w = p) (slice_range data (t - slen p) t) else Ret False) =
        Ret (ends_after p data t)"
      using exact_target_check [OF less_imp_le [OF t], of p] by (simp only: slen_valid [OF assms(3)])
    have "scalar_partition_pattern_loop data p n i l =
        (if t \<le> l then scalar_partition_pattern_loop data p n (i + 1) l
         else rmap ((#) (?cut t)) (if ?cut t = ?L then Ret [] else scalar_partition_pattern_loop data p n (i + 1) (?cut t)))"
      using True no_ov assms(1,3,4) t
      unfolding scalar_partition_pattern_loop.simps [of data p n i l] Let_def slen_valid [OF assms(1)] t_def [symmetric] chk
      by (simp add: scalar_window_scan_next_cut record_cut_def)
    with IH upt assms(2) later_targets_done [of ?L ?cut n "Suc i"] show ?thesis by simp
  qed
qed

subsection \<open>The invariant checks\<close>

lemma tiles_nonempty_less: "tiles s rs e \<Longrightarrow> rs \<noteq> [] \<Longrightarrow> s < e"
  using tiles_le by (cases rs) fastforce+

lemma partition_inv_loop_tiles:
  "valid_slice p \<Longrightarrow> tiles s rs (length data) \<Longrightarrow> aligned p data rs \<Longrightarrow> partition_inv_loop data p s rs = Some (length data)"
proof (induction data p s rs rule: partition_inv_loop.induct)
  case (2 data p s' s e rs)
  have "rs \<noteq> [] \<Longrightarrow> e < length data" using "2.prems"(2) by (intro tiles_nonempty_less) auto
  then have "rs \<noteq> [] \<Longrightarrow> ends_after p data e" using "2.prems"(3) by (auto simp: aligned_def)
  with 2 show ?case by (auto simp: aligned_def ends_after_def starts_with_def)
qed simp

lemma partition_inv_byte_loop_tiles:
  "valid_slice data \<Longrightarrow> tiles s rs (length data) \<Longrightarrow> aligned [d] data rs \<Longrightarrow> partition_inv_byte_loop data d s rs = Some (length data)"
proof (induction data d s rs rule: partition_inv_byte_loop.induct)
  case (2 data d s' s e rs)
  have "rs \<noteq> [] \<Longrightarrow> e < length data" using "2.prems"(2) by (intro tiles_nonempty_less) auto
  then have "rs \<noteq> [] \<Longrightarrow> ends_after [d] data e" using "2.prems"(3) by (auto simp: aligned_def)
  with 2 show ?case by (auto simp: aligned_def ends_after_single)
qed simp

lemma tiles_distinct_ends: "tiles s rs e \<Longrightarrow> distinct (map snd rs)"
  by (induction s rs e rule: tiles.induct) (auto dest: tiles_mem)

lemma plan_spec_aligned: "aligned p (data :: bytes) (plan_spec (record_cut p data) (length data) n)"
  using rec.plan_spec_boundary [of _ _ p data n] by (force simp: aligned_def)


lemma tiles_hd_last: "tiles s rs e \<Longrightarrow> rs \<noteq> [] \<Longrightarrow> fst (hd rs) = s \<and> snd (last rs) = e"
  by (induction s rs e rule: tiles.induct) auto

lemma inner_boundary_near_target:
  assumes "p \<noteq> []" "(a, b) \<in> set (plan_spec (record_cut p data) (length data) n)" "b \<noteq> length data"
  shows "\<exists>i. 0 < i \<and> i < n \<and> (let target = length data * i div n in target \<le> b \<and>
      (\<forall>e. ends_after p (data :: bytes) e \<and> (e = target \<or> target + length p \<le> e) \<longrightarrow> b \<le> e))"
proof -
  obtain i where i: "0 < i" "i < n" "b = record_cut p data (length data * i div n)"
    using rec.plan_spec_near [OF assms(2,3)] by blast
  have "length data * i div n \<le> length data"
    using i(2) by (cases "data = []") (auto intro: less_imp_le target_less)
  then have "length data * i div n \<le> b" using i(3) by (simp add: record_cut_ge)
  moreover have "b \<le> e" if "ends_after p data e" "e = length data * i div n \<or> length data * i div n + length p \<le> e" for e
    using that i(3) next_cut_least [of p data e "length data * i div n"] assms(1)
    by (auto simp: record_cut_def)
  ultimately show ?thesis using i(1,2) unfolding Let_def by blast
qed

lemma plan_spec_invariants:
  assumes "valid_slice data" "p \<noteq> []" "valid_slice p" "n \<le> length data"
  shows "assert_partition_invariants_pattern data n p (plan_spec (record_cut p data) (length data) n)"
proof (cases "n = 0 \<or> data = []")
  case True
  then show ?thesis using assms(2) by (auto simp: assert_partition_invariants_pattern_def plan_spec_def)
next
  case False
  let ?rs = "plan_spec (record_cut p data) (length data) n"
  have t: "tiles 0 ?rs (length data)" using False rec.plan_spec_tiles by simp
  then have "?rs \<noteq> []" using False tiles_Nil_iff [OF t] by simp
  then show ?thesis
    using False assms t tiles_hd_last [OF t] rec.plan_spec_count [of p data n]
      partition_inv_loop_tiles [OF assms(3) t plan_spec_aligned]
    by (simp add: assert_partition_invariants_pattern_def)
qed

lemma plan_spec_invariants_byte:
  assumes "valid_slice data" "n \<le> length data"
  shows "assert_partition_invariants data n d (plan_spec (record_cut [d] data) (length data) n)"
proof (cases "n = 0 \<or> data = []")
  case True
  then show ?thesis by (auto simp: assert_partition_invariants_def plan_spec_def)
next
  case False
  let ?rs = "plan_spec (record_cut [d] data) (length data) n"
  have t: "tiles 0 ?rs (length data)" using False rec.plan_spec_tiles by simp
  then have "?rs \<noteq> []" using False tiles_Nil_iff [OF t] by simp
  then show ?thesis
    using False assms t tiles_hd_last [OF t] rec.plan_spec_count [of "[d]" data n]
      partition_inv_byte_loop_tiles [OF assms(1) t plan_spec_aligned]
    by (simp add: assert_partition_invariants_def)
qed

text \<open>The larger request count only weakens the check of the number of ranges.\<close>

lemma invariants_mono:
  "assert_partition_invariants_pattern data (min n (length data)) p rs \<Longrightarrow> assert_partition_invariants_pattern data n p rs"
  "assert_partition_invariants data (min n (length data)) d rs \<Longrightarrow> assert_partition_invariants data n d rs"
  by (auto simp: assert_partition_invariants_pattern_def assert_partition_invariants_def split: if_splits)

lemma request_cases:
  obtains "data = [] \<or> n = 0" | "data \<noteq> []" "n = 1" | (many) "data \<noteq> []" "n > (1 :: nat)"
  by linarith

lemma find_partition_scalar:
  assumes "valid_slice data"
  shows "find_partition_boundaries ptr data n d = scalar_partition_boundaries data n d"
proof (cases data n rule: request_cases)
  case many
  then have "scalar_partition_loop data d (min n (length data)) 1 0 =
      Ret (plan_cuts (record_cut [d] data) (ideal_targets (length data) (min n (length data))) 0)"
    using scalar_partition_loop_spec [OF assms many(1), of "min n (length data)" 1 d 0]
    by (simp add: ideal_targets_def)
  then show ?thesis using many assms
    by (auto simp: find_partition_boundaries_spec scalar_partition_boundaries_def plan_spec_def Let_def min_def)
qed (use assms in \<open>auto simp: scalar_partition_boundaries_def find_partition_boundaries_def\<close>)

lemma find_partition_pattern_scalar:
  assumes "valid_slice data" "valid_slice p" "p \<noteq> []" "length data * n \<le> usize_max"
  shows "find_partition_boundaries_pattern ptr data n p = scalar_partition_boundaries_pattern data n p"
proof (cases data n rule: request_cases)
  case many
  then have "scalar_partition_pattern_loop data p n 1 0 =
      Ret (plan_cuts (record_cut p data) (ideal_targets (length data) n) 0)"
    using scalar_partition_pattern_loop_spec [OF assms(1) many(1) assms(2,3,4), of 1 0]
    by (simp add: ideal_targets_def)
  with many assms rec.plan_spec_cap [of p data n] show ?thesis
    by (simp add: find_partition_boundaries_pattern_spec scalar_partition_boundaries_pattern_def plan_spec_def)
qed (use assms in \<open>auto simp: find_partition_boundaries_pattern_spec scalar_partition_boundaries_pattern_def
      plan_spec_def ideal_targets_def min_def\<close>)

subsection \<open>Single-byte plans have exactly the boundaries of the targets\<close>

text \<open>
  For a one-byte delimiter a target that an earlier cut has already passed has the same cut, so
  skipping it loses nothing.
\<close>

lemma record_cut_byte_stable:
  assumes "t \<le> t'" "t' \<le> record_cut [d] data t" "0 < t"
  shows "record_cut [d] data t' = record_cut [d] data t"
proof (rule antisym)
  let ?e = "record_cut [d] data t"
  have le: "t' \<le> length data" using assms(2) record_cut_le [of "[d]" data t] by linarith
  have least: "record_cut [d] data s \<le> e" if "ends_after [d] data e" "s \<le> e" for s e
    using that record_cut_least [of "[d]" data e s] by (cases "e = s") (auto simp: record_cut_def)
  show "record_cut [d] data t' \<le> ?e"
    using record_cut_boundary [of "[d]" data t] record_cut_le [of "[d]" data t'] assms(2) least by metis
  show "?e \<le> record_cut [d] data t'"
    using record_cut_boundary [of "[d]" data t'] record_cut_le [of "[d]" data t] record_cut_ge [OF le, of "[d]"]
      assms(1) least by (metis order_trans)
qed

lemma plan_cuts_reach:
  assumes "sorted ts" "\<forall>t\<in>set ts. 0 < t" "t \<in> set ts" "l < t"
  shows "record_cut [d] data t \<in> set (plan_cuts (record_cut [d] data) ts l)"
  using assms
proof (induction ts arbitrary: l)
  case (Cons u ts)
  let ?cut = "record_cut [d] data"
  consider "u \<le> l" | "l < u" "t = u" | "l < u" "t \<noteq> u" "t \<le> ?cut u" | "l < u" "t \<noteq> u" "?cut u < t" by linarith
  then show ?case
  proof cases
    case 3
    then have "?cut t = ?cut u" using Cons.prems by (intro record_cut_byte_stable) auto
    with 3 show ?thesis by simp
  qed (use Cons in auto)
qed simp

lemma ranges_loop_reach:
  "\<forall>t\<in>set ts. t \<le> length data \<Longrightarrow> b \<in> set (plan_cuts (record_cut p data) ts l) \<Longrightarrow>
     \<exists>a. (a, b) \<in> set (ranges_loop (length data) l (plan_cuts (record_cut p data) ts l))"
proof (induction ts arbitrary: l)
  case (Cons u ts)
  then show ?case using record_cut_ge [of u data p] by (auto split: if_splits)
qed simp

lemma target_byte_boundary:
  assumes "0 < i" "i < n" "n \<le> length data"
  shows "let target = length data * i div n
     in \<exists>a b. (a, b) \<in> set (plan_spec (record_cut [d] data) (length data) n) \<and> target \<le> b \<and>
          (b = length data \<or> (data :: bytes) ! (b - 1) = d) \<and>
          (\<forall>k. target \<le> k + 1 \<and> k < length data \<and> data ! k = d \<longrightarrow> b \<le> k + 1)"
proof -
  let ?ts = "ideal_targets (length data) n" and ?t = "length data * i div n"
  let ?b = "record_cut [d] data ?t"
  have pos: "0 < t" if "t \<in> set ?ts" for t
  proof -
    obtain j where j: "0 < j" "j < n" "t = length data * j div n"
      using \<open>t \<in> set ?ts\<close> by (auto simp: ideal_targets_def Suc_le_eq elim!: imageE)
    have "n * 1 \<le> length data * j" using assms(3) j(1) by (intro mult_le_mono) simp_all
    with j show ?thesis by (simp add: div_greater_zero_iff)
  qed
  have t: "?t \<in> set ?ts" using assms(1,2) by (auto simp: ideal_targets_def)
  have le: "?t \<le> length data" using assms by (intro less_imp_le target_less) auto
  have "?b \<in> set (plan_cuts (record_cut [d] data) ?ts 0)"
    using sorted_ideal_targets pos t by (intro plan_cuts_reach) auto
  then obtain a where "(a, ?b) \<in> set (plan_spec (record_cut [d] data) (length data) n)"
    using ranges_loop_reach [of ?ts data ?b "[d]" 0] rec.ideal_targets_le [where xs = data and n = n] assms
    by (cases "data = []") (auto simp: plan_spec_def)
  moreover have "?t \<le> ?b" using le by (rule record_cut_ge)
  moreover have "?b = length data \<or> data ! (?b - 1) = d"
    using record_cut_boundary [of "[d]" data ?t] by (auto simp: ends_after_single)
  moreover have "?b \<le> k + 1" if "?t \<le> k + 1" "k < length data" "data ! k = d" for k
    using that record_cut_least [of "[d]" data "k + 1" ?t]
    by (cases "?t = k + 1") (auto simp: ends_after_single record_cut_def)
  ultimately show ?thesis unfolding Let_def by blast
qed

lemma inner_byte_boundary:
  assumes "(a, b) \<in> set (plan_spec (record_cut [d] data) (length data) n)" "b \<noteq> length data"
  shows "(data :: bytes) ! (b - 1) = d \<and> (\<exists>i. 0 < i \<and> i < n \<and>
     (let target = length data * i div n in target \<le> b \<and>
        (\<forall>k. target \<le> k + 1 \<and> k < length data \<and> data ! k = d \<longrightarrow> b \<le> k + 1)))"
proof -
  have "ends_after [d] data b" using rec.plan_spec_boundary [OF assms(1)] assms(2) by simp
  then have "data ! (b - 1) = d" by (auto simp: ends_after_single)
  moreover obtain i where i: "0 < i" "i < n" "length data * i div n \<le> b"
    and least: "\<And>e. ends_after [d] data e \<Longrightarrow>
      e = length data * i div n \<or> length data * i div n + length [d] \<le> e \<Longrightarrow> b \<le> e"
    using inner_boundary_near_target [of "[d]" a b data n] assms unfolding Let_def by blast
  moreover have "b \<le> k + 1" if "length data * i div n \<le> k + 1" "k < length data" "data ! k = d" for k
  proof (rule least)
    show "ends_after [d] data (k + 1)" using that(2,3) by (simp add: ends_after_single)
  qed (use that(1) in auto)
  ultimately show ?thesis unfolding Let_def by blast
qed

subsection \<open>Claims\<close>

text \<open>
  Claim C10: for every slice, partition count and delimiter byte the single-byte planner returns
  (no index or slice of it is out of range). The plan is empty for no partitions; otherwise it
  covers the data exactly, with at most \<open>min num_partitions len\<close> non-empty ranges. It passes the
  test-suite's invariant check, and its boundaries are exactly those the ideal targets
  \<open>len * i / n\<close> ask for: every inner boundary is the first record boundary at or after one of
  them, and the first record boundary at or after each of them (the end of the data when there is
  none) is the end of a range.
\<close>

theorem partition_correct:
  assumes "valid_slice data"
  shows "\<exists>rs. find_partition_boundaries ptr data num_partitions delimiter = Ret rs \<and>
     (num_partitions = 0 \<longrightarrow> rs = []) \<and>
     (0 < num_partitions \<longrightarrow> tiles 0 rs (length data) \<and> concat (map (subslice data) rs) = data) \<and>
     length rs \<le> min num_partitions (length data) \<and>
     assert_partition_invariants data num_partitions delimiter rs \<and>
     (\<forall>a b. (a, b) \<in> set rs \<and> b \<noteq> length data \<longrightarrow> data ! (b - 1) = delimiter \<and>
        (\<exists>i. 0 < i \<and> i < min num_partitions (length data) \<and>
           (let target = length data * i div min num_partitions (length data)
            in target \<le> b \<and> (\<forall>k. target \<le> k + 1 \<and> k < length data \<and> data ! k = delimiter \<longrightarrow> b \<le> k + 1)))) \<and>
     (\<forall>i. 0 < i \<and> i < min num_partitions (length data) \<longrightarrow>
        (let target = length data * i div min num_partitions (length data)
         in \<exists>a b. (a, b) \<in> set rs \<and> target \<le> b \<and> (b = length data \<or> data ! (b - 1) = delimiter) \<and>
              (\<forall>k. target \<le> k + 1 \<and> k < length data \<and> data ! k = delimiter \<longrightarrow> b \<le> k + 1)))"
proof -
  define n where "n = min num_partitions (length data)"
  define rs where "rs = plan_spec (record_cut [delimiter] data) (length data) n"
  have n: "n \<le> length data" by (simp add: n_def)
  have cover: "tiles 0 rs (length data)" if "0 < num_partitions"
    using that rec.plan_spec_tiles [of n "[delimiter]" data]
    by (cases "data = []") (auto simp: rs_def n_def plan_spec_def)
  have inner: "data ! (b - 1) = delimiter \<and> (\<exists>i. 0 < i \<and> i < n \<and>
      (let target = length data * i div n in target \<le> b \<and>
         (\<forall>k. target \<le> k + 1 \<and> k < length data \<and> data ! k = delimiter \<longrightarrow> b \<le> k + 1)))"
    if "(a, b) \<in> set rs" "b \<noteq> length data" for a b
    using that unfolding rs_def by (rule inner_byte_boundary)
  have reached: "let target = length data * i div n
         in \<exists>a b. (a, b) \<in> set rs \<and> target \<le> b \<and> (b = length data \<or> data ! (b - 1) = delimiter) \<and>
              (\<forall>k. target \<le> k + 1 \<and> k < length data \<and> data ! k = delimiter \<longrightarrow> b \<le> k + 1)"
    if "0 < i" "i < n" for i
    using that n unfolding rs_def by (rule target_byte_boundary)
  have inv: "assert_partition_invariants data num_partitions delimiter rs"
    using plan_spec_invariants_byte [OF assms n] invariants_mono(2)
    unfolding rs_def n_def by blast
  have count: "length rs \<le> n" unfolding rs_def by (rule rec.plan_spec_count)
  have zero: "num_partitions = 0 \<longrightarrow> rs = []" using count by (auto simp: n_def)
  have run: "find_partition_boundaries ptr data num_partitions delimiter = Ret rs"
    unfolding rs_def n_def by (rule find_partition_boundaries_spec [OF assms])
  show ?thesis
    unfolding n_def [symmetric] run using cover concat_tiles [OF cover] count inv inner reached zero
    by (intro exI [of _ rs] conjI allI impI) blast+
qed

theorem partition_correct_witness:
  "valid_slice [97, 10, 98, 10 :: byte] \<and>
   (\<exists>rs. find_partition_boundaries 0 [97, 10, 98, 10] 2 10 = Ret rs \<and>
      tiles 0 rs (length [97, 10, 98, 10 :: byte]) \<and> assert_partition_invariants [97, 10, 98, 10] 2 10 rs) \<and>
   find_partition_boundaries 0 [97, 10, 98, 10] 0 10 = Ret []"
proof -
  have v: "valid_slice [97, 10, 98, 10 :: byte]" by (simp add: valid_slice_def max_consts)
  from v partition_correct [OF v, of 0 2 10] partition_correct [OF v, of 0 0 10] show ?thesis by auto
qed

text \<open>
  Claim C1: the multi-byte planner panics exactly on an empty delimiter; for every other
  delimiter it returns a plan that covers the data with at most \<open>min num_partitions len\<close>
  ranges and passes the invariant check (each inner range ends after the complete pattern),
  each inner boundary is the exact ideal target or the end of the first complete pattern
  starting at or after it, and a one-byte delimiter gives the plan of the single-byte planner.
\<close>

theorem partition_pattern_correct:
  assumes "valid_slice data" "valid_slice delimiter"
  shows "(delimiter = [] \<longrightarrow> find_partition_boundaries_pattern ptr data num_partitions delimiter = Panic empty_delimiter_msg) \<and>
     (delimiter \<noteq> [] \<longrightarrow>
        (\<exists>rs. find_partition_boundaries_pattern ptr data num_partitions delimiter = Ret rs \<and>
           assert_partition_invariants_pattern data num_partitions delimiter rs \<and>
           (0 < num_partitions \<longrightarrow> tiles 0 rs (length data) \<and> concat (map (subslice data) rs) = data) \<and>
           length rs \<le> min num_partitions (length data) \<and>
           (\<forall>a b. (a, b) \<in> set rs \<and> b \<noteq> length data \<longrightarrow>
              (\<exists>i. 0 < i \<and> i < min num_partitions (length data) \<and>
                 (let target = length data * i div min num_partitions (length data)
                  in target \<le> b \<and>
                     (\<forall>e. ends_after delimiter data e \<and> (e = target \<or> target + length delimiter \<le> e) \<longrightarrow> b \<le> e)))))) \<and>
     (\<forall>d. delimiter = [d] \<longrightarrow> find_partition_boundaries_pattern ptr data num_partitions delimiter =
        find_partition_boundaries ptr data num_partitions d)"
proof (cases "delimiter = []")
  case True
  then show ?thesis by (simp add: find_partition_boundaries_pattern_def)
next
  case False
  define n where "n = min num_partitions (length data)"
  define rs where "rs = plan_spec (record_cut delimiter data) (length data) n"
  have run: "find_partition_boundaries_pattern ptr data num_partitions delimiter = Ret rs"
    unfolding rs_def n_def by (rule find_partition_boundaries_pattern_spec [OF assms False])
  have t: "tiles 0 rs (length data)" if "0 < num_partitions"
    using that rec.plan_spec_tiles [of n delimiter data]
    by (cases "data = []") (auto simp: rs_def n_def plan_spec_def)
  have inv: "assert_partition_invariants_pattern data num_partitions delimiter rs"
    using plan_spec_invariants [OF assms(1) False assms(2), of n] invariants_mono(1)
    unfolding rs_def n_def by simp
  have near: "\<exists>i. 0 < i \<and> i < n \<and> (let target = length data * i div n in target \<le> b \<and>
      (\<forall>e. ends_after delimiter data e \<and> (e = target \<or> target + length delimiter \<le> e) \<longrightarrow> b \<le> e))"
    if "(a, b) \<in> set rs" "b \<noteq> length data" for a b
    by (rule inner_boundary_near_target [OF False that [unfolded rs_def]])
  have one: "\<forall>d. delimiter = [d] \<longrightarrow> Ret rs = find_partition_boundaries ptr data num_partitions d"
    using assms(1) by (simp add: find_partition_boundaries_spec rs_def n_def)
  have count: "length rs \<le> n" unfolding rs_def by (rule rec.plan_spec_count)
  have "\<exists>rs'. Ret rs = Ret rs' \<and> assert_partition_invariants_pattern data num_partitions delimiter rs' \<and>
      (0 < num_partitions \<longrightarrow> tiles 0 rs' (length data) \<and> concat (map (subslice data) rs') = data) \<and>
      length rs' \<le> n \<and>
      (\<forall>a b. (a, b) \<in> set rs' \<and> b \<noteq> length data \<longrightarrow>
         (\<exists>i. 0 < i \<and> i < n \<and> (let target = length data * i div n in target \<le> b \<and>
            (\<forall>e. ends_after delimiter data e \<and> (e = target \<or> target + length delimiter \<le> e) \<longrightarrow> b \<le> e))))"
    using inv t concat_tiles count near by (intro exI [of _ rs] conjI allI impI) blast+
  with False one show ?thesis unfolding run n_def [symmetric] by blast
qed

theorem partition_pattern_correct_witness:
  "valid_slice [97, 13, 10, 98, 13, 10 :: byte] \<and> valid_slice [13, 10 :: byte] \<and>
   (\<exists>rs. find_partition_boundaries_pattern 0 [97, 13, 10, 98, 13, 10] 2 [13, 10] = Ret rs \<and>
      tiles 0 rs (length [97, 13, 10, 98, 13, 10 :: byte]) \<and>
      assert_partition_invariants_pattern [97, 13, 10, 98, 13, 10] 2 [13, 10] rs)"
proof -
  have v: "valid_slice [97, 13, 10, 98, 13, 10 :: byte]" "valid_slice [13, 10 :: byte]"
    by (simp_all add: valid_slice_def max_consts)
  from v partition_pattern_correct [OF v, of 0 2] show ?thesis by auto
qed

text \<open>
  Claim C15: the planners agree with the scalar oracles of the differential tests. The
  single-byte oracle caps the request at the file length like the planner does; the multi-byte
  oracle does not cap it, so agreement shows that the cap never changes a plan (as long as the
  oracle's own 64-bit product does not overflow).
\<close>

theorem partition_matches_scalar_oracle:
  assumes "valid_slice data" "valid_slice pattern" "pattern \<noteq> []"
  shows "find_partition_boundaries ptr data num_partitions delimiter =
           scalar_partition_boundaries data num_partitions delimiter \<and>
     (\<exists>rs. scalar_partition_boundaries data num_partitions delimiter = Ret rs) \<and>
     (length data * num_partitions \<le> usize_max \<longrightarrow>
         find_partition_boundaries_pattern ptr data num_partitions pattern =
           scalar_partition_boundaries_pattern data num_partitions pattern \<and>
         (\<exists>rs. scalar_partition_boundaries_pattern data num_partitions pattern = Ret rs))"
proof -
  have "find_partition_boundaries ptr data num_partitions delimiter =
      scalar_partition_boundaries data num_partitions delimiter"
    using assms(1) by (rule find_partition_scalar)
  moreover have "\<exists>rs. find_partition_boundaries ptr data num_partitions delimiter = Ret rs"
    using assms(1) by (simp add: find_partition_boundaries_spec)
  moreover have "length data * num_partitions \<le> usize_max \<longrightarrow>
      find_partition_boundaries_pattern ptr data num_partitions pattern =
        scalar_partition_boundaries_pattern data num_partitions pattern"
    using assms by (blast intro: find_partition_pattern_scalar)
  moreover have "\<exists>rs. find_partition_boundaries_pattern ptr data num_partitions pattern = Ret rs"
    using assms by (simp add: find_partition_boundaries_pattern_spec)
  ultimately show ?thesis by metis
qed

theorem partition_matches_scalar_oracle_witness:
  "find_partition_boundaries_pattern 0 [97, 13, 10, 98, 13, 10] 100 [13, 10] =
     scalar_partition_boundaries_pattern [97, 13, 10, 98, 13, 10] 100 [13, 10] \<and>
   find_partition_boundaries 0 [97, 13, 10, 98, 13, 10] 100 10 =
     scalar_partition_boundaries [97, 13, 10, 98, 13, 10] 100 10"
proof -
  have v: "valid_slice [97, 13, 10, 98, 13, 10 :: byte]" "valid_slice [13, 10 :: byte]"
    by (simp_all add: valid_slice_def max_consts)
  have p: "[13, 10 :: byte] \<noteq> []" by simp
  show ?thesis
    using partition_matches_scalar_oracle [OF v p, of 0 100 10] by (simp add: max_consts)
qed

end
