(* ===== verification/Chunk_Plan.thy ===== *)
theory Chunk_Plan
  imports Scanner_Partition
begin

section \<open>Chunk plans\<close>

text \<open>
  \<open>ChunkPlan\<close> of \<open>src/src/plan.rs\<close>: the planning metadata that the Rust interface and the
  C interface share. A plan is empty, a list of ranges, or a fixed-size layout whose ranges are
  computed on demand.
\<close>

datatype chunk_plan =
    PlanEmpty
  | Ranges "brange list"
  | Fixed (fixed_chunk_size: nat) (fixed_count: nat)

definition plan_empty :: chunk_plan where
  "plan_empty = PlanEmpty"

definition from_ranges :: "brange list \<Rightarrow> chunk_plan" where
  "from_ranges ranges = (if ranges = [] then PlanEmpty else Ranges ranges)"

definition plan_fixed :: "nat \<Rightarrow> nat \<Rightarrow> chunk_plan" where
  "plan_fixed file_len chunk_size =
     (if file_len = 0 then PlanEmpty
      else (let chunk_size = max chunk_size 1;
                chunk_count = fixed_chunk_count file_len chunk_size
            in Fixed chunk_size chunk_count))"

fun plan_len :: "chunk_plan \<Rightarrow> nat" where
  "plan_len PlanEmpty = 0"
| "plan_len (Ranges ranges) = slen ranges"
| "plan_len (Fixed chunk_size chunk_count) = chunk_count"

fun range_at :: "chunk_plan \<Rightarrow> nat \<Rightarrow> nat \<Rightarrow> brange option" where
  "range_at PlanEmpty index source_len = None"
| "range_at (Ranges ranges) index source_len = (if index < slen ranges then Some (ranges ! index) else None)"
| "range_at (Fixed chunk_size chunk_count) index source_len =
     (if index \<ge> chunk_count then None else fixed_chunk_bounds source_len chunk_size index)"

subsection \<open>Well-formed plans\<close>

text \<open>
  What every plan of a file of \<open>len\<close> bytes satisfies: it is empty, a tiling of the file, or
  the fixed layout of the file for a positive chunk size.
\<close>

fun plan_ok :: "nat \<Rightarrow> chunk_plan \<Rightarrow> bool" where
  "plan_ok len PlanEmpty \<longleftrightarrow> True"
| "plan_ok len (Ranges ranges) \<longleftrightarrow> ranges \<noteq> [] \<and> tiles 0 ranges len"
| "plan_ok len (Fixed chunk_size chunk_count) \<longleftrightarrow>
     0 < len \<and> 0 < chunk_size \<and> chunk_size \<le> usize_max \<and> chunk_count = fixed_chunk_count len chunk_size"

text \<open>All ranges of a plan, in order.\<close>

definition plan_ranges :: "chunk_plan \<Rightarrow> nat \<Rightarrow> brange list" where
  "plan_ranges p len = map (\<lambda>i. the (range_at p i len)) [0..<plan_len p]"

lemma plan_empty_ok [simp]: "plan_ok len plan_empty"
  by (simp add: plan_empty_def)

lemma from_ranges_ok: "tiles 0 rs len \<or> rs = [] \<Longrightarrow> plan_ok len (from_ranges rs)"
  by (auto simp: from_ranges_def)

lemma plan_fixed_ok: "chunk_size \<le> usize_max \<Longrightarrow> plan_ok len (plan_fixed len chunk_size)"
  by (auto simp: plan_fixed_def Let_def max_consts)

lemma tiles_slen: "tiles 0 rs len \<Longrightarrow> len \<le> usize_max \<Longrightarrow> slen rs = length rs"
  using tiles_length [of 0 rs len] by (simp add: slen_def as_usize_def max_consts)

lemma fixed_bounds_None_iff:
  "len \<le> usize_max \<Longrightarrow> fixed_chunk_bounds len cs i = None \<longleftrightarrow> fixed_chunk_count len cs \<le> i"
  by (auto simp: fixed_chunk_bounds_exact fixed_chunk_count_iff not_less [symmetric] simp del: not_less)

lemma range_at_Some_iff:
  assumes "plan_ok len p" "len \<le> usize_max"
  shows "(\<exists>r. range_at p i len = Some r) \<longleftrightarrow> i < plan_len p"
  using assms fixed_bounds_None_iff [of len "fixed_chunk_size p" i]
  by (cases p) (auto simp: tiles_slen not_le)

lemma plan_ranges_from: "tiles 0 rs len \<Longrightarrow> len \<le> usize_max \<Longrightarrow> plan_ranges (from_ranges rs) len = rs"
  by (auto simp: plan_ranges_def from_ranges_def tiles_slen intro: nth_equalityI)

lemma fixed_map_tiles:
  assumes "len \<le> usize_max"
  shows "tiles 0 (map (\<lambda>i. the (fixed_chunk_bounds len cs i)) [0..<fixed_chunk_count len cs]) len"
proof -
  let ?m = "max cs 1" and ?k = "fixed_chunk_count len cs"
  have lt: "i < ?k \<longleftrightarrow> i * ?m < len" for i by (rule fixed_chunk_count_iff)
  have "map (\<lambda>i. the (fixed_chunk_bounds len cs i)) [0..<?k] = map (\<lambda>i. (i * ?m, min (Suc i * ?m) len)) [0..<?k]"
    using lt by (simp add: fixed_chunk_bounds_exact [OF assms])
  moreover have "min (?k * ?m) len = len" using lt [of ?k] by simp
  moreover have "(?k - 1) * ?m < len \<or> ?k = 0" using lt [of "?k - 1"] by (cases ?k) auto
  ultimately show ?thesis using fixed_tiles_gen [of ?m ?k len] by (simp only: max_less_iff_conj)
qed

lemma plan_ranges_tile:
  assumes "plan_ok len p" "len \<le> usize_max" "p \<noteq> PlanEmpty"
  shows "tiles 0 (plan_ranges p len) len"
proof (cases p)
  case (Ranges rs)
  then have "plan_ranges p len = rs" using assms plan_ranges_from [of rs len] by (simp add: from_ranges_def)
  with Ranges assms show ?thesis by simp
next
  case (Fixed cs k)
  then have "plan_ranges p len = map (\<lambda>i. the (fixed_chunk_bounds len cs i)) [0..<k]"
    by (simp add: plan_ranges_def)
  with Fixed assms fixed_map_tiles [of len cs] show ?thesis by simp
qed (use assms in simp)

lemma range_at_in_bounds:
  assumes "plan_ok len p" "len \<le> usize_max" "range_at p i len = Some (a, b)"
  shows "a < b \<and> b \<le> len"
proof -
  have i: "i < plan_len p" using range_at_Some_iff [OF assms(1,2)] assms(3) by auto
  then have "p \<noteq> PlanEmpty" by auto
  moreover from i assms(3) have "(a, b) \<in> set (plan_ranges p len)" by (force simp: plan_ranges_def)
  ultimately show ?thesis using plan_ranges_tile [OF assms(1,2)] tiles_mem by blast
qed

subsection \<open>Lookup\<close>

text \<open>
  The contract of lookup: a plan built from a tiling of the file, or as the fixed layout of the file, answers
  exactly the indices below its length, and the ranges it answers are those of the tiling, or
  tile the file without a gap; every answered range is non-empty and inside the file.
\<close>

lemma plan_lookup_correct:
  assumes "file_len \<le> usize_max" "chunk_size \<le> usize_max" "tiles 0 ranges file_len"
  shows "(\<forall>p \<in> {from_ranges ranges, plan_fixed file_len chunk_size}.
       (\<forall>i. range_at p i file_len = None \<longleftrightarrow> plan_len p \<le> i) \<and>
       (\<forall>i a b. range_at p i file_len = Some (a, b) \<longrightarrow> a < b \<and> b \<le> file_len) \<and>
       tiles 0 (map (\<lambda>i. the (range_at p i file_len)) [0..<plan_len p]) file_len) \<and>
     map (\<lambda>i. the (range_at (from_ranges ranges) i file_len)) [0..<plan_len (from_ranges ranges)] = ranges"
proof -
  have ok: "plan_ok file_len (from_ranges ranges)" "plan_ok file_len (plan_fixed file_len chunk_size)"
    using assms by (simp_all add: from_ranges_ok plan_fixed_ok)
  have tile: "tiles 0 (plan_ranges p file_len) file_len"
    if "p = from_ranges ranges \<or> p = plan_fixed file_len chunk_size" for p
  proof (cases "p = PlanEmpty")
    case True
    with that assms(3) have "file_len = 0"
      by (auto simp: from_ranges_def plan_fixed_def Let_def split: if_splits)
    with True show ?thesis by (simp add: plan_ranges_def)
  next
    case False
    with that ok assms(1) plan_ranges_tile show ?thesis by blast
  qed
  have none: "range_at p i file_len = None \<longleftrightarrow> plan_len p \<le> i" if "plan_ok file_len p" for p i
    using range_at_Some_iff [OF that assms(1), of i] by (cases "range_at p i file_len") auto
  have "(\<forall>i. range_at p i file_len = None \<longleftrightarrow> plan_len p \<le> i) \<and>
      (\<forall>i a b. range_at p i file_len = Some (a, b) \<longrightarrow> a < b \<and> b \<le> file_len) \<and>
      tiles 0 (map (\<lambda>i. the (range_at p i file_len)) [0..<plan_len p]) file_len"
    if p: "p \<in> {from_ranges ranges, plan_fixed file_len chunk_size}" for p
  proof -
    have "plan_ok file_len p" using p ok by blast
    moreover have "tiles 0 (plan_ranges p file_len) file_len" using p by (intro tile) blast
    ultimately show ?thesis
      using none range_at_in_bounds [OF _ assms(1)] by (simp add: plan_ranges_def)
  qed
  then show ?thesis using plan_ranges_from [OF assms(3,1)] unfolding plan_ranges_def by (intro conjI [OF ballI]) assumption+
qed

end
