(* ===== verification/Rust_Text.thy ===== *)
theory Rust_Text
  imports Chunker_Prelude
begin

section \<open>Text formatting and integer parsing\<close>

text \<open>
  The parts of the standard library's text handling that the program's messages and its command
  line rest on: decimal and hexadecimal display of unsigned integers, \<open>str::parse::<usize>\<close>
  (\<open>from_str\<close> of an unsigned integer accepts one leading plus sign and ASCII digits, and
  rejects the empty text and overflow), \<open>u8::from_str_radix(_, 16)\<close>, and
  \<open>str::split_at\<close> style helpers.
\<close>

definition digit_char :: "nat \<Rightarrow> char" where
  "digit_char d = (if d < 10 then char_of (48 + d) else char_of (87 + d))"

fun show_radix :: "nat \<Rightarrow> nat \<Rightarrow> string" where
  "show_radix r n = (if n < r \<or> r < 2 then [digit_char n] else show_radix r (n div r) @ [digit_char (n mod r)])"

declare show_radix.simps [simp del]

definition show_nat :: "nat \<Rightarrow> string" where
  "show_nat n = show_radix 10 n"

text \<open>\<open>{:#x}\<close>\<close>

definition show_hex :: "nat \<Rightarrow> string" where
  "show_hex n = ''0x'' @ show_radix 16 n"

text \<open>\<open>char::to_digit\<close>\<close>

definition digit_value :: "nat \<Rightarrow> char \<Rightarrow> nat option" where
  "digit_value r c =
     (let k = of_char c;
          d = (if 48 \<le> k \<and> k \<le> 57 then Some (k - 48)
               else if 97 \<le> k \<and> k \<le> 122 then Some (k - 87)
               else if 65 \<le> k \<and> k \<le> 90 then Some (k - 55) else (None :: nat option))
      in case d of Some v \<Rightarrow> (if v < r then Some v else None) | None \<Rightarrow> None)"

text \<open>The digit loop of \<open>from_str_radix\<close>, with its checked multiplication and addition.\<close>

fun parse_digits :: "nat \<Rightarrow> nat \<Rightarrow> nat \<Rightarrow> string \<Rightarrow> nat option" where
  "parse_digits r bound acc [] = Some acc"
| "parse_digits r bound acc (c # cs) =
     (case digit_value r c of
        None \<Rightarrow> None
      | Some d \<Rightarrow> (if acc * r + d \<le> bound then parse_digits r bound (acc * r + d) cs else None))"

definition from_str_radix :: "nat \<Rightarrow> nat \<Rightarrow> string \<Rightarrow> nat option" where
  "from_str_radix r bound s =
     (if s = [] \<or> s = ''+'' \<or> s = ''-'' then None
      else if hd s = CHR ''+'' then parse_digits r bound 0 (tl s)
      else parse_digits r bound 0 s)"

definition parse_usize :: "string \<Rightarrow> nat option" where
  "parse_usize s = from_str_radix 10 usize_max s"

subsection \<open>Display and parsing are inverse\<close>

lemma of_char_digit: "d < 10 \<Longrightarrow> (of_char (digit_char d) :: nat) = 48 + d"
  by (simp add: digit_char_def)

lemma digit_value_digit_char: "d < r \<Longrightarrow> r \<le> 16 \<Longrightarrow> digit_value r (digit_char d) = Some d"
  by (auto simp: digit_value_def digit_char_def Let_def)

lemma digit_char_not_sign: "d < 16 \<Longrightarrow> digit_char d \<noteq> CHR ''+'' \<and> digit_char d \<noteq> CHR ''-''"
proof -
  assume "d < 16"
  then have "(of_char (digit_char d) :: nat) \<ge> 48" by (simp add: digit_char_def)
  then show ?thesis by auto
qed

lemma parse_digits_append:
  "parse_digits r bound acc (xs @ ys) =
     (case parse_digits r bound acc xs of None \<Rightarrow> None | Some a \<Rightarrow> parse_digits r bound a ys)"
  by (induction r bound acc xs rule: parse_digits.induct) (auto split: option.split)

lemma parse_digits_show:
  assumes "2 \<le> r" "r \<le> 16" "n \<le> bound"
  shows "parse_digits r bound 0 (show_radix r n) = Some n"
  using assms(3)
proof (induction n rule: less_induct)
  case (less n)
  show ?case
  proof (cases "n < r")
    case True
    then show ?thesis
      using assms less.prems by (subst show_radix.simps) (simp add: digit_value_digit_char)
  next
    case False
    then have lt: "n div r < n" using assms(1) by (intro div_less_dividend) auto
    then have "parse_digits r bound 0 (show_radix r (n div r)) = Some (n div r)"
      using less.IH [OF lt] less.prems by simp
    moreover have "n div r * r + n mod r \<le> bound" using less.prems by simp
    moreover have "digit_value r (digit_char (n mod r)) = Some (n mod r)"
      using assms by (intro digit_value_digit_char) auto
    ultimately show ?thesis
      using False assms by (subst show_radix.simps) (simp add: parse_digits_append)
  qed
qed

lemma show_radix_hd:
  "2 \<le> r \<Longrightarrow> r \<le> 16 \<Longrightarrow> show_radix r n \<noteq> [] \<and> hd (show_radix r n) \<noteq> CHR ''+'' \<and> hd (show_radix r n) \<noteq> CHR ''-''"
proof (induction r n rule: show_radix.induct)
  case (1 r n)
  show ?case
  proof (cases "n < r")
    case True
    then show ?thesis using 1 digit_char_not_sign [of n] by (subst show_radix.simps) (simp add: show_radix.simps)
  next
    case False
    then show ?thesis using 1 by (simp add: show_radix.simps [of r n])
  qed
qed

lemma from_str_radix_show:
  assumes "2 \<le> r" "r \<le> 16" "n \<le> bound"
  shows "from_str_radix r bound (show_radix r n) = Some n"
  using parse_digits_show [OF assms] show_radix_hd [OF assms(1,2), of n]
  by (cases "show_radix r n") (auto simp: from_str_radix_def)

lemma parse_usize_show_nat: "n \<le> usize_max \<Longrightarrow> parse_usize (show_nat n) = Some n"
  by (simp add: parse_usize_def show_nat_def from_str_radix_show)

lemma parse_digits_bound: "acc \<le> bound \<Longrightarrow> parse_digits r bound acc s = Some n \<Longrightarrow> n \<le> bound"
  by (induction r bound acc s rule: parse_digits.induct) (auto split: option.splits if_splits)

lemma parse_usize_bound: "parse_usize s = Some n \<Longrightarrow> n \<le> usize_max"
  unfolding parse_usize_def from_str_radix_def
  by (metis option.distinct(1) parse_digits_bound zero_le)

lemma show_radix_inj:
  assumes "2 \<le> r" "r \<le> 16" "show_radix r m = show_radix r n"
  shows "m = n"
proof -
  have "Some m = parse_digits r (max m n) 0 (show_radix r m)" using assms(1,2) by (simp add: parse_digits_show)
  also have "\<dots> = Some n" unfolding assms(3) using assms(1,2) by (simp add: parse_digits_show)
  finally show ?thesis by simp
qed

end
