(* ===== verification/File_Pin.thy ===== *)
theory File_Pin
  imports Rust_Text
begin

unbundle bit_operations_syntax

section \<open>File-identity pinning\<close>

text \<open>
  \<open>src/src/pin.rs\<close>: a pinned file is a path with the identity (size, modification time and, on
  Unix, device and inode) seen when it was captured; \<open>revalidate\<close> reads the metadata of the
  path again and reports the first enabled class that changed. \<open>std::fs::metadata\<close> is the
  argument \<open>stat\<close> of the operations: its value at the moment of the call. \<open>SystemTime\<close> is a
  number of clock ticks. The platform families of the source's \<open>cfg\<close> attributes are the
  type \<open>platform\<close> (the crate compiles for Linux, macOS and Windows only); a field that a platform does not compile is \<open>None\<close>.
\<close>

subsection \<open>Flags\<close>

datatype platform = Unix | Windows

definition PIN_SIZE :: "32 word" where "PIN_SIZE = push_bit 0 1"
definition PIN_IDENTITY :: "32 word" where "PIN_IDENTITY = push_bit 1 1"
definition PIN_MTIME :: "32 word" where "PIN_MTIME = push_bit 2 1"

definition PIN_ALL :: "32 word" where
  "PIN_ALL = PIN_SIZE OR PIN_IDENTITY OR PIN_MTIME"

definition PIN_KNOWN_MASK :: "32 word" where
  "PIN_KNOWN_MASK = PIN_ALL"

definition effective_flags :: "32 word \<Rightarrow> 32 word io" where
  "effective_flags flags =
     (if flags AND NOT PIN_KNOWN_MASK \<noteq> 0
      then Inl (io_err InvalidInput (''unknown pin flag bits: '' @ show_hex (unat (flags AND NOT PIN_KNOWN_MASK))))
      else if flags = 0 then Inr PIN_ALL
      else Inr flags)"

subsection \<open>Identities\<close>

text \<open>\<open>std::fs::Metadata\<close>, as far as the program reads it.\<close>

datatype file_type = FtFile | FtDir | FtSymlink | FtFifo | FtSocket | FtOther

record metadata =
  meta_type :: file_type
  meta_len :: nat
  meta_modified :: "nat io"
  meta_dev :: nat
  meta_ino :: nat

type_synonym stat = "path \<Rightarrow> metadata io"

record file_identity =
  fi_size :: nat
  fi_mtime :: "nat option"
  fi_dev :: "nat option"
  fi_ino :: "nat option"

definition capture_from_metadata :: "platform \<Rightarrow> metadata \<Rightarrow> file_identity" where
  "capture_from_metadata pf meta =
     \<lparr>fi_size = meta_len meta,
      fi_mtime = (case meta_modified meta of Inl _ \<Rightarrow> None | Inr t \<Rightarrow> Some t),
      fi_dev = (if pf = Unix then Some (meta_dev meta) else None),
      fi_ino = (if pf = Unix then Some (meta_ino meta) else None)\<rparr>"

subsection \<open>Mismatches\<close>

datatype pin_mismatch_kind = Rotated | Replaced | Truncated | MtimeJump | MetadataUnavailable

fun show_mismatch_kind :: "pin_mismatch_kind \<Rightarrow> string" where
  "show_mismatch_kind Rotated = ''rotated''"
| "show_mismatch_kind Replaced = ''replaced''"
| "show_mismatch_kind Truncated = ''truncated''"
| "show_mismatch_kind MtimeJump = ''mtime-jump''"
| "show_mismatch_kind MetadataUnavailable = ''metadata-unavailable''"

record pin_mismatch =
  pm_kind :: pin_mismatch_kind
  pm_detail :: string

definition show_mismatch :: "pin_mismatch \<Rightarrow> string" where
  "show_mismatch m = ''file identity changed ('' @ show_mismatch_kind (pm_kind m) @ ''): '' @ pm_detail m"

definition to_io_error :: "pin_mismatch \<Rightarrow> io_error" where
  "to_io_error m = io_err InvalidData (show_mismatch m)"

definition io_error_from_mismatch :: "pin_mismatch \<Rightarrow> io_error" where
  "io_error_from_mismatch m = to_io_error m"

subsection \<open>Pinned files\<close>

record pinned_file =
  pin_path :: path
  pin_identity :: file_identity
  pin_flags :: "32 word"

definition identity_unsupported_msg :: string where
  "identity_unsupported_msg =
     ''identity pinning (dev/ino) is not supported on this platform; '' @
     ''request PIN_SIZE, PIN_MTIME, or all classes instead''"

definition pin_capture :: "platform \<Rightarrow> stat \<Rightarrow> path \<Rightarrow> 32 word \<Rightarrow> pinned_file io" where
  "pin_capture pf stat path flags =
     (case effective_flags flags of
        Inl e \<Rightarrow> Inl e
      | Inr _ \<Rightarrow>
          if pf \<noteq> Unix \<and> flags = PIN_IDENTITY then Inl (io_err InvalidInput identity_unsupported_msg)
          else (case stat path of
                  Inl e \<Rightarrow> Inl e
                | Inr meta \<Rightarrow>
                    Inr \<lparr>pin_path = path, pin_identity = capture_from_metadata pf meta, pin_flags = flags\<rparr>))"

text \<open>The accessors \<open>path\<close>, \<open>identity\<close> and \<open>flags\<close>.\<close>

definition pinned_path :: "pinned_file \<Rightarrow> path" where
  "pinned_path p = pin_path p"

definition pinned_identity :: "pinned_file \<Rightarrow> file_identity" where
  "pinned_identity p = pin_identity p"

definition pinned_flags :: "pinned_file \<Rightarrow> 32 word" where
  "pinned_flags p = pin_flags p"

text \<open>The three class checks of \<open>revalidate\<close>, in the order of the code.\<close>

definition check_identity :: "platform \<Rightarrow> 32 word \<Rightarrow> file_identity \<Rightarrow> file_identity \<Rightarrow> pin_mismatch option" where
  "check_identity pf effective old cur =
     (if effective AND PIN_IDENTITY \<noteq> 0 \<and> pf = Unix \<and> (fi_dev cur \<noteq> fi_dev old \<or> fi_ino cur \<noteq> fi_ino old)
      then Some \<lparr>pm_kind = Replaced,
             pm_detail = ''file key changed (dev/ino '' @ show_nat (the (fi_dev old)) @ '':'' @ show_nat (the (fi_ino old)) @
               '' -> '' @ show_nat (the (fi_dev cur)) @ '':'' @ show_nat (the (fi_ino cur)) @ '')''\<rparr>
      else None)"

definition check_size :: "32 word \<Rightarrow> file_identity \<Rightarrow> file_identity \<Rightarrow> pin_mismatch option" where
  "check_size effective old cur =
     (if effective AND PIN_SIZE \<noteq> 0 \<and> fi_size cur \<noteq> fi_size old
      then Some \<lparr>pm_kind = Truncated,
             pm_detail = ''file size changed ('' @ show_nat (fi_size old) @ '' -> '' @ show_nat (fi_size cur) @ '')''\<rparr>
      else None)"

definition check_mtime :: "32 word \<Rightarrow> file_identity \<Rightarrow> file_identity \<Rightarrow> pin_mismatch option" where
  "check_mtime effective old cur =
     (if effective AND PIN_MTIME \<noteq> 0 then
        (case (fi_mtime old, fi_mtime cur) of
           (Some o', Some n') \<Rightarrow>
             if o' \<noteq> n' then Some \<lparr>pm_kind = MtimeJump, pm_detail = ''modification time changed''\<rparr> else None
         | _ \<Rightarrow> None)
      else None)"

definition revalidate :: "platform \<Rightarrow> stat \<Rightarrow> pinned_file \<Rightarrow> pin_mismatch + unit" where
  "revalidate pf stat p =
     (case effective_flags (pin_flags p) of
        Inl e \<Rightarrow> Inl \<lparr>pm_kind = MetadataUnavailable, pm_detail = ''invalid pin flags: '' @ err_text e\<rparr>
      | Inr effective \<Rightarrow>
          (case stat (pin_path p) of
             Inl e \<Rightarrow> Inl \<lparr>pm_kind = MetadataUnavailable, pm_detail = ''cannot stat pinned path: '' @ err_text e\<rparr>
           | Inr meta \<Rightarrow>
               (let current = capture_from_metadata pf meta in
                case check_identity pf effective (pin_identity p) current of
                  Some m \<Rightarrow> Inl m
                | None \<Rightarrow>
                    (case check_size effective (pin_identity p) current of
                       Some m \<Rightarrow> Inl m
                     | None \<Rightarrow>
                         (case check_mtime effective (pin_identity p) current of
                            Some m \<Rightarrow> Inl m
                          | None \<Rightarrow> Inr ())))))"

subsection \<open>Flag arithmetic\<close>

lemma pin_consts: "PIN_SIZE = 1" "PIN_IDENTITY = 2" "PIN_MTIME = 4" "PIN_ALL = 7" "PIN_KNOWN_MASK = 7"
  by (simp_all add: PIN_SIZE_def PIN_IDENTITY_def PIN_MTIME_def PIN_ALL_def PIN_KNOWN_MASK_def)

lemma unat_eq_iff_word: "v = w \<longleftrightarrow> unat v = unat w"
  by (simp add: word_unat_eq_iff)

lemma mod_eq_self_iff: "0 < m \<Longrightarrow> n mod m = n \<longleftrightarrow> n < (m :: nat)"
  by (metis mod_less mod_less_divisor)

lemma unknown_bits_iff: "flags AND NOT PIN_KNOWN_MASK = 0 \<longleftrightarrow> unat flags < 8"
proof -
  have m: "(7 :: 32 word) = mask 3" by (simp add: mask_eq_exp_minus_1)
  have "flags AND NOT (7 :: 32 word) = 0 \<longleftrightarrow> take_bit 3 flags = flags"
    unfolding m by (auto simp: bit_eq_iff bit_simps)
  also have "\<dots> \<longleftrightarrow> unat flags < 8"
    unfolding unat_eq_iff_word unsigned_take_bit_eq take_bit_nat_def by (simp add: mod_eq_self_iff)
  finally show ?thesis by (simp add: pin_consts)
qed

text \<open>The classes a flag value enables.\<close>

definition pin_enabled :: "32 word \<Rightarrow> 32 word \<Rightarrow> bool" where
  "pin_enabled flags cls \<longleftrightarrow> flags = 0 \<or> flags AND cls \<noteq> 0"

lemma effective_flags_Inr_iff:
  "effective_flags flags = Inr eff \<longleftrightarrow> unat flags < 8 \<and> eff = (if flags = 0 then PIN_ALL else flags)"
  using unknown_bits_iff [of flags] by (auto simp: effective_flags_def)

lemma effective_flags_Inl: "effective_flags flags = Inl e \<Longrightarrow> \<not> unat flags < 8 \<and> err_kind e = InvalidInput"
  using unknown_bits_iff [of flags] by (auto simp: effective_flags_def io_err_def split: if_splits)

lemma effective_enabled:
  "cls \<in> {PIN_SIZE, PIN_IDENTITY, PIN_MTIME} \<Longrightarrow>
     (if flags = 0 then PIN_ALL else flags) AND cls \<noteq> 0 \<longleftrightarrow> pin_enabled flags cls"
  by (auto simp: pin_enabled_def pin_consts)

lemma pin_capture_Inr:
  "pin_capture pf stat path flags = Inr p \<longleftrightarrow>
     unat flags < 8 \<and> (pf = Unix \<or> flags \<noteq> PIN_IDENTITY) \<and>
     (\<exists>meta. stat path = Inr meta \<and>
        p = \<lparr>pin_path = path, pin_identity = capture_from_metadata pf meta, pin_flags = flags\<rparr>)"
  using effective_flags_Inr_iff [of flags] effective_flags_Inl [of flags]
  by (auto simp: pin_capture_def split: sum.splits)

subsection \<open>What revalidation decides\<close>

text \<open>The three classes, on the metadata read at capture and now.\<close>

definition key_changed :: "platform \<Rightarrow> 32 word \<Rightarrow> metadata \<Rightarrow> metadata \<Rightarrow> bool" where
  "key_changed pf flags m0 m1 \<longleftrightarrow> pin_enabled flags PIN_IDENTITY \<and> pf = Unix \<and>
     (meta_dev m1 \<noteq> meta_dev m0 \<or> meta_ino m1 \<noteq> meta_ino m0)"

definition size_changed :: "32 word \<Rightarrow> metadata \<Rightarrow> metadata \<Rightarrow> bool" where
  "size_changed flags m0 m1 \<longleftrightarrow> pin_enabled flags PIN_SIZE \<and> meta_len m1 \<noteq> meta_len m0"

definition mtime_changed :: "32 word \<Rightarrow> metadata \<Rightarrow> metadata \<Rightarrow> bool" where
  "mtime_changed flags m0 m1 \<longleftrightarrow> pin_enabled flags PIN_MTIME \<and>
     (\<exists>t0 t1. meta_modified m0 = Inr t0 \<and> meta_modified m1 = Inr t1 \<and> t0 \<noteq> t1)"

lemmas pin_changed_defs = key_changed_def size_changed_def mtime_changed_def

lemma check_identity_None:
  "check_identity pf (if flags = 0 then PIN_ALL else flags) (capture_from_metadata pf m0) (capture_from_metadata pf m1) = None
     \<longleftrightarrow> \<not> key_changed pf flags m0 m1"
  using effective_enabled [of PIN_IDENTITY flags]
  by (auto simp: check_identity_def capture_from_metadata_def key_changed_def)

lemma check_size_None:
  "check_size (if flags = 0 then PIN_ALL else flags) (capture_from_metadata pf m0) (capture_from_metadata pf m1) = None
     \<longleftrightarrow> \<not> size_changed flags m0 m1"
  using effective_enabled [of PIN_SIZE flags]
  by (auto simp: check_size_def capture_from_metadata_def size_changed_def)

lemma check_mtime_None:
  "check_mtime (if flags = 0 then PIN_ALL else flags) (capture_from_metadata pf m0) (capture_from_metadata pf m1) = None
     \<longleftrightarrow> \<not> mtime_changed flags m0 m1"
  using effective_enabled [of PIN_MTIME flags]
  by (auto simp: check_mtime_def capture_from_metadata_def mtime_changed_def split: sum.splits)

lemma check_kinds:
  "check_identity pf eff old cur = Some m \<Longrightarrow> pm_kind m = Replaced"
  "check_size eff old cur = Some m \<Longrightarrow> pm_kind m = Truncated"
  "check_mtime eff old cur = Some m \<Longrightarrow> pm_kind m = MtimeJump"
  by (auto simp: check_identity_def check_size_def check_mtime_def split: if_splits option.splits)

text \<open>The outcome of \<open>revalidate\<close> on a captured pin, as a decision table.\<close>

definition revalidate_verdict :: "platform \<Rightarrow> 32 word \<Rightarrow> metadata \<Rightarrow> metadata io \<Rightarrow> pin_mismatch_kind option" where
  "revalidate_verdict pf flags m0 now =
     (case now of
        Inl _ \<Rightarrow> Some MetadataUnavailable
      | Inr m1 \<Rightarrow>
          if key_changed pf flags m0 m1 then Some Replaced
          else if size_changed flags m0 m1 then Some Truncated
          else if mtime_changed flags m0 m1 then Some MtimeJump else None)"

definition revalidate_kind :: "pin_mismatch + unit \<Rightarrow> pin_mismatch_kind option" where
  "revalidate_kind r = (case r of Inl m \<Rightarrow> Some (pm_kind m) | Inr _ \<Rightarrow> None)"

lemma revalidate_kind_None: "revalidate_kind r = None \<longleftrightarrow> r = Inr ()"
  by (simp add: revalidate_kind_def split: sum.split)

lemma revalidate_captured:
  assumes "unat flags < 8"
  shows "revalidate_kind (revalidate pf stat1 \<lparr>pin_path = path, pin_identity = capture_from_metadata pf m0, pin_flags = flags\<rparr>) =
     revalidate_verdict pf flags m0 (stat1 path)"
proof (cases "stat1 path")
  case (Inr m1)
  define eff where "eff = (if flags = 0 then PIN_ALL else flags)"
  have "effective_flags flags = Inr eff" using assms by (simp add: effective_flags_Inr_iff eff_def)
  then have "revalidate_kind (revalidate pf stat1
        \<lparr>pin_path = path, pin_identity = capture_from_metadata pf m0, pin_flags = flags\<rparr>) =
      (case check_identity pf eff (capture_from_metadata pf m0) (capture_from_metadata pf m1) of
         Some m \<Rightarrow> Some (pm_kind m)
       | None \<Rightarrow> (case check_size eff (capture_from_metadata pf m0) (capture_from_metadata pf m1) of
           Some m \<Rightarrow> Some (pm_kind m)
         | None \<Rightarrow> map_option pm_kind (check_mtime eff (capture_from_metadata pf m0) (capture_from_metadata pf m1))))"
    using Inr by (simp add: revalidate_def Let_def revalidate_kind_def split: option.split)
  also have "\<dots> = revalidate_verdict pf flags m0 (stat1 path)"
    using check_identity_None [of pf flags m0 m1] check_size_None [of flags pf m0 m1]
      check_mtime_None [of flags pf m0 m1] check_kinds
    unfolding eff_def [symmetric]
    by (auto simp: Inr revalidate_verdict_def split: option.split)
  finally show ?thesis .
next
  case (Inl e)
  moreover have "effective_flags flags = Inr (if flags = 0 then PIN_ALL else flags)"
    using assms by (simp add: effective_flags_Inr_iff)
  ultimately show ?thesis by (simp add: revalidate_def revalidate_kind_def revalidate_verdict_def)
qed

subsection \<open>Claims\<close>

text \<open>
  Claim C27: revalidating a pin succeeds exactly when the path can still be read and no enabled
  class changed since the capture: device and inode on Unix, size, modification time. A
  modification time that either reading lacks is not compared.
\<close>

theorem pin_revalidate_decides:
  assumes "pin_capture pf stat0 path flags = Inr p"
  shows "revalidate pf stat1 p = Inr () \<longleftrightarrow>
     (\<exists>m0 m1. stat0 path = Inr m0 \<and> stat1 path = Inr m1 \<and>
        (pf = Unix \<and> (flags = 0 \<or> flags AND PIN_IDENTITY \<noteq> 0) \<longrightarrow> meta_dev m1 = meta_dev m0 \<and> meta_ino m1 = meta_ino m0) \<and>
        (flags = 0 \<or> flags AND PIN_SIZE \<noteq> 0 \<longrightarrow> meta_len m1 = meta_len m0) \<and>
        (flags = 0 \<or> flags AND PIN_MTIME \<noteq> 0 \<longrightarrow>
           (\<forall>t0 t1. meta_modified m0 = Inr t0 \<and> meta_modified m1 = Inr t1 \<longrightarrow> t0 = t1)))"
proof -
  obtain m0 where m0: "stat0 path = Inr m0" "unat flags < 8"
    "p = \<lparr>pin_path = path, pin_identity = capture_from_metadata pf m0, pin_flags = flags\<rparr>"
    using assms by (auto simp: pin_capture_Inr)
  have "revalidate pf stat1 p = Inr () \<longleftrightarrow> revalidate_verdict pf flags m0 (stat1 path) = None"
    using revalidate_captured [OF m0(2), of pf stat1 path m0] by (simp add: m0(3) flip: revalidate_kind_None)
  then show ?thesis
    unfolding revalidate_verdict_def pin_changed_defs pin_enabled_def
    by (cases "stat1 path") (auto simp: m0(1) split: if_splits)
qed

theorem pin_revalidate_decides_witness:
  "\<exists>p. pin_capture Unix (\<lambda>_. Inr \<lparr>meta_type = FtFile, meta_len = 10, meta_modified = Inr 5, meta_dev = 1, meta_ino = 7\<rparr>) ''f'' 0 = Inr p \<and>
     revalidate Unix (\<lambda>_. Inr \<lparr>meta_type = FtFile, meta_len = 10, meta_modified = Inr 5, meta_dev = 1, meta_ino = 8\<rparr>) p \<noteq> Inr ()"
proof -
  let ?s0 = "\<lambda>_ :: path. Inr \<lparr>meta_type = FtFile, meta_len = 10, meta_modified = Inr 5, meta_dev = 1, meta_ino = 7\<rparr> :: metadata io"
    and ?s1 = "\<lambda>_ :: path. Inr \<lparr>meta_type = FtFile, meta_len = 10, meta_modified = Inr 5, meta_dev = 1, meta_ino = 8\<rparr> :: metadata io"
  obtain p where p: "pin_capture Unix ?s0 ''f'' 0 = Inr p" by (simp add: pin_capture_Inr)
  with pin_revalidate_decides [OF p, of ?s1] show ?thesis by simp
qed

text \<open>
  Claim C28: when revalidation fails, the reported kind follows the documented precedence
  (unreadable path, then file key, then size, then modification time), is never the reserved
  \<open>Rotated\<close>, and becomes an \<open>InvalidData\<close> error whose text names the kind.
\<close>

theorem pin_mismatch_precedence:
  assumes "pin_capture pf stat0 path flags = Inr p" "stat0 path = Inr m0" "revalidate pf stat1 p = Inl m"
  shows "pm_kind m \<noteq> Rotated \<and>
     (pm_kind m = MetadataUnavailable \<longleftrightarrow> (\<exists>e. stat1 path = Inl e)) \<and>
     (pm_kind m = Replaced \<longleftrightarrow> (\<exists>m1. stat1 path = Inr m1 \<and> key_changed pf flags m0 m1)) \<and>
     (pm_kind m = Truncated \<longleftrightarrow>
        (\<exists>m1. stat1 path = Inr m1 \<and> \<not> key_changed pf flags m0 m1 \<and> size_changed flags m0 m1)) \<and>
     (pm_kind m = MtimeJump \<longleftrightarrow>
        (\<exists>m1. stat1 path = Inr m1 \<and> \<not> key_changed pf flags m0 m1 \<and> \<not> size_changed flags m0 m1 \<and> mtime_changed flags m0 m1)) \<and>
     to_io_error m = \<lparr>err_kind = InvalidData,
        err_text = ''file identity changed ('' @ show_mismatch_kind (pm_kind m) @ ''): '' @ pm_detail m\<rparr>"
proof -
  have "unat flags < 8" "p = \<lparr>pin_path = path, pin_identity = capture_from_metadata pf m0, pin_flags = flags\<rparr>"
    using assms(1,2) by (auto simp: pin_capture_Inr)
  then have "Some (pm_kind m) = revalidate_verdict pf flags m0 (stat1 path)"
    using revalidate_captured [of flags pf stat1 path m0] assms(3) by (simp add: revalidate_kind_def)
  then show ?thesis
    by (cases "stat1 path")
      (auto simp: revalidate_verdict_def to_io_error_def io_err_def show_mismatch_def split: if_splits)
qed

theorem pin_mismatch_precedence_witness:
  "\<exists>p m. pin_capture Unix (\<lambda>_. Inr \<lparr>meta_type = FtFile, meta_len = 10, meta_modified = Inr 5, meta_dev = 1, meta_ino = 7\<rparr>) ''f'' 1 = Inr p \<and>
     revalidate Unix (\<lambda>_. Inr \<lparr>meta_type = FtFile, meta_len = 3, meta_modified = Inr 6, meta_dev = 1, meta_ino = 8\<rparr>) p = Inl m \<and>
     pm_kind m = Truncated"
proof -
  let ?m0 = "\<lparr>meta_type = FtFile, meta_len = 10, meta_modified = Inr 5, meta_dev = 1, meta_ino = 7\<rparr> :: metadata"
    and ?m1 = "\<lparr>meta_type = FtFile, meta_len = 3, meta_modified = Inr 6, meta_dev = 1, meta_ino = 8\<rparr> :: metadata"
  let ?p = "\<lparr>pin_path = ''f'', pin_identity = capture_from_metadata Unix ?m0, pin_flags = 1\<rparr>"
  have p: "pin_capture Unix (\<lambda>_. Inr ?m0) ''f'' 1 = Inr ?p" by (simp add: pin_capture_Inr)
  obtain m where m: "revalidate Unix (\<lambda>_. Inr ?m1) ?p = Inl m"
    using revalidate_captured [of 1 Unix "\<lambda>_. Inr ?m1" "''f''" ?m0]
    by (cases "revalidate Unix (\<lambda>_. Inr ?m1) ?p")
      (auto simp: revalidate_kind_def revalidate_verdict_def pin_changed_defs pin_enabled_def pin_consts)
  have "pm_kind m = Truncated"
    using pin_mismatch_precedence [OF p _ m] by (simp add: pin_changed_defs pin_enabled_def pin_consts)
  with p m show ?thesis by blast
qed

text \<open>
  Claim C29: capturing fails closed. It succeeds exactly when no unknown flag bit is set, the
  platform can enforce the request (an identity-only pin needs Unix), and the path can be read;
  a bad request is \<open>InvalidInput\<close> whatever the file system says, and a read error is passed on.
  A capture keeps the path and the flags as given and the identity then seen.
\<close>

theorem pin_capture_fails_closed:
  "((\<exists>p. pin_capture pf stat path flags = Inr p) \<longleftrightarrow>
      flags AND NOT PIN_ALL = 0 \<and> (pf = Unix \<or> flags \<noteq> PIN_IDENTITY) \<and> (\<exists>meta. stat path = Inr meta)) \<and>
   (flags AND NOT PIN_ALL = 0 \<longleftrightarrow> unat flags < 8) \<and>
   (flags AND NOT PIN_ALL \<noteq> 0 \<or> pf \<noteq> Unix \<and> flags = PIN_IDENTITY \<longrightarrow>
      (\<exists>e. pin_capture pf stat path flags = Inl e \<and> err_kind e = InvalidInput)) \<and>
   (flags AND NOT PIN_ALL = 0 \<and> (pf = Unix \<or> flags \<noteq> PIN_IDENTITY) \<and> stat path = Inl e \<longrightarrow>
      pin_capture pf stat path flags = Inl e) \<and>
   (\<forall>p. pin_capture pf stat path flags = Inr p \<longrightarrow>
      pinned_path p = path \<and> pinned_flags p = flags \<and>
      (\<exists>meta. stat path = Inr meta \<and> pinned_identity p = capture_from_metadata pf meta))"
proof -
  have k: "flags AND NOT PIN_ALL = 0 \<longleftrightarrow> unat flags < 8"
    using unknown_bits_iff [of flags] by (simp add: PIN_KNOWN_MASK_def)
  show ?thesis
    unfolding k using effective_flags_Inl [of flags] effective_flags_Inr_iff [of flags]
    by (auto simp: pin_capture_Inr pin_capture_def io_err_def pinned_path_def pinned_flags_def pinned_identity_def split: sum.split)
qed

theorem pin_capture_fails_closed_witness:
  "\<exists>e. pin_capture Windows (\<lambda>_. Inl (io_err NotFound ''gone'')) ''f'' 8 = Inl e \<and> err_kind e = InvalidInput"
proof -
  have "unat (8 :: 32 word) = 8" by simp
  then show ?thesis
    using pin_capture_fails_closed [of Windows "\<lambda>_. Inl (io_err NotFound ''gone'')" "''f''" 8] by simp
qed

end
