(* ===== verification/Os_Env.thy ===== *)
theory Os_Env
  imports File_Pin
begin

section \<open>The operating system interface\<close>

text \<open>
  The foreign functions that \<open>src/src/mmap.rs\<close> declares in its \<open>sys\<close> modules, as calls on an
  environment. The state of a run is its trace: the calls made so far with their results. The
  environment is a parameter: a function from the trace and a call to the result of the call, so
  every sequence of answers an operating system can give is some environment. Memory, file
  metadata and the last error are read from the environment at a trace in the same way.

  A call carries the arguments of the C declaration in its order, flags included, and returns a
  pair of integers: its return value, and the value written through an out parameter (used by
  \<open>GetFileSizeEx\<close> only). Pointers are integers; \<open>MAP_FAILED\<close> is \<open>-1\<close> and the null pointer is
  \<open>0\<close>. The first five constructors stand for what the standard library does for
  \<open>fs::metadata\<close>, \<open>fs::symlink_metadata\<close>, opening a file for reading (with a share mode on
  Windows), \<open>File::metadata\<close> and the positional read of a file.
\<close>

datatype syscall =
    SysStat path
  | SysLstat path
  | StdOpen path (std_share: "nat option")
  | SysFstat int
  | SysPread int nat nat
  | SysOpen (open_path: path) (open_flags: int)
  | SysClose int
  | SysLseek (lseek_fd: int) (lseek_offset: int) (lseek_whence: int)
  | SysMmap (mmap_addr: nat) (mmap_length: nat) (mmap_prot: int) (mmap_flags: int) (mmap_fd: int) (mmap_offset: int)
  | SysMunmap nat nat
  | SysMadvise (madvise_addr: nat) (madvise_length: nat) (madvise_advice: int)
  | CreateFileW (create_name: path) (create_access: nat) (create_share: nat) (create_security: nat)
      (create_disposition: nat) (create_attributes: nat) (create_template: int)
  | GetFileSizeEx int
  | CloseHandle int
  | CreateFileMappingW (section_file: int) (section_attributes: nat) (section_protect: nat)
      (section_size_high: nat) (section_size_low: nat) (section_name: nat)
  | MapViewOfFile (view_mapping: int) (view_access: nat) (view_high: nat) (view_low: nat) (view_bytes: nat)
  | UnmapViewOfFile nat

definition O_RDONLY :: int where "O_RDONLY = 0"
definition PROT_READ :: int where "PROT_READ = 1"
definition MAP_PRIVATE :: int where "MAP_PRIVATE = 2"
definition MADV_SEQUENTIAL :: int where "MADV_SEQUENTIAL = 2"
definition SEEK_END :: int where "SEEK_END = 2"

definition GENERIC_READ :: nat where "GENERIC_READ = 0x80000000"
definition FILE_SHARE_READ :: nat where "FILE_SHARE_READ = 0x00000001"
definition OPEN_EXISTING :: nat where "OPEN_EXISTING = 3"
definition FILE_ATTRIBUTE_NORMAL :: nat where "FILE_ATTRIBUTE_NORMAL = 0x00000080"
definition PAGE_READONLY :: nat where "PAGE_READONLY = 0x00000002"
definition FILE_MAP_READ :: nat where "FILE_MAP_READ = 0x00000004"

type_synonym event = "syscall \<times> int \<times> int"
type_synonym trace = "event list"

record os_env =
  env_sys :: "trace \<Rightarrow> syscall \<Rightarrow> int \<times> int"
  env_mem :: "trace \<Rightarrow> nat \<Rightarrow> byte"
  env_errno :: "trace \<Rightarrow> io_error"
  env_stat :: "trace \<Rightarrow> path \<Rightarrow> metadata io"
  env_lstat :: "trace \<Rightarrow> path \<Rightarrow> file_type io"
  env_fstat :: "trace \<Rightarrow> int \<Rightarrow> metadata io"
  env_pread :: "trace \<Rightarrow> int \<Rightarrow> nat \<Rightarrow> nat \<Rightarrow> bytes io"
  env_lossy :: "path \<Rightarrow> path"

definition MAP_FAILED :: int where "MAP_FAILED = -1"
definition INVALID_HANDLE_VALUE :: int where "INVALID_HANDLE_VALUE = -1"

definition sys_do :: "os_env \<Rightarrow> syscall \<Rightarrow> trace \<Rightarrow> trace" where
  "sys_do env c tr = tr @ [(c, env_sys env tr c)]"

definition sys_call :: "os_env \<Rightarrow> syscall \<Rightarrow> trace \<Rightarrow> (int \<times> int) \<times> trace" where
  "sys_call env c tr = (env_sys env tr c, sys_do env c tr)"

text \<open>\<open>usize::try_from(i64)\<close> on a 64-bit target.\<close>

definition usize_try_from :: "int \<Rightarrow> nat option" where
  "usize_try_from v = (if v < 0 then None else Some (nat v))"

text \<open>\<open>CString::new\<close> refuses an interior zero byte.\<close>

definition cstring_new :: "path \<Rightarrow> path io" where
  "cstring_new p =
     (case position (\<lambda>c. c = CHR 0x00) p of
        Some i \<Rightarrow> Inl (io_err InvalidInput (''nul byte found in provided data at position: '' @ show_nat i))
      | None \<Rightarrow> Inr p)"

subsection \<open>Calls that cannot modify a file\<close>

text \<open>
  The argument values with which a call can neither create, truncate nor write a file: an open for
  reading only, of an existing file, with a share mode (where there is one) that keeps other
  processes from writing; a private or read-only mapping at an address of the system's choice.
  Everything else the program calls has no way to write.
\<close>

fun read_only :: "syscall \<Rightarrow> bool" where
  "read_only (StdOpen p share) \<longleftrightarrow> share = None \<or> share = Some FILE_SHARE_READ"
| "read_only (SysOpen p flags) \<longleftrightarrow> flags = O_RDONLY"
| "read_only (SysMmap addr n prot flags fd off) \<longleftrightarrow> addr = 0 \<and> prot = PROT_READ \<and> flags = MAP_PRIVATE"
| "read_only (CreateFileW p access share security disposition attributes template) \<longleftrightarrow>
     access = GENERIC_READ \<and> share = FILE_SHARE_READ \<and> disposition = OPEN_EXISTING"
| "read_only (CreateFileMappingW h attributes protect hi lo name) \<longleftrightarrow>
     protect = PAGE_READONLY \<and> hi = 0 \<and> lo = 0 \<and> name = 0"
| "read_only (MapViewOfFile h access hi lo n) \<longleftrightarrow> access = FILE_MAP_READ"
| "read_only c \<longleftrightarrow> True"

subsection \<open>Resources held after a trace\<close>

text \<open>
  The open handles and live mappings that a sequence of events leaves, starting from given ones.
  The value is \<open>None\<close> when an event breaks the discipline of the interface: a call on a handle
  that is not open, an unmapping that does not match a live mapping, a second close, a call
  whose arguments would let it write.
\<close>

record resources =
  res_handles :: "int list"
  res_maps :: "(nat \<times> nat) list"

definition res_open :: "int \<Rightarrow> resources \<Rightarrow> resources" where
  "res_open h R = R\<lparr>res_handles := h # res_handles R\<rparr>"

definition res_map :: "nat \<Rightarrow> nat \<Rightarrow> resources \<Rightarrow> resources" where
  "res_map p n R = R\<lparr>res_maps := (p, n) # res_maps R\<rparr>"

definition res_close :: "int \<Rightarrow> resources \<Rightarrow> resources option" where
  "res_close h R = (if h \<in> set (res_handles R) then Some (R\<lparr>res_handles := remove1 h (res_handles R)\<rparr>) else None)"

definition res_unmap :: "(nat \<times> nat) option \<Rightarrow> resources \<Rightarrow> resources option" where
  "res_unmap m R =
     (case m of
        Some v \<Rightarrow> (if v \<in> set (res_maps R) then Some (R\<lparr>res_maps := remove1 v (res_maps R)\<rparr>) else None)
      | None \<Rightarrow> None)"

definition need_handle :: "int \<Rightarrow> resources \<Rightarrow> resources \<Rightarrow> resources option" where
  "need_handle h R R' = (if h \<in> set (res_handles R) then Some R' else None)"

fun res_step :: "event \<Rightarrow> resources \<Rightarrow> resources option" where
  "res_step (SysStat p, r) R = Some R"
| "res_step (SysLstat p, r) R = Some R"
| "res_step (StdOpen p share, r) R = Some (if fst r < 0 then R else res_open (fst r) R)"
| "res_step (SysFstat h, r) R = need_handle h R R"
| "res_step (SysPread h off n, r) R = need_handle h R R"
| "res_step (SysOpen p flags, r) R = Some (if fst r < 0 then R else res_open (fst r) R)"
| "res_step (SysClose h, r) R = res_close h R"
| "res_step (SysLseek h off whence, r) R = need_handle h R R"
| "res_step (SysMmap addr n prot flags h off, r) R =
     need_handle h R (if fst r = MAP_FAILED then R else res_map (nat (fst r)) n R)"
| "res_step (SysMunmap p n, r) R = res_unmap (Some (p, n)) R"
| "res_step (SysMadvise p n advice, r) R = (if (p, n) \<in> set (res_maps R) then Some R else None)"
| "res_step (CreateFileW p access share security disposition attributes template, r) R =
     Some (if fst r = INVALID_HANDLE_VALUE then R else res_open (fst r) R)"
| "res_step (GetFileSizeEx h, r) R = need_handle h R R"
| "res_step (CloseHandle h, r) R = res_close h R"
| "res_step (CreateFileMappingW h attributes protect hi lo name, r) R =
     need_handle h R (if fst r = 0 then R else res_open (fst r) R)"
| "res_step (MapViewOfFile h access hi lo n, r) R =
     need_handle h R (if fst r = 0 then R else res_map (nat (fst r)) n R)"
| "res_step (UnmapViewOfFile p, r) R = res_unmap (find (\<lambda>m. fst m = p) (res_maps R)) R"

definition res_event :: "event \<Rightarrow> resources \<Rightarrow> resources option" where
  "res_event e R = (if read_only (fst e) then res_step e R else None)"

lemma res_event_pair [simp]: "res_event (c, r) R = (if read_only c then res_step (c, r) R else None)"
  by (simp add: res_event_def)

fun run_res :: "trace \<Rightarrow> resources \<Rightarrow> resources option" where
  "run_res [] R = Some R"
| "run_res (e # es) R = (case res_event e R of None \<Rightarrow> None | Some R' \<Rightarrow> run_res es R')"

lemma run_res_append:
  "run_res (es @ fs) R = (case run_res es R of None \<Rightarrow> None | Some R' \<Rightarrow> run_res fs R')"
  by (induction es R rule: run_res.induct) (auto split: option.split)

lemma run_res_do [simp]:
  "run_res (sys_do env c tr) R = Option.bind (run_res tr R) (res_event (c, env_sys env tr c))"
  by (auto simp: sys_do_def run_res_append split: option.split)

text \<open>A run whose resources are accounted for never made a call that could write.\<close>

lemma run_res_read_only: "run_res tr R = Some R' \<Longrightarrow> e \<in> set tr \<Longrightarrow> read_only (fst e)"
  by (induction tr arbitrary: R) (auto simp: res_event_def split: option.splits if_splits)

lemmas res_defs = res_open_def res_map_def res_close_def res_unmap_def need_handle_def

subsection \<open>What the program relies on\<close>

text \<open>The traces an environment produces for a process that only reads.\<close>

definition env_trace :: "os_env \<Rightarrow> trace \<Rightarrow> bool" where
  "env_trace env tr \<longleftrightarrow>
     (\<forall>k<length tr. snd (tr ! k) = env_sys env (take k tr) (fst (tr ! k))) \<and> (\<forall>e\<in>set tr. read_only (fst e))"

lemma env_trace_Nil [simp]: "env_trace env []"
  by (simp add: env_trace_def)

lemma env_trace_snoc [simp]:
  "env_trace env (tr @ [(c, r)]) \<longleftrightarrow> env_trace env tr \<and> r = env_sys env tr c \<and> read_only c"
  by (auto simp: env_trace_def nth_append less_Suc_eq)

lemma env_trace_sys [simp]: "env_trace env (sys_do env c tr) \<longleftrightarrow> env_trace env tr \<and> read_only c"
  by (simp add: sys_do_def)

lemma env_trace_prefix: "env_trace env (tr @ evs) \<Longrightarrow> env_trace env tr"
proof (induction evs rule: rev_induct)
  case (snoc e evs)
  then show ?case by (cases e) (simp flip: append_assoc)
qed simp

text \<open>The file that an open handle refers to.\<close>

fun handle_event :: "event \<Rightarrow> (int \<Rightarrow> path option) \<Rightarrow> (int \<Rightarrow> path option)" where
  "handle_event (StdOpen p share, r) m = (if fst r < 0 then m else m(fst r := Some p))"
| "handle_event (SysOpen p flags, r) m = (if fst r < 0 then m else m(fst r := Some p))"
| "handle_event (CreateFileW p access share security disposition attributes template, r) m =
     (if fst r = INVALID_HANDLE_VALUE then m else m(fst r := Some p))"
| "handle_event (CreateFileMappingW h attributes protect hi lo name, r) m =
     (if fst r = 0 then m else m(fst r := m h))"
| "handle_event (SysClose h, r) m = m(h := None)"
| "handle_event (CloseHandle h, r) m = m(h := None)"
| "handle_event (c, r) m = m"

definition handle_path :: "trace \<Rightarrow> int \<Rightarrow> path option" where
  "handle_path tr = fold handle_event tr (\<lambda>_. None)"

lemma handle_path_do [simp]:
  "handle_path (sys_do env c tr) = handle_event (c, env_sys env tr c) (handle_path tr)"
  by (simp add: handle_path_def sys_do_def)

fun unmaps :: "nat \<Rightarrow> event \<Rightarrow> bool" where
  "unmaps p (SysMunmap q n, r) \<longleftrightarrow> q = p"
| "unmaps p (UnmapViewOfFile q, r) \<longleftrightarrow> q = p"
| "unmaps p (c, r) \<longleftrightarrow> False"

text \<open>
  A mapping of \<open>n\<close> bytes at address \<open>p\<close>, made by the last event of \<open>tr\<close>, shows \<open>content\<close> until
  it is unmapped.
\<close>

definition shows_content :: "os_env \<Rightarrow> trace \<Rightarrow> nat \<Rightarrow> nat \<Rightarrow> bytes \<Rightarrow> bool" where
  "shows_content env tr p n content \<longleftrightarrow>
     (\<forall>later. env_trace env (tr @ later) \<and> (\<forall>e\<in>set later. \<not> unmaps p e) \<longrightarrow>
        (\<forall>i<min n (length content). env_mem env (tr @ later) (p + i) = content ! i))"

text \<open>
  The documented behaviour of the mapping calls on files that nobody modifies (\<open>files\<close> gives the
  contents of each path), for calls that only read: sizes are those of the file and fit a signed 64-bit offset; a mapping
  is never placed at address zero or at the address of a live mapping, and shows the file from
  the requested offset; a positional read returns a prefix of the bytes from its offset, empty
  only at the end of the file; valid handles are not zero; a path with a zero character has no
  metadata. Calls may fail at any time.
\<close>

definition sizes_ok :: "os_env \<Rightarrow> (path \<Rightarrow> bytes) \<Rightarrow> trace \<Rightarrow> bool" where
  "sizes_ok env files tr \<longleftrightarrow>
     (\<forall>h p. handle_path tr h = Some p \<longrightarrow>
        length (files p) \<le> isize_max \<and>
        fst (env_sys env tr (SysLseek h 0 SEEK_END)) \<in> {-1, int (length (files p))} \<and>
        (fst (env_sys env tr (GetFileSizeEx h)) \<noteq> 0 \<longrightarrow>
           snd (env_sys env tr (GetFileSizeEx h)) = int (length (files p))))"

definition mmap_ok :: "os_env \<Rightarrow> (path \<Rightarrow> bytes) \<Rightarrow> trace \<Rightarrow> bool" where
  "mmap_ok env files tr \<longleftrightarrow>
     (\<forall>h p n off. let c = SysMmap 0 n PROT_READ MAP_PRIVATE h (int off); r = fst (env_sys env tr c) in
        handle_path tr h = Some p \<and> r \<noteq> MAP_FAILED \<longrightarrow>
          0 < r \<and> shows_content env (sys_do env c tr) (nat r) n (drop off (files p)))"

definition view_ok :: "os_env \<Rightarrow> (path \<Rightarrow> bytes) \<Rightarrow> trace \<Rightarrow> bool" where
  "view_ok env files tr \<longleftrightarrow>
     (\<forall>h p hi lo n. let c = MapViewOfFile h FILE_MAP_READ hi lo n; r = fst (env_sys env tr c); off = hi * 2 ^ 32 + lo in
        handle_path tr h = Some p \<and> r \<noteq> 0 \<longrightarrow>
          0 < r \<and>
          shows_content env (sys_do env c tr) (nat r) (if n = 0 then length (files p) else n) (drop off (files p)))"

definition handles_ok :: "os_env \<Rightarrow> trace \<Rightarrow> bool" where
  "handles_ok env tr \<longleftrightarrow> (\<forall>p. fst (env_sys env tr (CreateFileW p GENERIC_READ FILE_SHARE_READ 0 OPEN_EXISTING FILE_ATTRIBUTE_NORMAL 0)) \<noteq> 0)"

text \<open>The address of a new mapping is not that of a live one.\<close>

fun is_map :: "syscall \<Rightarrow> bool" where
  "is_map (SysMmap addr n prot flags h off) \<longleftrightarrow> True"
| "is_map (MapViewOfFile h access hi lo n) \<longleftrightarrow> True"
| "is_map c \<longleftrightarrow> False"

definition fresh_ok :: "os_env \<Rightarrow> trace \<Rightarrow> bool" where
  "fresh_ok env tr \<longleftrightarrow>
     (\<forall>k<length tr. \<forall>c. is_map (fst (tr ! k)) \<and> is_map c \<and>
        0 < fst (snd (tr ! k)) \<and> (\<forall>e\<in>set (drop k tr). \<not> unmaps (nat (fst (snd (tr ! k)))) e) \<longrightarrow>
        fst (env_sys env tr c) \<noteq> fst (snd (tr ! k)))"

definition pread_ok :: "os_env \<Rightarrow> (path \<Rightarrow> bytes) \<Rightarrow> trace \<Rightarrow> bool" where
  "pread_ok env files tr \<longleftrightarrow>
     (\<forall>h p off n bs. handle_path tr h = Some p \<and> env_pread env tr h off n = Inr bs \<longrightarrow>
        length bs \<le> n \<and> bs = take (length bs) (drop off (files p)) \<and> (bs = [] \<longrightarrow> n = 0 \<or> length (files p) \<le> off)) \<and>
     (\<forall>h p meta. handle_path tr h = Some p \<and> env_fstat env tr h = Inr meta \<longrightarrow> meta_len meta = length (files p))"

definition nul_ok :: "os_env \<Rightarrow> trace \<Rightarrow> bool" where
  "nul_ok env tr \<longleftrightarrow> (\<forall>path. CHR 0x00 \<in> set path \<longrightarrow> (\<exists>e. env_lstat env tr path = Inl e))"

definition os_contract :: "os_env \<Rightarrow> (path \<Rightarrow> bytes) \<Rightarrow> bool" where
  "os_contract env files \<longleftrightarrow>
     (\<forall>tr. env_trace env tr \<longrightarrow>
        sizes_ok env files tr \<and> mmap_ok env files tr \<and> view_ok env files tr \<and> handles_ok env tr \<and> fresh_ok env tr \<and>
        pread_ok env files tr \<and> nul_ok env tr)"


lemma os_contractD:
  assumes "os_contract env files" "env_trace env tr"
  shows "sizes_ok env files tr" "mmap_ok env files tr" "view_ok env files tr" "handles_ok env tr" "fresh_ok env tr"
    "pread_ok env files tr" "nul_ok env tr"
  using assms by (simp_all add: os_contract_def)

lemma shows_content_later:
  assumes "shows_content env tr p n content" "env_trace env (tr @ later)" "\<forall>e\<in>set later. \<not> unmaps p e" "i < n" "i < length content"
  shows "env_mem env (tr @ later) (p + i) = content ! i"
  using assms by (simp add: shows_content_def)


lemma lseek_contract:
  assumes "os_contract env files" "env_trace env tr" "handle_path tr h = Some p"
    "usize_try_from (fst (env_sys env tr (SysLseek h 0 SEEK_END))) = Some n"
  shows "n = length (files p) \<and> n \<le> isize_max"
  using os_contractD(1) [OF assms(1,2)] assms(3,4) unfolding sizes_ok_def usize_try_from_def
  by (fastforce split: if_splits)

lemma file_size_contract:
  assumes "os_contract env files" "env_trace env tr" "handle_path tr h = Some p"
    "fst (env_sys env tr (GetFileSizeEx h)) \<noteq> 0" "usize_try_from (snd (env_sys env tr (GetFileSizeEx h))) = Some n"
  shows "n = length (files p) \<and> n \<le> isize_max"
  using os_contractD(1) [OF assms(1,2)] assms(3,4,5) unfolding sizes_ok_def usize_try_from_def
  by (fastforce split: if_splits)

lemma mmap_contract:
  assumes "os_contract env files" "env_trace env tr" "handle_path tr h = Some p"
    "fst (env_sys env tr (SysMmap 0 n PROT_READ MAP_PRIVATE h (int off))) \<noteq> MAP_FAILED"
  shows "0 < fst (env_sys env tr (SysMmap 0 n PROT_READ MAP_PRIVATE h (int off))) \<and>
     shows_content env (sys_do env (SysMmap 0 n PROT_READ MAP_PRIVATE h (int off)) tr) (nat (fst (env_sys env tr (SysMmap 0 n PROT_READ MAP_PRIVATE h (int off))))) n
       (drop off (files p))"
  using os_contractD(2) [OF assms(1,2)] assms(3,4) unfolding mmap_ok_def Let_def by blast

lemma view_contract:
  assumes "os_contract env files" "env_trace env tr" "handle_path tr h = Some p"
    "fst (env_sys env tr (MapViewOfFile h FILE_MAP_READ hi lo n)) \<noteq> 0"
  shows "0 < fst (env_sys env tr (MapViewOfFile h FILE_MAP_READ hi lo n)) \<and>
     shows_content env (sys_do env (MapViewOfFile h FILE_MAP_READ hi lo n) tr) (nat (fst (env_sys env tr (MapViewOfFile h FILE_MAP_READ hi lo n))))
       (if n = 0 then length (files p) else n) (drop (hi * 2 ^ 32 + lo) (files p))"
  using os_contractD(3) [OF assms(1,2)] assms(3,4) unfolding view_ok_def Let_def by blast


text \<open>A mapping made earlier in the trace and not released since.\<close>

definition live_map :: "os_env \<Rightarrow> bytes \<Rightarrow> nat \<Rightarrow> nat \<Rightarrow> trace \<Rightarrow> bool" where
  "live_map env content p n tr \<longleftrightarrow>
     (\<exists>t0 c later. tr = sys_do env c t0 @ later \<and> is_map c \<and> fst (env_sys env t0 c) = int p \<and> 0 < p \<and>
        shows_content env (sys_do env c t0) p n content \<and> (\<forall>e\<in>set later. \<not> unmaps p e))"

lemma live_map_do: "live_map env content p n tr \<Longrightarrow> \<not> unmaps p (c, env_sys env tr c) \<Longrightarrow> live_map env content p n (sys_do env c tr)"
  unfolding live_map_def by (fastforce simp: sys_do_def)

lemma live_map_new:
  "is_map c \<Longrightarrow> 0 < fst (env_sys env tr c) \<Longrightarrow>
     shows_content env (sys_do env c tr) (nat (fst (env_sys env tr c))) n content \<Longrightarrow>
     live_map env content (nat (fst (env_sys env tr c))) n (sys_do env c tr)"
  unfolding live_map_def by (intro exI [of _ tr] exI [of _ c] exI [of _ "[]"]) simp

lemma live_map_read:
  "live_map env content p n tr \<Longrightarrow> env_trace env tr \<Longrightarrow> i < n \<Longrightarrow> i < length content \<Longrightarrow> env_mem env tr (p + i) = content ! i"
  unfolding live_map_def using shows_content_later by blast

lemma live_map_fresh:
  assumes "os_contract env files" "env_trace env tr" "live_map env content p n tr" "is_map c"
  shows "fst (env_sys env tr c) \<noteq> int p"
proof -
  obtain t0 c0 later where t: "tr = sys_do env c0 t0 @ later" "is_map c0" "fst (env_sys env t0 c0) = int p" "0 < p"
    "\<forall>e\<in>set later. \<not> unmaps p e"
    using assms(3) by (auto simp: live_map_def)
  have "tr ! length t0 = (c0, env_sys env t0 c0)" "length t0 < length tr"
    "set (drop (length t0) tr) = insert (c0, env_sys env t0 c0) (set later)"
    by (simp_all add: t(1) sys_do_def)
  moreover have "\<not> unmaps p (c0, env_sys env t0 c0)" using t(2) by (cases c0) auto
  ultimately show ?thesis
    using os_contractD(5) [OF assms(1,2)] t assms(4) unfolding fresh_ok_def
    by (metis (no_types, lifting) fst_conv insert_iff nat_int of_nat_0_less_iff snd_conv)
qed

end
