(* ===== verification/Os_Sim.thy ===== *)
theory Os_Sim
  imports Os_Env
begin

section \<open>A simulated operating system\<close>

text \<open>
  A concrete environment that satisfies \<open>os_contract\<close>: every open succeeds with a new handle,
  every mapping below a size limit succeeds at a new address, and memory shows the mapped file.
  It serves as the concrete input of the witnesses; no theorem about the program assumes it.
\<close>

definition sim_unit :: nat where "sim_unit = 2 ^ 40"

definition sim_addr :: "trace \<Rightarrow> int" where
  "sim_addr tr = int ((length tr + 1) * sim_unit)"

fun sim_sys :: "(path \<Rightarrow> bytes) \<Rightarrow> trace \<Rightarrow> syscall \<Rightarrow> int \<times> int" where
  "sim_sys files tr (StdOpen p share) = (3 + int (length tr), 0)"
| "sim_sys files tr (SysOpen p flags) = (3 + int (length tr), 0)"
| "sim_sys files tr (CreateFileW p access share security disposition attributes template) = (3 + int (length tr), 0)"
| "sim_sys files tr (SysLseek h off whence) =
     (case handle_path tr h of Some p \<Rightarrow> (int (length (files p)), 0) | None \<Rightarrow> (-1, 0))"
| "sim_sys files tr (GetFileSizeEx h) =
     (case handle_path tr h of Some p \<Rightarrow> (1, int (length (files p))) | None \<Rightarrow> (0, 0))"
| "sim_sys files tr (SysMmap addr n prot flags h off) =
     (case handle_path tr h of Some p \<Rightarrow> (if n < sim_unit \<and> 0 \<le> off then (sim_addr tr, 0) else (-1, 0)) | None \<Rightarrow> (-1, 0))"
| "sim_sys files tr (CreateFileMappingW h attributes protect hi lo name) = (3 + int (length tr), 0)"
| "sim_sys files tr (MapViewOfFile h access hi lo n) =
     (case handle_path tr h of Some p \<Rightarrow> (if n < sim_unit then (sim_addr tr, 0) else (0, 0)) | None \<Rightarrow> (0, 0))"
| "sim_sys files tr c = (0, 0)"

definition sim_mem :: "(path \<Rightarrow> bytes) \<Rightarrow> trace \<Rightarrow> nat \<Rightarrow> byte" where
  "sim_mem files tr a =
     (let k = a div sim_unit - 1; i = a mod sim_unit in
      case fst (tr ! k) of
        SysMmap addr n prot flags h off \<Rightarrow> files (the (handle_path (take k tr) h)) ! (nat off + i)
      | MapViewOfFile h access hi lo n \<Rightarrow> files (the (handle_path (take k tr) h)) ! (hi * 2 ^ 32 + lo + i)
      | _ \<Rightarrow> 0)"

definition sim_env :: "(path \<Rightarrow> bytes) \<Rightarrow> os_env" where
  "sim_env files =
     \<lparr>env_sys = sim_sys files, env_mem = sim_mem files, env_errno = (\<lambda>_. io_err (OsKind 5) ''os error''),
      env_stat = (\<lambda>tr p. Inr \<lparr>meta_type = FtFile, meta_len = length (files p), meta_modified = Inr 0, meta_dev = 1, meta_ino = 1\<rparr>),
      env_lstat = (\<lambda>tr p. if CHR 0x00 \<in> set p then Inl (io_err InvalidInput ''nul'') else Inr FtFile),
      env_fstat = (\<lambda>tr h. case handle_path tr h of
         Some p \<Rightarrow> Inr \<lparr>meta_type = FtFile, meta_len = length (files p), meta_modified = Inr 0, meta_dev = 1, meta_ino = 1\<rparr>
       | None \<Rightarrow> Inl (io_err (OsKind 9) ''bad descriptor'')),
      env_pread = (\<lambda>tr h off n. case handle_path tr h of
         Some p \<Rightarrow> Inr (take n (drop off (files p)))
       | None \<Rightarrow> Inl (io_err (OsKind 9) ''bad descriptor'')),
      env_lossy = (\<lambda>p. p)\<rparr>"

lemma sim_env_sel [simp]:
  "env_sys (sim_env files) = sim_sys files" "env_mem (sim_env files) = sim_mem files"
  "env_lossy (sim_env files) p = p" "CHR 0x00 \<notin> set p \<Longrightarrow> env_lstat (sim_env files) tr p = Inr FtFile"
  "env_stat (sim_env files) tr p = Inr \<lparr>meta_type = FtFile, meta_len = length (files p), meta_modified = Inr 0, meta_dev = 1, meta_ino = 1\<rparr>"
  by (simp_all add: sim_env_def)

lemma sim_unit_pos: "0 < sim_unit"
  by (simp add: sim_unit_def)

lemma sim_addr_pos: "0 < sim_addr tr"
  by (simp add: sim_addr_def sim_unit_def)

lemma sim_decode: "i < sim_unit \<Longrightarrow> (nat (sim_addr tr) + i) div sim_unit - 1 = length tr \<and> (nat (sim_addr tr) + i) mod sim_unit = i"
proof -
  assume i: "i < sim_unit"
  have "nat (sim_addr tr) + i = i + (length tr + 1) * sim_unit" unfolding sim_addr_def nat_int by (rule add.commute)
  moreover have "(i + (length tr + 1) * sim_unit) div sim_unit = length tr + 1"
    "(i + (length tr + 1) * sim_unit) mod sim_unit = i"
    using i sim_unit_pos div_mult_self1 [of sim_unit i "length tr + 1"] mod_mult_self1 [of i "length tr + 1" sim_unit]
    by simp_all
  ultimately show ?thesis by (simp only: add_diff_cancel_right' simp_thms)
qed

lemma sim_mem_at:
  "i < sim_unit \<Longrightarrow> sim_mem files (tr @ e # later) (nat (sim_addr tr) + i) =
     (case fst e of
        SysMmap addr n prot flags h off \<Rightarrow> files (the (handle_path tr h)) ! (nat off + i)
      | MapViewOfFile h access hi lo n \<Rightarrow> files (the (handle_path tr h)) ! (hi * 2 ^ 32 + lo + i)
      | _ \<Rightarrow> 0)"
  using sim_decode [of i tr] by (auto simp: sim_mem_def Let_def split: syscall.split)

lemma sim_mapping_result:
  assumes "is_map c"
  shows "fst (sim_sys files tr c) = sim_addr tr \<or> fst (sim_sys files tr c) \<le> 0"
  using assms by (cases c) (auto split: option.split)

lemma sim_addr_inj: "length tr < length tr' \<Longrightarrow> sim_addr tr \<noteq> sim_addr tr'"
  using sim_unit_pos by (simp add: sim_addr_def)

lemma sim_fresh: "env_trace (sim_env files) tr \<Longrightarrow> fresh_ok (sim_env files) tr"
  unfolding fresh_ok_def
proof (intro allI impI, elim conjE)
  fix k c
  assume tr: "env_trace (sim_env files) tr" and k: "k < length tr"
    and m: "is_map (fst (tr ! k))" and c: "is_map c"
    and pos: "0 < fst (snd (tr ! k))"
  have "snd (tr ! k) = sim_sys files (take k tr) (fst (tr ! k))" using tr k by (simp add: env_trace_def)
  then have r: "fst (snd (tr ! k)) = sim_addr (take k tr)" using sim_mapping_result [OF m, of files "take k tr"] pos by auto
  have "sim_addr (take k tr) \<noteq> sim_addr tr" using k by (intro sim_addr_inj) simp
  with r pos sim_mapping_result [OF c, of files tr] show "fst (env_sys (sim_env files) tr c) \<noteq> fst (snd (tr ! k))" by auto
qed

lemma sim_contract:
  assumes "\<And>p. length (files p) < sim_unit"
  shows "os_contract (sim_env files) files"
  unfolding os_contract_def
proof (intro allI impI conjI)
  fix tr
  assume t: "env_trace (sim_env files) tr"
  have le: "length (files p) \<le> isize_max" for p
    using assms [of p] by (simp add: sim_unit_def max_consts)
  show "sizes_ok (sim_env files) files tr" using le by (auto simp: sizes_ok_def)
  show "mmap_ok (sim_env files) files tr"
    using sim_addr_pos [of tr]
    by (auto simp: mmap_ok_def Let_def MAP_FAILED_def shows_content_def sys_do_def sim_mem_at split: if_splits)
  show "view_ok (sim_env files) files tr"
    using sim_addr_pos [of tr] assms
    by (auto simp: view_ok_def Let_def shows_content_def sys_do_def sim_mem_at less_trans [OF _ assms] split: if_splits)
  show "handles_ok (sim_env files) tr" by (simp add: handles_ok_def)
  show "fresh_ok (sim_env files) tr" using t by (rule sim_fresh)
  show "pread_ok (sim_env files) files tr" by (auto simp: pread_ok_def sim_env_def min_def split: if_splits)
  show "nul_ok (sim_env files) tr" by (simp add: nul_ok_def sim_env_def)
qed

end
