(* ===== verification/Mmap_File.thy ===== *)
theory Mmap_File
  imports Os_Sim "HOL-Library.Multiset"
begin

section \<open>Whole-file mappings\<close>

text \<open>
  \<open>probe_mmap_eligible\<close> and \<open>MmapFile\<close> of \<open>src/src/mmap.rs\<close>, on both platform families. Every
  operation takes the trace of the run and returns the extended trace.
\<close>

subsection \<open>The eligibility probe\<close>

definition probe_verdict :: "platform \<Rightarrow> file_type \<Rightarrow> unit io" where
  "probe_verdict pf ft =
     (if ft = FtDir then Inl (io_err InvalidInput ''not a regular file: is a directory'')
      else if pf = Unix \<and> ft = FtFifo then Inl (io_err InvalidInput ''not a regular file: is a fifo'')
      else if pf = Unix \<and> ft = FtSocket then Inl (io_err InvalidInput ''not a regular file: is a socket'')
      else if ft = FtFile then Inr ()
      else Inl (io_err InvalidInput ''not a regular file: unsupported file type''))"

definition probe_mmap_eligible :: "platform \<Rightarrow> os_env \<Rightarrow> path \<Rightarrow> trace \<Rightarrow> unit io \<times> trace" where
  "probe_mmap_eligible pf env path tr =
     (let link = env_lstat env tr path;
          tr1 = sys_do env (SysLstat path) tr
      in case link of
           Inl e \<Rightarrow> (Inl e, tr1)
         | Inr link_type \<Rightarrow>
             if link_type = FtSymlink then
               (case env_stat env tr1 path of
                  Inl e \<Rightarrow> (Inl e, sys_do env (SysStat path) tr1)
                | Inr meta \<Rightarrow> (probe_verdict pf (meta_type meta), sys_do env (SysStat path) tr1))
             else (probe_verdict pf link_type, tr1))"

text \<open>A C string is its bytes before the terminating zero; Windows reads it as lossy UTF-8.\<close>

definition probe_cstr_eligible :: "platform \<Rightarrow> os_env \<Rightarrow> path \<Rightarrow> trace \<Rightarrow> unit io \<times> trace" where
  "probe_cstr_eligible pf env path tr =
     (let owned = (if pf = Unix then path else env_lossy env path) in probe_mmap_eligible pf env owned tr)"

subsection \<open>Opening and closing\<close>

datatype os_handles = UnixFd int | WinHandles (win_file: int) (win_mapping: int)

record mmap_file =
  mf_ptr :: nat
  mf_size :: nat
  mf_handles :: os_handles

definition open_unix :: "os_env \<Rightarrow> path \<Rightarrow> trace \<Rightarrow> mmap_file option \<times> trace" where
  "open_unix env path tr =
     (let (r, tr1) = sys_call env (SysOpen path O_RDONLY) tr; fd = fst r in
      if fd < 0 then (None, tr1)
      else
        let (r, tr2) = sys_call env (SysLseek fd 0 SEEK_END) tr1 in
        case usize_try_from (fst r) of
          None \<Rightarrow> (None, sys_do env (SysClose fd) tr2)
        | Some sz \<Rightarrow>
            if sz = 0 then (Some \<lparr>mf_ptr = 0, mf_size = 0, mf_handles = UnixFd (-1)\<rparr>, sys_do env (SysClose fd) tr2)
            else
              let (r, tr3) = sys_call env (SysMmap 0 sz PROT_READ MAP_PRIVATE fd 0) tr2; ptr = fst r in
              if ptr = MAP_FAILED then (None, sys_do env (SysClose fd) tr3)
              else (Some \<lparr>mf_ptr = nat ptr, mf_size = sz, mf_handles = UnixFd fd\<rparr>, tr3))"

text \<open>A wide path ends at its first zero unit.\<close>

definition open_windows_wide :: "os_env \<Rightarrow> path \<Rightarrow> trace \<Rightarrow> mmap_file option \<times> trace" where
  "open_windows_wide env wide_path tr =
     (let (r, tr1) = sys_call env
            (CreateFileW (takeWhile (\<lambda>c. c \<noteq> CHR 0x00) wide_path) GENERIC_READ FILE_SHARE_READ 0
               OPEN_EXISTING FILE_ATTRIBUTE_NORMAL 0) tr; fh = fst r in
      if fh = INVALID_HANDLE_VALUE then (None, tr1)
      else
        let (r, tr2) = sys_call env (GetFileSizeEx fh) tr1 in
        if fst r = 0 then (None, sys_do env (CloseHandle fh) tr2)
        else
          case usize_try_from (snd r) of
            None \<Rightarrow> (None, sys_do env (CloseHandle fh) tr2)
          | Some sz \<Rightarrow>
              if sz = 0 then (Some \<lparr>mf_ptr = 0, mf_size = 0, mf_handles = WinHandles 0 0\<rparr>, sys_do env (CloseHandle fh) tr2)
              else
                let (r, tr3) = sys_call env (CreateFileMappingW fh 0 PAGE_READONLY 0 0 0) tr2; mh = fst r in
                if mh = 0 then (None, sys_do env (CloseHandle fh) tr3)
                else
                  let (r, tr4) = sys_call env (MapViewOfFile mh FILE_MAP_READ 0 0 0) tr3; ptr = fst r in
                  if ptr = 0 then (None, sys_do env (CloseHandle fh) (sys_do env (CloseHandle mh) tr4))
                  else (Some \<lparr>mf_ptr = nat ptr, mf_size = sz, mf_handles = WinHandles fh mh\<rparr>, tr4))"

definition open_windows :: "os_env \<Rightarrow> path \<Rightarrow> trace \<Rightarrow> mmap_file option \<times> trace" where
  "open_windows env path tr = open_windows_wide env (env_lossy env path) tr"

definition mmap_open :: "platform \<Rightarrow> os_env \<Rightarrow> path \<Rightarrow> trace \<Rightarrow> mmap_file option \<times> trace" where
  "mmap_open pf env path tr =
     (case probe_cstr_eligible pf env path tr of
        (Inl e, tr1) \<Rightarrow> (None, tr1)
      | (Inr _, tr1) \<Rightarrow> (if pf = Unix then open_unix env path tr1 else open_windows env path tr1))"

definition open_failed :: io_error where
  "open_failed = io_err OtherKind ''failed to open or map file''"

definition option_to_io :: "'a option \<times> trace \<Rightarrow> 'a io \<times> trace" where
  "option_to_io r = (case r of (None, tr) \<Rightarrow> (Inl open_failed, tr) | (Some f, tr) \<Rightarrow> (Inr f, tr))"

definition mmap_open_path :: "platform \<Rightarrow> os_env \<Rightarrow> path \<Rightarrow> trace \<Rightarrow> mmap_file io \<times> trace" where
  "mmap_open_path pf env path tr =
     (case probe_mmap_eligible pf env path tr of
        (Inl e, tr1) \<Rightarrow> (Inl e, tr1)
      | (Inr _, tr1) \<Rightarrow>
          if pf = Unix then
            (case cstring_new path of
               Inl e \<Rightarrow> (Inl e, tr1)
             | Inr c_str \<Rightarrow> option_to_io (mmap_open pf env c_str tr1))
          else option_to_io (open_windows_wide env path tr1))"

definition mmap_as_ptr :: "mmap_file \<Rightarrow> nat" where
  "mmap_as_ptr f = mf_ptr f"

definition mmap_len :: "mmap_file \<Rightarrow> nat" where
  "mmap_len f = mf_size f"

definition mmap_is_empty :: "mmap_file \<Rightarrow> bool" where
  "mmap_is_empty f \<longleftrightarrow> mf_size f = 0"

text \<open>\<open>slice::from_raw_parts\<close>\<close>

definition read_mem :: "os_env \<Rightarrow> trace \<Rightarrow> nat \<Rightarrow> nat \<Rightarrow> bytes" where
  "read_mem env tr p n = map (\<lambda>i. env_mem env tr (p + i)) [0..<n]"

definition mmap_as_bytes :: "os_env \<Rightarrow> trace \<Rightarrow> mmap_file \<Rightarrow> bytes" where
  "mmap_as_bytes env tr f =
     (if mf_ptr f = 0 \<or> mf_size f = 0 then [] else read_mem env tr (mf_ptr f) (mf_size f))"

definition mmap_as_slice :: "os_env \<Rightarrow> trace \<Rightarrow> mmap_file \<Rightarrow> bytes" where
  "mmap_as_slice env tr f = mmap_as_bytes env tr f"

definition advise_sequential :: "platform \<Rightarrow> os_env \<Rightarrow> mmap_file \<Rightarrow> trace \<Rightarrow> trace" where
  "advise_sequential pf env f tr =
     (if mf_ptr f = 0 \<or> mf_size f = 0 then tr
      else if pf = Unix then sys_do env (SysMadvise (mf_ptr f) (mf_size f) MADV_SEQUENTIAL) tr
      else tr)"

definition close_win_file :: "os_env \<Rightarrow> int \<Rightarrow> trace \<Rightarrow> trace" where
  "close_win_file env h tr =
     (if h \<noteq> 0 \<and> h \<noteq> INVALID_HANDLE_VALUE then sys_do env (CloseHandle h) tr else tr)"

definition close_win_mapping :: "os_env \<Rightarrow> int \<Rightarrow> trace \<Rightarrow> trace" where
  "close_win_mapping env h tr = (if h \<noteq> 0 then sys_do env (CloseHandle h) tr else tr)"

definition close_fd :: "os_env \<Rightarrow> int \<Rightarrow> trace \<Rightarrow> trace" where
  "close_fd env fd tr = (if fd \<ge> 0 then sys_do env (SysClose fd) tr else tr)"

definition mmap_drop :: "os_env \<Rightarrow> mmap_file \<Rightarrow> trace \<Rightarrow> trace" where
  "mmap_drop env f tr =
     (case mf_handles f of
        UnixFd fd \<Rightarrow>
          close_fd env fd (if mf_ptr f \<noteq> 0 \<and> mf_size f > 0 then sys_do env (SysMunmap (mf_ptr f) (mf_size f)) tr else tr)
      | WinHandles fh mh \<Rightarrow>
          close_win_file env fh (close_win_mapping env mh
            (if mf_ptr f \<noteq> 0 then sys_do env (UnmapViewOfFile (mf_ptr f)) tr else tr)))"


subsection \<open>No operation leaks or double-frees a resource\<close>

text \<open>The resources a mapped file owns, on top of the others.\<close>

definition file_res :: "mmap_file \<Rightarrow> resources \<Rightarrow> resources" where
  "file_res f R =
     (if mf_size f = 0 then R
      else case mf_handles f of
             UnixFd fd \<Rightarrow> res_map (mf_ptr f) (mf_size f) (res_open fd R)
           | WinHandles fh mh \<Rightarrow> res_map (mf_ptr f) 0 (res_open mh (res_open fh R)))"

text \<open>The values that \<open>drop\<close> recognises as owned.\<close>

definition file_shape :: "mmap_file \<Rightarrow> bool" where
  "file_shape f \<longleftrightarrow>
     (if mf_size f = 0 then mf_ptr f = 0 \<and> (mf_handles f = UnixFd (-1) \<or> mf_handles f = WinHandles 0 0)
      else mf_ptr f \<noteq> 0 \<and>
           (case mf_handles f of
              UnixFd fd \<Rightarrow> fd \<ge> 0
            | WinHandles fh mh \<Rightarrow> mh \<noteq> 0 \<and> fh \<noteq> 0 \<and> fh \<noteq> INVALID_HANDLE_VALUE))"

lemma probe_res:
  "probe_mmap_eligible pf env path tr = (r, tr') \<Longrightarrow> run_res tr R0 = Some R \<Longrightarrow>
     run_res tr' R0 = Some R \<and> (env_trace env tr' \<longleftrightarrow> env_trace env tr)"
  by (auto simp: probe_mmap_eligible_def Let_def split: sum.splits if_splits)

lemma open_unix_res:
  "open_unix env path tr = (r, tr') \<Longrightarrow> run_res tr R0 = Some R \<Longrightarrow>
     run_res tr' R0 = Some (case r of None \<Rightarrow> R | Some f \<Rightarrow> file_res f R) \<and> (env_trace env tr' \<longleftrightarrow> env_trace env tr)"
  by (auto simp: open_unix_def Let_def sys_call_def file_res_def res_defs split: option.splits if_splits)

lemma open_windows_res:
  "open_windows_wide env path tr = (r, tr') \<Longrightarrow> run_res tr R0 = Some R \<Longrightarrow>
     run_res tr' R0 = Some (case r of None \<Rightarrow> R | Some f \<Rightarrow> file_res f R) \<and> (env_trace env tr' \<longleftrightarrow> env_trace env tr)"
  by (auto simp: open_windows_wide_def Let_def sys_call_def file_res_def res_defs split: option.splits if_splits)

lemma drop_res:
  "file_shape f \<Longrightarrow> run_res tr R0 = Some (file_res f R) \<Longrightarrow> run_res (mmap_drop env f tr) R0 = Some R"
  by (cases "mf_handles f")
    (auto simp: file_shape_def file_res_def mmap_drop_def close_fd_def close_win_file_def close_win_mapping_def
      res_defs INVALID_HANDLE_VALUE_def split: if_splits)

lemma advise_res:
  assumes "run_res tr R0 = Some (file_res f R)" "file_shape f" "\<And>fd. pf = Unix \<Longrightarrow> mf_size f \<noteq> 0 \<Longrightarrow> \<exists>fd. mf_handles f = UnixFd fd"
  shows "run_res (advise_sequential pf env f tr) R0 = Some (file_res f R)"
  using assms by (auto simp: advise_sequential_def file_res_def res_defs file_shape_def split: if_splits)


subsection \<open>A mapped file shows the bytes of the file\<close>

definition maps_path :: "os_env \<Rightarrow> bytes \<Rightarrow> mmap_file \<Rightarrow> trace \<Rightarrow> bool" where
  "maps_path env content f tr \<longleftrightarrow>
     valid_slice content \<and> mf_size f = length content \<and>
     (\<forall>later. env_trace env (tr @ later) \<and> (\<forall>e\<in>set later. \<not> unmaps (mf_ptr f) e) \<longrightarrow>
        mmap_as_bytes env (tr @ later) f = content)"

text \<open>The same, tied to the call that made the mapping.\<close>

definition file_live :: "os_env \<Rightarrow> bytes \<Rightarrow> mmap_file \<Rightarrow> trace \<Rightarrow> bool" where
  "file_live env content f tr \<longleftrightarrow>
     valid_slice content \<and> mf_size f = length content \<and>
     (content \<noteq> [] \<longrightarrow> live_map env content (mf_ptr f) (length content) tr)"

lemma file_liveI:
  "length content \<le> isize_max \<Longrightarrow> mf_size f = length content \<Longrightarrow>
     (content \<noteq> [] \<Longrightarrow> live_map env content (mf_ptr f) (length content) tr) \<Longrightarrow> file_live env content f tr"
  by (simp add: file_live_def valid_slice_def)

lemma file_live_later:
  "file_live env content f tr \<Longrightarrow> \<forall>e\<in>set later. \<not> unmaps (mf_ptr f) e \<Longrightarrow> file_live env content f (tr @ later)"
  unfolding file_live_def live_map_def by fastforce

lemma file_live_do:
  "file_live env content f tr \<Longrightarrow> \<not> unmaps (mf_ptr f) (c, env_sys env tr c) \<Longrightarrow> file_live env content f (sys_do env c tr)"
  using file_live_later [of env content f tr "[(c, env_sys env tr c)]"] by (simp add: sys_do_def)

lemma file_live_bytes:
  assumes "file_live env content f tr" "env_trace env tr"
  shows "mmap_as_bytes env tr f = content"
proof (cases "content = []")
  case False
  then have "live_map env content (mf_ptr f) (length content) tr" using assms(1) by (simp add: file_live_def)
  then have "0 < mf_ptr f" "\<And>i. i < length content \<Longrightarrow> env_mem env tr (mf_ptr f + i) = content ! i"
    using live_map_read [OF _ assms(2)] by (auto simp: live_map_def)
  with assms(1) show ?thesis by (auto simp: mmap_as_bytes_def read_mem_def file_live_def intro!: nth_equalityI)
qed (use assms in \<open>simp add: file_live_def mmap_as_bytes_def\<close>)

lemma file_live_maps: "file_live env content f tr \<Longrightarrow> maps_path env content f tr"
  unfolding maps_path_def using file_live_later file_live_bytes by (auto simp: file_live_def)

lemma open_unix_content:
  assumes c: "os_contract env files" and t: "env_trace env tr" and o: "open_unix env path tr = (Some f, tr')"
  shows "file_shape f \<and> (\<exists>fd. mf_handles f = UnixFd fd) \<and> file_live env (files path) f tr'"
proof -
  define fd where "fd = fst (env_sys env tr (SysOpen path O_RDONLY))"
  define t1 where "t1 = sys_do env (SysOpen path O_RDONLY) tr"
  define t2 where "t2 = sys_do env (SysLseek fd 0 SEEK_END) t1"
  have fd: "fd \<ge> 0" using o by (auto simp: fd_def open_unix_def Let_def sys_call_def split: if_splits)
  then have hp: "handle_path t1 fd = Some path" "handle_path t2 fd = Some path" "env_trace env t1" "env_trace env t2"
    using t by (simp_all add: t1_def t2_def fd_def)
  obtain sz where sz: "usize_try_from (fst (env_sys env t1 (SysLseek fd 0 SEEK_END))) = Some sz"
    using o fd by (auto simp: open_unix_def Let_def sys_call_def t1_def fd_def split: option.splits)
  have eq: "open_unix env path tr =
      (if sz = 0 then (Some \<lparr>mf_ptr = 0, mf_size = 0, mf_handles = UnixFd (-1)\<rparr>, sys_do env (SysClose fd) t2)
       else let r = fst (env_sys env t2 (SysMmap 0 sz PROT_READ MAP_PRIVATE fd 0));
                t3 = sys_do env (SysMmap 0 sz PROT_READ MAP_PRIVATE fd 0) t2 in
         if r = MAP_FAILED then (None, sys_do env (SysClose fd) t3)
         else (Some \<lparr>mf_ptr = nat r, mf_size = sz, mf_handles = UnixFd fd\<rparr>, t3))"
    using fd sz by (simp add: open_unix_def Let_def sys_call_def t1_def t2_def fd_def)
  have len: "sz = length (files path)" "length (files path) \<le> isize_max" using lseek_contract [OF c hp(3,1) sz] by simp_all
  show ?thesis
  proof (cases "sz = 0")
    case True
    with o eq len show ?thesis by (auto simp: file_shape_def intro: file_liveI)
  next
    case False
    let ?map = "SysMmap 0 sz PROT_READ MAP_PRIVATE fd (int 0)"
    from False o eq have "fst (env_sys env t2 ?map) \<noteq> MAP_FAILED" by (auto simp: Let_def split: if_splits)
    from mmap_contract [OF c hp(4,2) this] live_map_new [of ?map env t2 sz "files path"] o eq False fd len
    show ?thesis by (auto simp: Let_def file_shape_def intro!: file_liveI split: if_splits)
  qed
qed

text \<open>The path that reaches \<open>CreateFileW\<close>.\<close>

abbreviation wide_cstr :: "path \<Rightarrow> path" where
  "wide_cstr p \<equiv> takeWhile (\<lambda>c. c \<noteq> CHR 0x00) p"

lemma open_windows_content:
  assumes c: "os_contract env files" and t: "env_trace env tr" and o: "open_windows_wide env path tr = (Some f, tr')"
  shows "file_shape f \<and> (\<exists>fh mh. mf_handles f = WinHandles fh mh) \<and> file_live env (files (wide_cstr path)) f tr'"
proof -
  let ?p = "wide_cstr path"
  let ?open = "CreateFileW ?p GENERIC_READ FILE_SHARE_READ 0 OPEN_EXISTING FILE_ATTRIBUTE_NORMAL 0"
  define fh where "fh = fst (env_sys env tr ?open)"
  define t1 where "t1 = sys_do env ?open tr"
  define t2 where "t2 = sys_do env (GetFileSizeEx fh) t1"
  have fh: "fh \<noteq> INVALID_HANDLE_VALUE" and sf: "fst (env_sys env t1 (GetFileSizeEx fh)) \<noteq> 0"
    using o by (auto simp: fh_def t1_def open_windows_wide_def Let_def sys_call_def split: if_splits)
  have nz: "fh \<noteq> 0" using os_contractD(4) [OF c t] by (simp add: handles_ok_def fh_def)
  have hp: "handle_path t1 fh = Some ?p" "handle_path t2 fh = Some ?p" "env_trace env t1" "env_trace env t2"
    using t fh by (simp_all add: t1_def t2_def fh_def)
  obtain sz where sz: "usize_try_from (snd (env_sys env t1 (GetFileSizeEx fh))) = Some sz"
    using o fh sf by (auto simp: open_windows_wide_def Let_def sys_call_def t1_def fh_def split: option.splits)
  have len: "sz = length (files ?p)" "length (files ?p) \<le> isize_max" using file_size_contract [OF c hp(3,1) sf sz] by simp_all
  define mh where "mh = fst (env_sys env t2 (CreateFileMappingW fh 0 PAGE_READONLY 0 0 0))"
  define t3 where "t3 = sys_do env (CreateFileMappingW fh 0 PAGE_READONLY 0 0 0) t2"
  have eq: "open_windows_wide env path tr =
      (if sz = 0 then (Some \<lparr>mf_ptr = 0, mf_size = 0, mf_handles = WinHandles 0 0\<rparr>, sys_do env (CloseHandle fh) t2)
       else if mh = 0 then (None, sys_do env (CloseHandle fh) t3)
       else let r = fst (env_sys env t3 (MapViewOfFile mh FILE_MAP_READ 0 0 0));
                t4 = sys_do env (MapViewOfFile mh FILE_MAP_READ 0 0 0) t3 in
         if r = 0 then (None, sys_do env (CloseHandle fh) (sys_do env (CloseHandle mh) t4))
         else (Some \<lparr>mf_ptr = nat r, mf_size = sz, mf_handles = WinHandles fh mh\<rparr>, t4))"
    using fh sf sz by (simp add: open_windows_wide_def Let_def sys_call_def t1_def t2_def t3_def mh_def fh_def)
  show ?thesis
  proof (cases "sz = 0")
    case True
    with o eq len show ?thesis by (auto simp: file_shape_def intro: file_liveI)
  next
    case False
    with o eq have mh: "mh \<noteq> 0" and v: "fst (env_sys env t3 (MapViewOfFile mh FILE_MAP_READ 0 0 0)) \<noteq> 0"
      by (auto simp: Let_def split: if_splits)
    have hp3: "handle_path t3 mh = Some ?p" "env_trace env t3" using hp mh by (simp_all add: t3_def mh_def)
    from view_contract [OF c hp3(2,1) v] live_map_new [of "MapViewOfFile mh FILE_MAP_READ 0 0 0" env t3 sz "files ?p"]
      o eq False fh nz mh len
    show ?thesis by (auto simp: Let_def file_shape_def intro!: file_liveI split: if_splits)
  qed
qed


subsection \<open>Opening a path\<close>

lemma option_to_io_Inr: "option_to_io r = (Inr f, tr) \<longleftrightarrow> r = (Some f, tr)"
  by (cases r) (auto simp: option_to_io_def split: option.split)

lemma option_to_io_Inl: "option_to_io r = (Inl e, tr) \<longleftrightarrow> r = (None, tr) \<and> e = open_failed"
  by (cases r) (auto simp: option_to_io_def split: option.split)

lemma mmap_open_res:
  assumes "mmap_open pf env path tr = (r, tr')" "run_res tr R0 = Some R"
  shows "run_res tr' R0 = Some (case r of None \<Rightarrow> R | Some f \<Rightarrow> file_res f R) \<and> (env_trace env tr' \<longleftrightarrow> env_trace env tr)"
proof -
  obtain v t1 where p: "probe_mmap_eligible pf env (if pf = Unix then path else env_lossy env path) tr = (v, t1)" by force
  with assms show ?thesis
    using probe_res [OF p assms(2)] open_unix_res [of env path t1 r tr' R0 R]
      open_windows_res [of env "env_lossy env path" t1 r tr' R0 R]
    by (auto simp: mmap_open_def probe_cstr_eligible_def open_windows_def Let_def split: sum.splits if_splits)
qed

lemma mmap_open_path_res:
  assumes "mmap_open_path pf env path tr = (r, tr')" "run_res tr R0 = Some R"
  shows "run_res tr' R0 = Some (case r of Inl e \<Rightarrow> R | Inr f \<Rightarrow> file_res f R) \<and> (env_trace env tr' \<longleftrightarrow> env_trace env tr)"
proof -
  obtain v t1 where p: "probe_mmap_eligible pf env path tr = (v, t1)" by force
  note pr = probe_res [OF p assms(2)]
  from assms(1) p consider (early) e where "r = Inl e" "tr' = t1"
    | (unix) "pf = Unix" "option_to_io (mmap_open Unix env path t1) = (r, tr')"
    | (win) "option_to_io (open_windows_wide env path t1) = (r, tr')"
    by (auto simp: mmap_open_path_def cstring_new_def split: sum.splits if_splits option.splits)
  then show ?thesis
  proof cases
    case unix
    with pr mmap_open_res [of Unix env path t1 _ tr' R0 R] show ?thesis
      by (cases r) (fastforce simp: option_to_io_Inl option_to_io_Inr)+
  next
    case win
    with pr open_windows_res [of env path t1 _ tr' R0 R] show ?thesis
      by (cases r) (fastforce simp: option_to_io_Inl option_to_io_Inr)+
  qed (use pr in simp)
qed

lemma mmap_open_path_env_trace:
  "mmap_open_path pf env path tr = (r, tr') \<Longrightarrow> env_trace env tr' \<longleftrightarrow> env_trace env tr"
  by (cases pf)
    (auto simp: mmap_open_path_def mmap_open_def probe_cstr_eligible_def probe_mmap_eligible_def Let_def cstring_new_def
      option_to_io_def open_unix_def open_windows_wide_def sys_call_def
      split: prod.splits sum.splits if_splits option.splits)

text \<open>A path that passes the probe has no zero character, so every platform opens it as given.\<close>

lemma probe_no_nul:
  assumes "os_contract env files" "env_trace env tr" "probe_mmap_eligible pf env path tr = (Inr u, tr')"
  shows "CHR 0x00 \<notin> set path"
proof
  assume "CHR 0x00 \<in> set path"
  then obtain e where "env_lstat env tr path = Inl e" using os_contractD(7) [OF assms(1,2)] by (auto simp: nul_ok_def)
  with assms(3) show False by (simp add: probe_mmap_eligible_def)
qed

lemma wide_cstr_id: "CHR 0x00 \<notin> set path \<Longrightarrow> wide_cstr path = path"
  by (induction path) auto

text \<open>The path a C string names: its bytes on Unix, its lossy decoding on Windows.\<close>

definition owned_path :: "platform \<Rightarrow> os_env \<Rightarrow> path \<Rightarrow> path" where
  "owned_path pf env path = (if pf = Unix then path else env_lossy env path)"

lemma probe_env_trace: "probe_mmap_eligible pf env path tr = (v, tr') \<Longrightarrow> env_trace env tr' \<longleftrightarrow> env_trace env tr"
  by (auto simp: probe_mmap_eligible_def Let_def split: sum.splits if_splits)

lemma mmap_open_live:
  assumes c: "os_contract env files" and t: "env_trace env tr" and o: "mmap_open pf env path tr = (Some f, tr')"
  shows "file_shape f \<and> (pf = Unix \<longrightarrow> (\<exists>fd. mf_handles f = UnixFd fd)) \<and> file_live env (files (owned_path pf env path)) f tr'"
proof -
  obtain v t1 where p: "probe_mmap_eligible pf env (owned_path pf env path) tr = (v, t1)" by force
  have v: "v = Inr ()" using o p by (auto simp: mmap_open_def probe_cstr_eligible_def owned_path_def split: sum.splits)
  have t1: "env_trace env t1" using probe_env_trace [OF p] t by simp
  show ?thesis
  proof (cases pf)
    case Unix
    with o p v have "open_unix env path t1 = (Some f, tr')"
      by (simp add: mmap_open_def probe_cstr_eligible_def owned_path_def Let_def)
    with open_unix_content [OF c t1] Unix show ?thesis by (simp add: owned_path_def)
  next
    case Windows
    with o p v have w: "open_windows_wide env (env_lossy env path) t1 = (Some f, tr')"
      by (simp add: mmap_open_def probe_cstr_eligible_def owned_path_def open_windows_def Let_def)
    have "wide_cstr (env_lossy env path) = env_lossy env path"
      using probe_no_nul [OF c t] p v Windows by (intro wide_cstr_id) (auto simp: owned_path_def)
    with open_windows_content [OF c t1 w] Windows show ?thesis by (simp add: owned_path_def)
  qed
qed

lemma mmap_open_path_live:
  assumes c: "os_contract env files" and t: "env_trace env tr" and o: "mmap_open_path pf env path tr = (Inr f, tr')"
  shows "file_shape f \<and> (pf = Unix \<longrightarrow> (\<exists>fd. mf_handles f = UnixFd fd)) \<and>
     file_live env (files path) f tr'"
proof -
  obtain v t1 where p: "probe_mmap_eligible pf env path tr = (v, t1)" by force
  then have t1: "env_trace env t1" using probe_env_trace t by blast
  from o p consider (unix) "pf = Unix" "mmap_open Unix env path t1 = (Some f, tr')"
    | (win) "pf = Windows" "open_windows_wide env path t1 = (Some f, tr')"
    by (cases pf)
      (auto simp: mmap_open_path_def cstring_new_def option_to_io_Inr split: sum.splits if_splits option.splits)
  then show ?thesis
  proof cases
    case unix
    with mmap_open_live [OF c t1 unix(2)] show ?thesis by (auto simp: owned_path_def)
  next
    case win
    have "v = Inr ()" using o p by (auto simp: mmap_open_path_def split: sum.splits)
    then have "wide_cstr path = path" using probe_no_nul [OF c t] p by (intro wide_cstr_id) blast
    then show ?thesis
      using open_windows_content [OF c t1 win(2)] win(1) by (simp only: platform.distinct simp_thms)
  qed
qed

lemma mmap_open_path_content:
  assumes "os_contract env files" "env_trace env tr" "mmap_open_path pf env path tr = (Inr f, tr')"
  shows "file_shape f \<and> (pf = Unix \<longrightarrow> (\<exists>fd. mf_handles f = UnixFd fd)) \<and> maps_path env (files path) f tr'"
  using mmap_open_path_live [OF assms] file_live_maps by blast

subsection \<open>Traces that release nothing\<close>

definition quiet :: "trace \<Rightarrow> trace \<Rightarrow> bool" where
  "quiet tr tr' \<longleftrightarrow> (\<exists>evs. tr' = tr @ evs \<and> (\<forall>e\<in>set evs. \<forall>p. \<not> unmaps p e))"

fun is_unmap :: "syscall \<Rightarrow> bool" where
  "is_unmap (SysMunmap p n) \<longleftrightarrow> True"
| "is_unmap (UnmapViewOfFile p) \<longleftrightarrow> True"
| "is_unmap c \<longleftrightarrow> False"

lemma not_unmaps: "\<not> is_unmap c \<Longrightarrow> \<not> unmaps p (c, r)"
  by (cases c) auto

lemma quiet_refl [simp]: "quiet tr tr"
  by (simp add: quiet_def)

lemma quiet_do: "quiet tr tr' \<Longrightarrow> \<not> is_unmap c \<Longrightarrow> quiet tr (sys_do env c tr')"
  unfolding quiet_def sys_do_def
  by (elim exE conjE, rule_tac x = "evs @ [(c, env_sys env tr' c)]" in exI) (auto simp: not_unmaps)

lemma quiet_trans: "quiet a b \<Longrightarrow> quiet b c \<Longrightarrow> quiet a c"
  unfolding quiet_def by fastforce

lemma quiet_live: "quiet tr tr' \<Longrightarrow> file_live env content f tr \<Longrightarrow> file_live env content f tr'"
  unfolding quiet_def using file_live_later by blast

lemma probe_quiet: "probe_mmap_eligible pf env path tr = (r, tr') \<Longrightarrow> quiet tr tr'"
  by (auto simp: probe_mmap_eligible_def Let_def split: sum.splits if_splits intro!: quiet_do)

text \<open>A mapping is made by the last call of the run that opens it.\<close>

definition maps_last :: "os_env \<Rightarrow> trace \<Rightarrow> mmap_file option \<Rightarrow> trace \<Rightarrow> bool" where
  "maps_last env tr r tr' \<longleftrightarrow>
     quiet tr tr' \<and>
     (\<forall>f. r = Some f \<and> mf_size f \<noteq> 0 \<longrightarrow>
        (\<exists>t c. quiet tr t \<and> tr' = sys_do env c t \<and> is_map c \<and> mf_ptr f = nat (fst (env_sys env t c))))"

lemma maps_lastI:
  "quiet tr tr' \<Longrightarrow> maps_last env tr None tr'"
  "quiet tr tr' \<Longrightarrow> maps_last env tr (Some \<lparr>mf_ptr = 0, mf_size = 0, mf_handles = hs\<rparr>) tr'"
  "quiet tr t \<Longrightarrow> is_map c \<Longrightarrow> \<not> is_unmap c \<Longrightarrow>
     maps_last env tr (Some \<lparr>mf_ptr = nat (fst (env_sys env t c)), mf_size = n, mf_handles = hs\<rparr>) (sys_do env c t)"
  unfolding maps_last_def by (auto intro: quiet_do)

lemma open_unix_last: "open_unix env path tr = (r, tr') \<Longrightarrow> maps_last env tr r tr'"
  by (auto simp: open_unix_def Let_def sys_call_def split: option.splits if_splits intro!: quiet_do maps_lastI)

lemma open_windows_last: "open_windows_wide env path tr = (r, tr') \<Longrightarrow> maps_last env tr r tr'"
  by (auto simp: open_windows_wide_def Let_def sys_call_def split: option.splits if_splits intro!: quiet_do maps_lastI)

lemma maps_last_trans: "quiet tr t \<Longrightarrow> maps_last env t r tr' \<Longrightarrow> maps_last env tr r tr'"
  unfolding maps_last_def using quiet_trans by blast

lemma mmap_open_last:
  assumes "mmap_open pf env path tr = (r, tr')"
  shows "maps_last env tr r tr'"
proof -
  obtain v t1 where p: "probe_cstr_eligible pf env path tr = (v, t1)" by force
  then have q: "quiet tr t1" using probe_quiet by (auto simp: probe_cstr_eligible_def Let_def)
  show ?thesis
  proof (cases v)
    case (Inl e)
    with assms p q show ?thesis by (simp add: mmap_open_def maps_last_def)
  next
    case (Inr u)
    with assms p have "maps_last env t1 r tr'"
      using open_unix_last open_windows_last by (auto simp: mmap_open_def open_windows_def split: if_splits)
    with q show ?thesis by (rule maps_last_trans)
  qed
qed

lemma fresh_pointer:
  assumes "os_contract env files" "env_trace env tr'" "maps_last env tr (Some f) tr'" "mf_size f \<noteq> 0" "mf_ptr f \<noteq> 0"
    "file_live env content g tr" "mf_size g \<noteq> 0"
  shows "mf_ptr f \<noteq> mf_ptr g"
proof -
  obtain t c where t: "quiet tr t" "tr' = sys_do env c t" "is_map c" "mf_ptr f = nat (fst (env_sys env t c))"
    using assms(3,4) by (auto simp: maps_last_def)
  have "file_live env content g t" using quiet_live [OF t(1)] assms(6) by blast
  then have "live_map env content (mf_ptr g) (length content) t" using assms(7) by (auto simp: file_live_def)
  then have "fst (env_sys env t c) \<noteq> int (mf_ptr g)"
    using live_map_fresh [OF assms(1) _ _ t(3)] assms(2) t(2) by simp
  with t(4) assms(5) show ?thesis by auto
qed

lemma mmap_open_path_last:
  assumes "mmap_open_path pf env path tr = (r, tr')"
  shows "maps_last env tr (case r of Inl e \<Rightarrow> None | Inr f \<Rightarrow> Some f) tr'"
proof -
  obtain v t1 where p: "probe_mmap_eligible pf env path tr = (v, t1)" by force
  note q = probe_quiet [OF p]
  from assms p consider (early) e where "r = Inl e" "tr' = t1"
    | (unix) "pf = Unix" "option_to_io (mmap_open Unix env path t1) = (r, tr')"
    | (win) "option_to_io (open_windows_wide env path t1) = (r, tr')"
    by (auto simp: mmap_open_path_def cstring_new_def split: sum.splits if_splits option.splits)
  then have "maps_last env t1 (case r of Inl e \<Rightarrow> None | Inr f \<Rightarrow> Some f) tr'"
  proof cases
    case unix
    with mmap_open_last [of Unix env path t1 _ tr'] show ?thesis
      by (cases r) (fastforce simp: option_to_io_Inl option_to_io_Inr)+
  next
    case win
    with open_windows_last [of env path t1 _ tr'] show ?thesis
      by (cases r) (fastforce simp: option_to_io_Inl option_to_io_Inr)+
  qed (simp add: maps_lastI)
  with q show ?thesis by (rule maps_last_trans)
qed

text \<open>
  Several mapped files at once, released in any order: the resources are those of the files that
  are left, as multisets.
\<close>

definition res_same :: "resources \<Rightarrow> resources \<Rightarrow> bool" where
  "res_same R S \<longleftrightarrow> mset (res_handles R) = mset (res_handles S) \<and> mset (res_maps R) = mset (res_maps S)"

lemma res_same_refl [simp]: "res_same R R"
  by (simp add: res_same_def)

lemma file_res_same: "res_same R S \<Longrightarrow> res_same (file_res f R) (file_res f S)"
  by (simp add: res_same_def file_res_def res_open_def res_map_def split: os_handles.split)

lemma file_res_swap: "res_same (file_res f (file_res g R)) (file_res g (file_res f R))"
  by (simp add: res_same_def file_res_def res_open_def res_map_def split: os_handles.split)

lemma res_same_trans: "res_same R S \<Longrightarrow> res_same S T \<Longrightarrow> res_same R T"
  by (simp add: res_same_def)

lemma find_unique:
  assumes "(p, n) \<in> set xs" "\<And>m. (p, m) \<in> set xs \<Longrightarrow> m = n"
  shows "find (\<lambda>m. fst m = p) xs = Some (p, n)"
  using assms
proof (induction xs)
  case (Cons x xs)
  show ?case
  proof (cases "fst x = p")
    case True
    then show ?thesis using Cons.prems(2) [of "snd x"] by (cases x) simp
  next
    case False
    then have mem: "(p, n) \<in> set xs" using Cons.prems(1) by (cases x) simp
    have "find (\<lambda>m. fst m = p) xs = Some (p, n)"
      by (rule Cons.IH [OF mem]) (rule Cons.prems(2), simp)
    with False show ?thesis by simp
  qed
qed simp

lemma drop_any_res:
  assumes "file_shape f" "run_res tr R0 = Some S" "res_same S (file_res f R)"
    "mf_size f \<noteq> 0 \<Longrightarrow> mf_ptr f \<notin> fst ` set (res_maps R)"
  shows "\<exists>S'. run_res (mmap_drop env f tr) R0 = Some S' \<and> res_same S' R"
proof (cases "mf_size f = 0")
  case True
  with assms show ?thesis
    by (auto simp: file_shape_def file_res_def mmap_drop_def close_fd_def close_win_file_def close_win_mapping_def)
next
  case False
  have eqs: "mset (res_handles S) = mset (res_handles (file_res f R))" "mset (res_maps S) = mset (res_maps (file_res f R))"
    using assms(3) by (simp_all add: res_same_def)
  show ?thesis
  proof (cases "mf_handles f")
    case (UnixFd fd)
    then have m: "mset (res_handles S) = add_mset fd (mset (res_handles R))"
      "mset (res_maps S) = add_mset (mf_ptr f, mf_size f) (mset (res_maps R))"
      using eqs False by (simp_all add: file_res_def res_open_def res_map_def)
    then have "fd \<in> set (res_handles S)" "(mf_ptr f, mf_size f) \<in> set (res_maps S)"
      by (metis set_mset_mset union_single_eq_member)+
    moreover have "mset (remove1 fd (res_handles S)) = mset (res_handles R)"
      "mset (remove1 (mf_ptr f, mf_size f) (res_maps S)) = mset (res_maps R)" using m by simp_all
    ultimately show ?thesis using UnixFd False assms(1,2)
      by (simp add: mmap_drop_def close_fd_def file_shape_def res_close_def res_unmap_def res_same_def)
  next
    case (WinHandles fh mh)
    then have m: "mset (res_handles S) = add_mset mh (add_mset fh (mset (res_handles R)))"
      "mset (res_maps S) = add_mset (mf_ptr f, 0) (mset (res_maps R))"
      using eqs False by (simp_all add: file_res_def res_open_def res_map_def)
    then have s: "set (res_handles S) = insert mh (insert fh (set (res_handles R)))"
      "set (res_maps S) = insert (mf_ptr f, 0) (set (res_maps R))"
      by (metis set_mset_add_mset_insert set_mset_mset)+
    have "find (\<lambda>m. fst m = mf_ptr f) (res_maps S) = Some (mf_ptr f, 0)"
    proof (rule find_unique)
      show "(mf_ptr f, 0) \<in> set (res_maps S)" by (simp add: s)
      fix k
      assume "(mf_ptr f, k) \<in> set (res_maps S)"
      with assms(4) False show "k = 0" by (auto simp: s image_iff)
    qed
    moreover have "fh \<in> set (remove1 mh (res_handles S))"
    proof -
      have "fh \<in># mset (remove1 mh (res_handles S))" unfolding mset_remove1 m(1) by simp
      then show ?thesis by (simp only: set_mset_mset)
    qed
    moreover have "mset (remove1 fh (remove1 mh (res_handles S))) = mset (res_handles R)"
      "mset (remove1 (mf_ptr f, 0) (res_maps S)) = mset (res_maps R)" using m by simp_all
    ultimately show ?thesis using s WinHandles False assms(1,2)
      by (simp add: mmap_drop_def close_win_file_def close_win_mapping_def file_shape_def res_close_def res_unmap_def res_same_def)
  qed
qed

subsection \<open>No address is mapped twice at a time\<close>

text \<open>
  A process starts without resources. A mapping that is held was made by an event of the trace and
  not unmapped since, so that the environment gives every new mapping another address.
\<close>

definition no_resources :: resources where
  "no_resources = \<lparr>res_handles = [], res_maps = []\<rparr>"

definition held_map :: "trace \<Rightarrow> nat \<Rightarrow> bool" where
  "held_map tr p \<longleftrightarrow>
     (\<exists>k<length tr. is_map (fst (tr ! k)) \<and> fst (snd (tr ! k)) = int p \<and> (\<forall>e\<in>set (drop k tr). \<not> unmaps p e))"

lemma held_map_snoc: "held_map tr p \<Longrightarrow> \<not> unmaps p e \<Longrightarrow> held_map (tr @ [e]) p"
  unfolding held_map_def by (elim exE conjE, rule_tac x = k in exI) (auto simp: nth_append)

lemma held_map_new: "is_map c \<Longrightarrow> fst r = int p \<Longrightarrow> held_map (tr @ [(c, r)]) p"
  unfolding held_map_def by (intro exI [of _ "length tr"]) (cases c; simp)

lemma held_map_fresh:
  assumes "fresh_ok env tr" "held_map tr p" "0 < p" "is_map c"
  shows "fst (env_sys env tr c) \<noteq> int p"
  using assms by (fastforce simp: fresh_ok_def held_map_def)

definition maps_once :: "trace \<Rightarrow> (nat \<times> nat) list \<Rightarrow> bool" where
  "maps_once tr ms \<longleftrightarrow> (\<forall>p>0. count (mset (map fst ms)) p \<le> 1 \<and> (p \<in> fst ` set ms \<longrightarrow> held_map tr p))"

lemma maps_once_keep: "maps_once tr ms \<Longrightarrow> (\<And>p. \<not> unmaps p e) \<Longrightarrow> maps_once (tr @ [e]) ms"
  by (auto simp: maps_once_def intro: held_map_snoc)

lemma maps_once_add:
  assumes "maps_once tr ms" "fresh_ok env tr" "is_map c" "r = env_sys env tr c"
  shows "maps_once (tr @ [(c, r)]) ((nat (fst r), n) # ms)"
proof -
  have nu: "\<not> unmaps p (c, r)" for p using assms(3) by (cases c) simp_all
  have new: "held_map (tr @ [(c, r)]) (nat (fst r))" if "0 < nat (fst r)"
    using that assms(3) by (intro held_map_new) simp_all
  have fresh: "nat (fst r) \<notin> fst ` set ms" if "0 < nat (fst r)"
  proof
    assume "nat (fst r) \<in> fst ` set ms"
    then have "held_map tr (nat (fst r))" using assms(1) that by (simp add: maps_once_def)
    from held_map_fresh [OF assms(2) this that assms(3)] that assms(4) show False by simp
  qed
  then have "count (mset (map fst ms)) (nat (fst r)) = 0" if "0 < nat (fst r)"
    using that by (metis count_eq_zero_iff list.set_map set_mset_mset)
  with assms(1) new nu show ?thesis
    unfolding maps_once_def by (auto intro: held_map_snoc)
qed

lemma maps_once_remove:
  assumes "maps_once tr ms" "(q, n) \<in> set ms" "\<And>p. unmaps p e \<Longrightarrow> p = q"
  shows "maps_once (tr @ [e]) (remove1 (q, n) ms)"
  unfolding maps_once_def
proof (intro allI impI conjI)
  fix p :: nat
  assume p: "0 < p"
  let ?ms = "remove1 (q, n) ms"
  have "mset ms = add_mset (q, n) (mset ?ms)" using assms(2) by simp
  then have "mset (map fst ms) = add_mset q (mset (map fst ?ms))" by (metis fst_conv image_mset_add_mset mset_map)
  then have c: "count (mset (map fst ms)) p = count (add_mset q (mset (map fst ?ms))) p" by simp
  have once: "count (mset (map fst ms)) p \<le> 1" "p \<in> fst ` set ms \<longrightarrow> held_map tr p"
    using assms(1) p unfolding maps_once_def by blast+
  show "count (mset (map fst ?ms)) p \<le> 1" using c once(1) by (cases "p = q") simp_all
  assume mem: "p \<in> fst ` set ?ms"
  then have "count (mset (map fst ?ms)) p \<noteq> 0" by (metis count_eq_zero_iff list.set_map set_mset_mset)
  moreover have "count (mset (map fst ms)) p = Suc (count (mset (map fst ?ms)) p)" if "p = q"
    unfolding c unfolding that by simp
  ultimately have "p \<noteq> q" using once(1) by (metis One_nat_def Suc_le_mono le_zero_eq)
  moreover have "p \<in> fst ` set ms" using mem set_remove1_subset by fastforce
  ultimately show "held_map (tr @ [e]) p" using once(2) assms(3) by (auto intro: held_map_snoc)
qed

lemma maps_once_step:
  assumes "maps_once tr (res_maps S)" "fresh_ok env tr" "r = env_sys env tr c" "res_event (c, r) S = Some S'"
  shows "maps_once (tr @ [(c, r)]) (res_maps S')"
proof (cases c)
  case (SysMunmap q n)
  with assms(4) have "res_maps S' = remove1 (q, n) (res_maps S)" "(q, n) \<in> set (res_maps S)"
    by (auto simp: res_defs split: if_splits)
  with assms(1) SysMunmap show ?thesis by (auto intro: maps_once_remove)
next
  case (UnmapViewOfFile q)
  with assms(4) obtain m where m: "find (\<lambda>m. fst m = q) (res_maps S) = Some m" "m \<in> set (res_maps S)"
    "res_maps S' = remove1 m (res_maps S)"
    by (auto simp: res_unmap_def split: option.splits if_splits)
  then have "fst m = q" by (auto simp: find_Some_iff)
  with m obtain n where "res_maps S' = remove1 (q, n) (res_maps S)" "(q, n) \<in> set (res_maps S)" by (metis prod.collapse)
  with assms(1) UnmapViewOfFile show ?thesis by (auto intro: maps_once_remove)
next
  case (SysMmap addr n prot flags h off)
  with assms(4) have "S' = S \<or> res_maps S' = (nat (fst r), n) # res_maps S" by (auto simp: res_defs split: if_splits)
  with assms(1) SysMmap maps_once_add [OF assms(1,2) _ assms(3), of n] show ?thesis by (auto intro: maps_once_keep)
next
  case (MapViewOfFile h access hi lo n)
  with assms(4) have "S' = S \<or> res_maps S' = (nat (fst r), n) # res_maps S" by (auto simp: res_defs split: if_splits)
  with assms(1) MapViewOfFile maps_once_add [OF assms(1,2) _ assms(3), of n] show ?thesis by (auto intro: maps_once_keep)
qed (use assms in \<open>auto simp: res_defs split: if_splits intro!: maps_once_keep\<close>)

lemma held_maps_once:
  assumes "os_contract env files" "env_trace env tr" "run_res tr no_resources = Some S"
  shows "maps_once tr (res_maps S)"
  using assms(2,3)
proof (induction tr arbitrary: S rule: rev_induct)
  case Nil
  then show ?case by (auto simp: maps_once_def no_resources_def)
next
  case (snoc e tr)
  obtain c r where e: "e = (c, r)" by (cases e)
  have t: "env_trace env tr" "r = env_sys env tr c"
    using snoc.prems(1) e by (auto simp: env_trace_def nth_append split: if_splits)
  obtain S1 where S1: "run_res tr no_resources = Some S1" "res_event (c, r) S1 = Some S"
    using snoc.prems(2) e by (auto simp: run_res_append split: option.splits if_splits)
  from maps_once_step [OF snoc.IH [OF t(1) S1(1)] os_contractD(5) [OF assms(1) t(1)] t(2) S1(2)] e show ?case by simp
qed

lemma held_file_apart:
  assumes "maps_once tr (res_maps S)" "res_same S (file_res f R)" "file_shape f" "mf_size f \<noteq> 0"
  shows "mf_ptr f \<notin> fst ` set (res_maps R)"
proof -
  have p: "0 < mf_ptr f" using assms(3,4) by (simp add: file_shape_def)
  obtain n where "mset (res_maps S) = add_mset (mf_ptr f, n) (mset (res_maps R))"
    using assms(2,4) by (cases "mf_handles f") (simp_all add: res_same_def file_res_def res_defs)
  then have "mset (map fst (res_maps S)) = add_mset (mf_ptr f) (mset (map fst (res_maps R)))" by simp
  moreover have "count (mset (map fst (res_maps S))) (mf_ptr f) \<le> 1" using assms(1) p by (simp add: maps_once_def)
  ultimately have "count (mset (map fst (res_maps R))) (mf_ptr f) = 0" by simp
  then show ?thesis by (metis count_eq_zero_iff list.set_map set_mset_mset)
qed

subsection \<open>Claims\<close>

text \<open>
  Claim C25: on both platforms, opening a path either fails and leaves the open handles and live
  mappings exactly as they were, or returns a file which, after any sequential-access hint, gives
  back exactly the resources it took when it is dropped; no call closes a handle or unmaps a
  region that is not held.
\<close>

theorem mmap_resources_balanced:
  assumes "os_contract env files" "env_trace env tr" "run_res tr R0 = Some R" "mmap_open_path pf env path tr = (r, tr')"
  shows "(\<forall>e. r = Inl e \<longrightarrow> run_res tr' R0 = Some R) \<and>
     (\<forall>f. r = Inr f \<longrightarrow> run_res (mmap_drop env f tr') R0 = Some R \<and>
        run_res (mmap_drop env f (advise_sequential pf env f tr')) R0 = Some R)"
proof (intro conjI allI impI)
  note res = mmap_open_path_res [OF assms(4,3)]
  fix f
  assume f: "r = Inr f"
  note shape = mmap_open_path_content [OF assms(1,2), of pf path f tr'] assms(4) f
  have held: "run_res tr' R0 = Some (file_res f R)" using res f by simp
  show "run_res (mmap_drop env f tr') R0 = Some R" using drop_res held shape by blast
  have "run_res (advise_sequential pf env f tr') R0 = Some (file_res f R)"
    using held shape by (intro advise_res) blast+
  then show "run_res (mmap_drop env f (advise_sequential pf env f tr')) R0 = Some R" using drop_res shape by blast
qed (use mmap_open_path_res [OF assms(4,3)] in simp)

theorem mmap_resources_balanced_witness:
  "\<exists>f tr'. mmap_open_path Unix (sim_env (\<lambda>_. [97, 10])) ''f'' [] = (Inr f, tr') \<and>
     run_res tr' \<lparr>res_handles = [], res_maps = []\<rparr> \<noteq> Some \<lparr>res_handles = [], res_maps = []\<rparr> \<and>
     run_res (mmap_drop (sim_env (\<lambda>_. [97, 10])) f tr') \<lparr>res_handles = [], res_maps = []\<rparr> =
       Some \<lparr>res_handles = [], res_maps = []\<rparr>"
proof -
  let ?files = "\<lambda>_ :: path. [97, 10] :: byte list" and ?R = "\<lparr>res_handles = [], res_maps = []\<rparr>"
  have c: "os_contract (sim_env ?files) ?files" by (rule sim_contract) (simp add: sim_unit_def)
  obtain r tr' where o: "mmap_open_path Unix (sim_env ?files) ''f'' [] = (r, tr')" by force
  have f: "\<exists>f. r = Inr f \<and> mf_size f = 2"
    using o by (auto simp: mmap_open_path_def mmap_open_def probe_cstr_eligible_def probe_mmap_eligible_def
        probe_verdict_def cstring_new_def option_to_io_def open_unix_def Let_def sys_call_def usize_try_from_def
        sim_unit_def sim_addr_def MAP_FAILED_def)
  then obtain f where f: "r = Inr f" "mf_size f = 2" by blast
  have "run_res tr' ?R = Some (file_res f ?R)" using mmap_open_path_res [OF o, of ?R ?R] f by simp
  then have "run_res tr' ?R \<noteq> Some ?R" using f(2) by (auto simp: file_res_def res_defs split: os_handles.split)
  with o f mmap_resources_balanced [OF c _ _ o, of ?R ?R] show ?thesis by auto
qed

text \<open>
  Claim C24: a successfully opened file has the length of the file on disk and shows exactly its
  bytes, for as long as the mapping has not been released, whatever other calls the process makes
  meanwhile, provided they only read files.
\<close>

theorem mmap_shows_file:
  assumes "os_contract env files" "env_trace env tr" "mmap_open_path pf env path tr = (Inr f, tr')"
    "env_trace env (tr' @ later)" "\<forall>e\<in>set later. \<not> unmaps (mf_ptr f) e"
  shows "mmap_as_bytes env (tr' @ later) f = files path \<and>
     mmap_len f = length (files path) \<and>
     (mmap_is_empty f \<longleftrightarrow> files path = []) \<and> mmap_as_slice env (tr' @ later) f = files path"
  using mmap_open_path_content [OF assms(1-3)] assms(4,5)
  by (auto simp: maps_path_def mmap_len_def mmap_is_empty_def mmap_as_slice_def)

theorem mmap_shows_file_witness:
  "\<exists>f tr'. mmap_open_path Windows (sim_env (\<lambda>_. [97, 10])) ''f'' [] = (Inr f, tr') \<and>
     mmap_as_bytes (sim_env (\<lambda>_. [97, 10])) tr' f = [97, 10]"
proof -
  let ?files = "\<lambda>_ :: path. [97, 10] :: byte list"
  have c: "os_contract (sim_env ?files) ?files" by (rule sim_contract) (simp add: sim_unit_def)
  obtain r tr' where o: "mmap_open_path Windows (sim_env ?files) ''f'' [] = (r, tr')" by force
  then obtain f where f: "r = Inr f"
    by (auto simp: mmap_open_path_def probe_mmap_eligible_def probe_verdict_def option_to_io_def
        open_windows_wide_def Let_def sys_call_def usize_try_from_def sim_unit_def sim_addr_def INVALID_HANDLE_VALUE_def)
  have "env_trace (sim_env ?files) (tr' @ [])"
    using mmap_open_path_res [OF o, of "\<lparr>res_handles = [], res_maps = []\<rparr>"] by simp
  from o f mmap_shows_file [OF c env_trace_Nil o [unfolded f] this] show ?thesis by auto
qed

text \<open>
  Claim C26: the eligibility probe accepts exactly regular files, following a symbolic link to
  its target; every other type is refused with \<open>InvalidInput\<close>, metadata errors are passed on,
  and a refused path is never opened or mapped.
\<close>

theorem probe_fails_closed:
  "(fst (probe_mmap_eligible pf env path tr) = Inr () \<longleftrightarrow>
     (\<exists>t. env_lstat env tr path = Inr t \<and>
        (if t = FtSymlink then \<exists>meta. env_stat env (sys_do env (SysLstat path) tr) path = Inr meta \<and> meta_type meta = FtFile
         else t = FtFile))) \<and>
   (\<forall>e. fst (probe_mmap_eligible pf env path tr) = Inl e \<longrightarrow>
      (env_lstat env tr path = Inl e \<or>
       env_lstat env tr path = Inr FtSymlink \<and> env_stat env (sys_do env (SysLstat path) tr) path = Inl e \<or>
       err_kind e = InvalidInput) \<and>
      fst (mmap_open_path pf env path tr) = Inl e \<and>
      (\<exists>evs. snd (mmap_open_path pf env path tr) = tr @ evs \<and> set (map fst evs) \<subseteq> {SysLstat path, SysStat path}))"
  by (auto simp: probe_mmap_eligible_def Let_def probe_verdict_def io_err_def mmap_open_path_def sys_do_def
      split: sum.splits if_splits)

theorem probe_fails_closed_witness:
  "\<exists>e. fst (mmap_open_path Unix (sim_env (\<lambda>_. [])\<lparr>env_lstat := \<lambda>tr p. Inr FtFifo\<rparr>) ''pipe'' []) = Inl e"
proof -
  let ?env = "sim_env (\<lambda>_. [])\<lparr>env_lstat := \<lambda>tr p. Inr FtFifo\<rparr>"
  obtain e where "fst (probe_mmap_eligible Unix ?env ''pipe'' []) = Inl e"
    by (simp add: probe_mmap_eligible_def probe_verdict_def Let_def)
  with probe_fails_closed [of Unix ?env "''pipe''" "[]"] show ?thesis by blast
qed

end
