(* ===== verification/Mmap_Chunker.thy ===== *)
theory Mmap_Chunker
  imports Chunk_Plan Mmap_File
begin

section \<open>The Rust interface\<close>

text \<open>
  \<open>MmapChunker\<close> of \<open>src/src/lib.rs\<close>: a mapped file with a chunk layout that the scan and
  partition calls replace, and an optional pin that every such call revalidates first. Reading
  the metadata of the pinned path is a call of the trace, so the environment may answer
  differently each time. A panic of an operation is the value \<open>Panic\<close>; the calls that panic do so
  before they change the layout.
\<close>

record mmap_chunker =
  mc_mmap :: mmap_file
  mc_plan :: chunk_plan
  mc_pinned :: "pinned_file option"
  mc_pin_error :: "pin_mismatch option"

text \<open>\<open>PinnedFile::capture\<close> and \<open>revalidate\<close> at a point of the run.\<close>

definition capture_at :: "platform \<Rightarrow> os_env \<Rightarrow> path \<Rightarrow> 32 word \<Rightarrow> trace \<Rightarrow> pinned_file io \<times> trace" where
  "capture_at pf env path flags tr =
     (pin_capture pf (env_stat env tr) path flags,
      case effective_flags flags of
        Inl _ \<Rightarrow> tr
      | Inr _ \<Rightarrow> if pf \<noteq> Unix \<and> flags = PIN_IDENTITY then tr else sys_do env (SysStat path) tr)"

definition revalidate_at :: "platform \<Rightarrow> os_env \<Rightarrow> pinned_file \<Rightarrow> trace \<Rightarrow> (pin_mismatch + unit) \<times> trace" where
  "revalidate_at pf env p tr =
     (revalidate pf (env_stat env tr) p,
      case effective_flags (pin_flags p) of Inl _ \<Rightarrow> tr | Inr _ \<Rightarrow> sys_do env (SysStat (pin_path p)) tr)"

definition chunker_open :: "platform \<Rightarrow> os_env \<Rightarrow> path \<Rightarrow> trace \<Rightarrow> mmap_chunker io \<times> trace" where
  "chunker_open pf env path tr =
     (case mmap_open_path pf env path tr of
        (Inl e, tr1) \<Rightarrow> (Inl e, tr1)
      | (Inr f, tr1) \<Rightarrow> (Inr \<lparr>mc_mmap = f, mc_plan = plan_empty, mc_pinned = None, mc_pin_error = None\<rparr>, tr1))"

definition chunker_open_pinned :: "platform \<Rightarrow> os_env \<Rightarrow> path \<Rightarrow> 32 word \<Rightarrow> trace \<Rightarrow> mmap_chunker io \<times> trace" where
  "chunker_open_pinned pf env path flags tr =
     (case capture_at pf env path flags tr of
        (Inl e, tr1) \<Rightarrow> (Inl e, tr1)
      | (Inr pinned, tr1) \<Rightarrow>
          (case mmap_open_path pf env path tr1 of
             (Inl e, tr2) \<Rightarrow> (Inl e, tr2)
           | (Inr f, tr2) \<Rightarrow>
               (Inr \<lparr>mc_mmap = f, mc_plan = plan_empty, mc_pinned = Some pinned, mc_pin_error = None\<rparr>, tr2)))"

definition take_pin_error :: "mmap_chunker \<Rightarrow> pin_mismatch option \<times> mmap_chunker" where
  "take_pin_error c = (mc_pin_error c, c\<lparr>mc_pin_error := None\<rparr>)"

definition pin_status :: "mmap_chunker \<Rightarrow> pin_mismatch + unit" where
  "pin_status c = (case mc_pin_error c of Some err \<Rightarrow> Inl err | None \<Rightarrow> Inr ())"

definition check_pinned :: "platform \<Rightarrow> os_env \<Rightarrow> mmap_chunker \<Rightarrow> trace \<Rightarrow> bool \<times> mmap_chunker \<times> trace" where
  "check_pinned pf env c tr =
     (case mc_pinned c of
        None \<Rightarrow> (True, c, tr)
      | Some pinned \<Rightarrow>
          (case revalidate_at pf env pinned tr of
             (Inr _, tr1) \<Rightarrow> (True, c\<lparr>mc_pin_error := None\<rparr>, tr1)
           | (Inl err, tr1) \<Rightarrow> (False, c\<lparr>mc_plan := plan_empty, mc_pin_error := Some err\<rparr>, tr1)))"

definition chunk_count :: "mmap_chunker \<Rightarrow> nat" where
  "chunk_count c = plan_len (mc_plan c)"

definition set_plan :: "mmap_chunker \<Rightarrow> chunk_plan \<Rightarrow> trace \<Rightarrow> nat \<times> mmap_chunker \<times> trace" where
  "set_plan c p tr = (plan_len p, c\<lparr>mc_plan := p\<rparr>, tr)"

definition scan_delimited ::
  "platform \<Rightarrow> os_env \<Rightarrow> mmap_chunker \<Rightarrow> nat \<Rightarrow> byte \<Rightarrow> trace \<Rightarrow> (nat \<times> mmap_chunker \<times> trace) run" where
  "scan_delimited pf env c chunk_size delimiter tr =
     (case check_pinned pf env c tr of
        (ok, c1, tr1) \<Rightarrow>
          if \<not> ok then Ret (0, c1, tr1)
          else
            let data = mmap_as_bytes env tr1 (mc_mmap c1) in
            if data = [] then Ret (0, c1\<lparr>mc_plan := plan_empty\<rparr>, tr1)
            else rmap (\<lambda>chunks. set_plan c1 (from_ranges chunks) tr1)
                   (find_chunk_boundaries (mf_ptr (mc_mmap c1)) data chunk_size delimiter))"

definition scan_fixed :: "platform \<Rightarrow> os_env \<Rightarrow> mmap_chunker \<Rightarrow> nat \<Rightarrow> trace \<Rightarrow> nat \<times> mmap_chunker \<times> trace" where
  "scan_fixed pf env c chunk_size tr =
     (case check_pinned pf env c tr of
        (ok, c1, tr1) \<Rightarrow>
          if \<not> ok then (0, c1, tr1)
          else
            let file_len = mmap_len (mc_mmap c1)
            in set_plan c1 (plan_fixed file_len chunk_size) tr1)"

definition partition_records ::
  "platform \<Rightarrow> os_env \<Rightarrow> mmap_chunker \<Rightarrow> nat \<Rightarrow> byte \<Rightarrow> trace \<Rightarrow> (nat \<times> mmap_chunker \<times> trace) run" where
  "partition_records pf env c num_partitions delimiter tr =
     (case check_pinned pf env c tr of
        (ok, c1, tr1) \<Rightarrow>
          if \<not> ok then Ret (0, c1, tr1)
          else
            let data = mmap_as_bytes env tr1 (mc_mmap c1); file_len = slen data in
            if file_len = 0 \<or> num_partitions = 0 then Ret (0, c1\<lparr>mc_plan := plan_empty\<rparr>, tr1)
            else rmap (\<lambda>partitions. set_plan c1 (from_ranges partitions) tr1)
                   (find_partition_boundaries (mf_ptr (mc_mmap c1)) data num_partitions delimiter))"

definition partition_records_pattern ::
  "platform \<Rightarrow> os_env \<Rightarrow> mmap_chunker \<Rightarrow> nat \<Rightarrow> bytes \<Rightarrow> trace \<Rightarrow> (nat \<times> mmap_chunker \<times> trace) run" where
  "partition_records_pattern pf env c num_partitions delimiter tr =
     (case check_pinned pf env c tr of
        (ok, c1, tr1) \<Rightarrow>
          if \<not> ok then Ret (0, c1, tr1)
          else
            let data = mmap_as_bytes env tr1 (mc_mmap c1); file_len = slen data in
            if file_len = 0 \<or> num_partitions = 0 then Ret (0, c1\<lparr>mc_plan := plan_empty\<rparr>, tr1)
            else rmap (\<lambda>partitions. set_plan c1 (from_ranges partitions) tr1)
                   (find_partition_boundaries_pattern (mf_ptr (mc_mmap c1)) data num_partitions delimiter))"

definition scan_delimited_pattern ::
  "platform \<Rightarrow> os_env \<Rightarrow> mmap_chunker \<Rightarrow> nat \<Rightarrow> bytes \<Rightarrow> trace \<Rightarrow> (nat \<times> mmap_chunker \<times> trace) run" where
  "scan_delimited_pattern pf env c chunk_size delimiter tr =
     (case check_pinned pf env c tr of
        (ok, c1, tr1) \<Rightarrow>
          if \<not> ok then Ret (0, c1, tr1)
          else
            let data = mmap_as_bytes env tr1 (mc_mmap c1) in
            if data = [] then Ret (0, c1\<lparr>mc_plan := plan_empty\<rparr>, tr1)
            else rmap (\<lambda>chunks. set_plan c1 (from_ranges chunks) tr1)
                   (find_chunk_boundaries_pattern (mf_ptr (mc_mmap c1)) data chunk_size delimiter))"

definition chunker_as_bytes :: "os_env \<Rightarrow> mmap_chunker \<Rightarrow> trace \<Rightarrow> bytes" where
  "chunker_as_bytes env c tr = mmap_as_bytes env tr (mc_mmap c)"

definition chunker_len :: "mmap_chunker \<Rightarrow> nat" where
  "chunker_len c = mmap_len (mc_mmap c)"

definition chunker_is_empty :: "mmap_chunker \<Rightarrow> bool" where
  "chunker_is_empty c \<longleftrightarrow> mmap_is_empty (mc_mmap c)"

definition delimited_cursor :: "os_env \<Rightarrow> mmap_chunker \<Rightarrow> nat \<Rightarrow> byte \<Rightarrow> trace \<Rightarrow> chunk_cursor" where
  "delimited_cursor env c chunk_size delimiter tr =
     cursor_new (mf_ptr (mc_mmap c)) (chunker_as_bytes env c tr) chunk_size delimiter"

definition delimited_cursor_pattern :: "os_env \<Rightarrow> mmap_chunker \<Rightarrow> nat \<Rightarrow> bytes \<Rightarrow> trace \<Rightarrow> pattern_cursor run" where
  "delimited_cursor_pattern env c chunk_size delimiter tr =
     pattern_cursor_new (mf_ptr (mc_mmap c)) (chunker_as_bytes env c tr) chunk_size delimiter"

definition get_chunk :: "os_env \<Rightarrow> mmap_chunker \<Rightarrow> nat \<Rightarrow> trace \<Rightarrow> bytes option run" where
  "get_chunk env c index tr =
     (let data = mmap_as_bytes env tr (mc_mmap c) in
      case range_at (mc_plan c) index (slen data) of
        None \<Rightarrow> Ret None
      | Some (s, e) \<Rightarrow> rmap Some (slice_range data s e))"

definition chunker_drop :: "os_env \<Rightarrow> mmap_chunker \<Rightarrow> trace \<Rightarrow> trace" where
  "chunker_drop env c tr = mmap_drop env (mc_mmap c) tr"

subsection \<open>The state machine\<close>

datatype chunker_op =
    ScanDelimited nat byte
  | ScanFixed nat
  | ScanPattern nat bytes
  | PartitionRecords nat byte
  | PartitionPattern nat bytes

fun run_op :: "platform \<Rightarrow> os_env \<Rightarrow> mmap_chunker \<Rightarrow> chunker_op \<Rightarrow> trace \<Rightarrow> (nat \<times> mmap_chunker \<times> trace) run" where
  "run_op pf env c (ScanDelimited chunk_size d) tr = scan_delimited pf env c chunk_size d tr"
| "run_op pf env c (ScanFixed chunk_size) tr = Ret (scan_fixed pf env c chunk_size tr)"
| "run_op pf env c (ScanPattern chunk_size p) tr = scan_delimited_pattern pf env c chunk_size p tr"
| "run_op pf env c (PartitionRecords n d) tr = partition_records pf env c n d tr"
| "run_op pf env c (PartitionPattern n p) tr = partition_records_pattern pf env c n p tr"

text \<open>The arguments a caller can pass: sizes are machine words and slices fit the address space.\<close>

fun op_ok :: "chunker_op \<Rightarrow> bool" where
  "op_ok (ScanDelimited chunk_size d) \<longleftrightarrow> chunk_size \<le> usize_max"
| "op_ok (ScanFixed chunk_size) \<longleftrightarrow> chunk_size \<le> usize_max"
| "op_ok (ScanPattern chunk_size p) \<longleftrightarrow> chunk_size \<le> usize_max \<and> valid_slice p"
| "op_ok (PartitionRecords n d) \<longleftrightarrow> n \<le> usize_max"
| "op_ok (PartitionPattern n p) \<longleftrightarrow> n \<le> usize_max \<and> valid_slice p"

text \<open>
  A handle in use: opened with or without a pin, driven by the operations, and interleaved with
  any other calls of the process that only read and leave its mapping alone. An operation whose
  panic is caught (\<open>catch_unwind\<close> of a caller) leaves the state the pin check produced: the panic
  unwinds out of the scanner, before the layout is assigned.
\<close>

inductive chunker_reach :: "platform \<Rightarrow> os_env \<Rightarrow> path \<Rightarrow> trace \<Rightarrow> mmap_chunker \<Rightarrow> trace \<Rightarrow> bool"
  for pf env path tr0 where
  opened: "chunker_open pf env path tr0 = (Inr c, tr) \<Longrightarrow> chunker_reach pf env path tr0 c tr"
| opened_pinned: "chunker_open_pinned pf env path flags tr0 = (Inr c, tr) \<Longrightarrow> chunker_reach pf env path tr0 c tr"
| op_step: "chunker_reach pf env path tr0 c tr \<Longrightarrow> op_ok op \<Longrightarrow> run_op pf env c op tr = Ret (n, c', tr') \<Longrightarrow>
    chunker_reach pf env path tr0 c' tr'"
| op_caught: "chunker_reach pf env path tr0 c tr \<Longrightarrow> op_ok op \<Longrightarrow> run_op pf env c op tr = Panic msg \<Longrightarrow>
    check_pinned pf env c tr = (ok, c', tr') \<Longrightarrow> chunker_reach pf env path tr0 c' tr'"
| take_error: "chunker_reach pf env path tr0 c tr \<Longrightarrow> take_pin_error c = (err, c') \<Longrightarrow> chunker_reach pf env path tr0 c' tr"
| other: "chunker_reach pf env path tr0 c tr \<Longrightarrow> read_only call \<Longrightarrow>
    \<not> unmaps (mf_ptr (mc_mmap c)) (call, env_sys env tr call) \<Longrightarrow> chunker_reach pf env path tr0 c (sys_do env call tr)"


subsection \<open>What the operations compute\<close>

text \<open>The layout each operation gives a file, over the reference definitions of the scanner.\<close>

fun op_layout :: "bytes \<Rightarrow> chunker_op \<Rightarrow> chunk_plan" where
  "op_layout content (ScanDelimited chunk_size d) = from_ranges (chunks_from [d] content chunk_size 0)"
| "op_layout content (ScanFixed chunk_size) = plan_fixed (length content) chunk_size"
| "op_layout content (ScanPattern chunk_size p) = from_ranges (chunks_from p content chunk_size 0)"
| "op_layout content (PartitionRecords n d) = from_ranges (plan_spec (record_cut [d] content) (length content) n)"
| "op_layout content (PartitionPattern n p) = from_ranges (plan_spec (record_cut p content) (length content) n)"

text \<open>
  The message an operation panics with on a file, if it does: an empty pattern, or a chunk scan
  whose result vector would exceed \<open>isize::MAX\<close> bytes.
\<close>

fun op_panic :: "bytes \<Rightarrow> chunker_op \<Rightarrow> string option" where
  "op_panic content (ScanDelimited chunk_size d) = (if scan_fits content chunk_size then None else Some capacity_msg)"
| "op_panic content (ScanPattern chunk_size p) =
     (if content = [] then None
      else if p = [] then Some empty_delimiter_msg
      else if scan_fits content chunk_size then None else Some capacity_msg)"
| "op_panic content (PartitionPattern n p) =
     (if content \<noteq> [] \<and> n \<noteq> 0 \<and> p = [] then Some empty_delimiter_msg else None)"
| "op_panic content (ScanFixed chunk_size) = None"
| "op_panic content (PartitionRecords n d) = None"

lemma plan_spec_layout: "plan_ok (length (content :: bytes)) (from_ranges (plan_spec (record_cut p content) (length content) n))"
  using rec.plan_spec_tiles [of n p content] by (cases "n = 0") (simp_all add: from_ranges_ok plan_spec_def)

lemma op_layout_ok: "op_ok op \<Longrightarrow> plan_ok (length content) (op_layout content op)"
  by (cases op) (simp_all add: from_ranges_ok chunks_from_tiles plan_fixed_ok plan_spec_layout)

lemma op_layout_Nil: "op_layout [] op = PlanEmpty"
  by (cases op) (simp_all add: chunks_from.simps from_ranges_def plan_fixed_def plan_spec_def)

lemma empty_pattern_panics:
  "find_chunk_boundaries_pattern ptr data n [] = Panic empty_delimiter_msg"
  "find_partition_boundaries_pattern ptr data n [] = Panic empty_delimiter_msg"
  by (simp_all add: find_chunk_boundaries_pattern_def find_partition_boundaries_pattern_def)

lemma plan_spec_zero: "from_ranges (plan_spec cutf len 0) = PlanEmpty"
  by (simp add: plan_spec_def from_ranges_def)

lemma plan_spec_min:
  "plan_spec (record_cut p content) (length content) (min n (length content)) =
     plan_spec (record_cut p content) (length (content :: bytes)) n"
  by (rule rec.plan_spec_cap [symmetric])

text \<open>The state an operation leaves once the pin check has passed.\<close>

lemma run_op_unfold:
  assumes "mmap_as_bytes env tr1 (mc_mmap c1) = content" "mf_size (mc_mmap c1) = length content" "valid_slice content"
    "op_ok op" "check_pinned pf env c tr = (ok, c1, tr1)"
  shows "run_op pf env c op tr =
     (if \<not> ok then Ret (0, c1, tr1)
      else case op_panic content op of
        Some msg \<Rightarrow> Panic msg
      | None \<Rightarrow> Ret (plan_len (op_layout content op), c1\<lparr>mc_plan := op_layout content op\<rparr>, tr1))"
proof (cases "content = []")
  case True
  with assms show ?thesis
    by (cases op)
      (auto simp: scan_delimited_def scan_fixed_def scan_delimited_pattern_def partition_records_def
        partition_records_pattern_def set_plan_def mmap_len_def op_layout_Nil plan_empty_def Let_def
        plan_fixed_def slen_def as_usize_def simp del: op_layout.simps)
next
  case False
  note defs = scan_delimited_def scan_fixed_def scan_delimited_pattern_def partition_records_def
    partition_records_pattern_def set_plan_def mmap_len_def plan_empty_def Let_def
  note specs = find_chunk_boundaries_spec find_chunk_boundaries_pattern_spec find_partition_boundaries_spec
    find_partition_boundaries_pattern_spec empty_pattern_panics plan_spec_zero plan_spec_min
  show ?thesis
  proof (cases op)
    case (ScanPattern n p)
    with False assms show ?thesis
      by (cases "p = []"; cases "scan_fits content n") (simp_all add: defs specs)
  next
    case (ScanDelimited n d)
    with False assms show ?thesis by (cases "scan_fits content n") (simp_all add: defs specs)
  next
    case (PartitionPattern n p)
    with False assms show ?thesis by (cases "p = []"; cases "n = 0") (simp_all add: defs specs)
  qed (use False assms in \<open>auto simp: defs specs\<close>)
qed

subsection \<open>The invariant of a handle in use\<close>

text \<open>
  The mapping made when the handle was opened is live and shows the file, the layout is one of
  the file, a pin is a captured one, and a stashed mismatch goes with an empty layout.
\<close>

definition maps_file :: "os_env \<Rightarrow> bytes \<Rightarrow> mmap_file \<Rightarrow> trace \<Rightarrow> bool" where
  "maps_file env content f tr \<longleftrightarrow>
     env_trace env tr \<and> file_shape f \<and>
     (\<exists>t0 later. tr = t0 @ later \<and> (\<forall>e\<in>set later. \<not> unmaps (mf_ptr f) e) \<and> maps_path env content f t0)"

definition chunker_inv :: "os_env \<Rightarrow> bytes \<Rightarrow> mmap_chunker \<Rightarrow> trace \<Rightarrow> bool" where
  "chunker_inv env content c tr \<longleftrightarrow>
     maps_file env content (mc_mmap c) tr \<and> plan_ok (length content) (mc_plan c) \<and>
     (mc_pin_error c \<noteq> None \<longrightarrow> mc_plan c = PlanEmpty \<and> mc_pinned c \<noteq> None)"

lemma maps_fileD:
  assumes "maps_file env content f tr"
  shows "mmap_as_bytes env tr f = content" "mf_size f = length content" "valid_slice content" "env_trace env tr" "file_shape f"
  using assms by (auto simp: maps_file_def maps_path_def)

lemma maps_file_do:
  assumes "maps_file env content f tr" "read_only call" "\<not> unmaps (mf_ptr f) (call, env_sys env tr call)"
  shows "maps_file env content f (sys_do env call tr)"
proof -
  obtain t0 later where "tr = t0 @ later" "\<forall>e\<in>set later. \<not> unmaps (mf_ptr f) e" "maps_path env content f t0"
    using assms(1) by (auto simp: maps_file_def)
  then have "sys_do env call tr = t0 @ (later @ [(call, env_sys env tr call)]) \<and>
      (\<forall>e\<in>set (later @ [(call, env_sys env tr call)]). \<not> unmaps (mf_ptr f) e) \<and> maps_path env content f t0"
    using assms(3) by (auto simp: sys_do_def)
  with assms(1,2) show ?thesis unfolding maps_file_def env_trace_sys by blast
qed

lemma revalidate_at_trace:
  "revalidate_at pf env p tr = (r, tr1) \<Longrightarrow> tr1 = tr \<or> tr1 = sys_do env (SysStat (pin_path p)) tr"
  by (auto simp: revalidate_at_def split: sum.splits)

lemma check_pinned_trace:
  "check_pinned pf env c tr = (ok, c1, tr1) \<Longrightarrow> tr1 = tr \<or> (\<exists>p. tr1 = sys_do env (SysStat p) tr)"
  by (auto simp: check_pinned_def split: option.splits prod.splits sum.splits dest!: revalidate_at_trace)

lemma check_pinned_keeps:
  "check_pinned pf env c tr = (ok, c1, tr1) \<Longrightarrow>
     mc_mmap c1 = mc_mmap c \<and> mc_pinned c1 = mc_pinned c \<and> (ok \<longrightarrow> mc_plan c1 = mc_plan c \<and> (mc_pinned c \<noteq> None \<longrightarrow> mc_pin_error c1 = None)) \<and>
     (\<not> ok \<longrightarrow> mc_plan c1 = PlanEmpty \<and> mc_pin_error c1 \<noteq> None \<and> mc_pinned c \<noteq> None)"
  by (auto simp: check_pinned_def plan_empty_def split: option.splits prod.splits sum.splits)

lemma maps_file_stat: "maps_file env content f tr \<Longrightarrow> maps_file env content f (sys_do env (SysStat p) tr)"
  by (rule maps_file_do) simp_all

lemma run_op_inv:
  assumes "chunker_inv env content c tr" "op_ok op" "check_pinned pf env c tr = (ok, c1, tr1)"
  shows "maps_file env content (mc_mmap c1) tr1 \<and>
     run_op pf env c op tr =
     (if \<not> ok then Ret (0, c1, tr1)
      else case op_panic content op of
        Some msg \<Rightarrow> Panic msg
      | None \<Rightarrow> Ret (plan_len (op_layout content op), c1\<lparr>mc_plan := op_layout content op\<rparr>, tr1))"
proof -
  have m: "maps_file env content (mc_mmap c1) tr1"
    using assms check_pinned_trace [OF assms(3)] check_pinned_keeps [OF assms(3)] maps_file_stat
    by (auto simp: chunker_inv_def)
  with run_op_unfold [OF maps_fileD(1-3) assms(2,3)] show ?thesis by blast
qed

lemma run_op_keeps_inv:
  assumes "chunker_inv env content c tr" "op_ok op" "run_op pf env c op tr = Ret (n, c', tr')"
  shows "chunker_inv env content c' tr' \<and> n = chunk_count c'"
proof -
  obtain ok c1 tr1 where k: "check_pinned pf env c tr = (ok, c1, tr1)" by (metis prod_cases3)
  have "mc_pin_error c \<noteq> None \<longrightarrow> mc_pinned c \<noteq> None" using assms(1) by (simp add: chunker_inv_def)
  moreover have "mc_pinned c = None \<longrightarrow> mc_pin_error c1 = mc_pin_error c"
    using k by (auto simp: check_pinned_def)
  ultimately show ?thesis
    using run_op_inv [OF assms(1,2) k] assms(3) check_pinned_keeps [OF k] op_layout_ok [OF assms(2), of content]
    by (auto simp: chunker_inv_def chunk_count_def split: if_splits option.splits)
qed

lemma check_pinned_inv:
  assumes "chunker_inv env content c tr" "check_pinned pf env c tr = (ok, c1, tr1)"
  shows "chunker_inv env content c1 tr1"
proof -
  have "mc_pinned c = None \<Longrightarrow> mc_pin_error c1 = mc_pin_error c" using assms(2) by (simp add: check_pinned_def)
  then show ?thesis
    using assms(1) check_pinned_trace [OF assms(2)] check_pinned_keeps [OF assms(2)] maps_file_stat
    by (cases ok) (auto simp: chunker_inv_def)
qed

lemma opened_inv:
  assumes "os_contract env files" "env_trace env tr" "mmap_open_path pf env path tr = (Inr f, tr')"
  shows "maps_file env (files path) f tr'"
  using mmap_open_path_content [OF assms] mmap_open_path_env_trace [OF assms(3)] assms(2)
  unfolding maps_file_def by (intro conjI exI [of _ tr'] exI [of _ "[]"]) auto

lemma capture_at_trace:
  "capture_at pf env path flags tr = (r, tr1) \<Longrightarrow> tr1 = tr \<or> tr1 = sys_do env (SysStat path) tr"
  by (auto simp: capture_at_def split: sum.splits if_splits)

lemma open_inv:
  assumes "os_contract env files" "env_trace env tr"
  shows "chunker_open pf env path tr = (Inr c, tr') \<Longrightarrow> chunker_inv env (files path) c tr'"
    and "chunker_open_pinned pf env path flags tr = (Inr c, tr') \<Longrightarrow> chunker_inv env (files path) c tr'"
proof -
  show "chunker_open pf env path tr = (Inr c, tr') \<Longrightarrow> chunker_inv env (files path) c tr'"
    using opened_inv [OF assms] by (auto simp: chunker_open_def chunker_inv_def split: prod.splits sum.splits)
  assume o: "chunker_open_pinned pf env path flags tr = (Inr c, tr')"
  then obtain r tr1 where k: "capture_at pf env path flags tr = (r, tr1)" by force
  then have "env_trace env tr1" using capture_at_trace [OF k] assms(2) by auto
  with o k show "chunker_inv env (files path) c tr'"
    using opened_inv [OF assms(1)] by (auto simp: chunker_open_pinned_def chunker_inv_def split: prod.splits sum.splits)
qed

lemma chunker_reach_inv:
  assumes "os_contract env files" "env_trace env tr0" "chunker_reach pf env path tr0 c tr"
  shows "chunker_inv env (files path) c tr"
  using assms(3)
proof induction
  case (op_step c tr op n c' tr')
  then show ?case using run_op_keeps_inv by blast
next
  case (op_caught c tr op msg ok c' tr')
  then show ?case using check_pinned_inv by blast
next
  case (take_error c tr err c')
  then show ?case by (auto simp: take_pin_error_def chunker_inv_def)
next
  case (other c tr call)
  then show ?case using maps_file_do by (auto simp: chunker_inv_def)
qed (use open_inv [OF assms(1,2)] in blast)+

subsection \<open>Reading chunks\<close>

lemma get_chunk_spec:
  assumes "chunker_inv env content c tr"
  shows "get_chunk env c i tr =
     Ret (if i < chunk_count c then Some (subslice content (the (range_at (mc_plan c) i (length content)))) else None)"
proof -
  note m = maps_fileD(1,3) [of env content "mc_mmap c" tr]
  from assms have ok: "plan_ok (length content) (mc_plan c)" and d: "mmap_as_bytes env tr (mc_mmap c) = content" "valid_slice content"
    using m by (auto simp: chunker_inv_def)
  have l: "length content \<le> usize_max" using d(2) valid_slice_usize less_imp_le by blast
  note r = range_at_Some_iff [OF ok l, of i] range_at_in_bounds [OF ok l, of i]
  show ?thesis
    using r d by (cases "range_at (mc_plan c) i (length content)")
      (fastforce simp: get_chunk_def chunk_count_def slice_range_def subslice_def)+
qed

lemma chunks_concat:
  assumes "chunker_inv env content c tr" "chunk_count c \<noteq> 0"
  shows "concat (map (\<lambda>i. subslice content (the (range_at (mc_plan c) i (length content)))) [0..<chunk_count c]) = content"
proof -
  have l: "plan_ok (length content) (mc_plan c)" "length content \<le> usize_max"
    using assms(1) valid_slice_usize [OF maps_fileD(3)] by (auto simp: chunker_inv_def less_imp_le)
  have "tiles 0 (plan_ranges (mc_plan c) (length content)) (length content)"
    using plan_ranges_tile [OF l] assms(2) by (cases "mc_plan c = PlanEmpty") (auto simp: chunk_count_def)
  then show ?thesis using concat_tiles [of "plan_ranges (mc_plan c) (length content)" content]
    by (simp add: plan_ranges_def chunk_count_def comp_def)
qed

subsection \<open>Pins, cursors and resources\<close>

text \<open>The pin of a handle is one that \<open>open_pinned\<close> captured for its path.\<close>

lemma reach_pinned:
  assumes "chunker_reach pf env path tr0 c tr" "mc_pinned c = Some p"
  shows "\<exists>t flags. pin_capture pf (env_stat env t) path flags = Inr p"
  using assms
proof induction
  case (opened_pinned flags c tr)
  then have "pin_capture pf (env_stat env tr0) path flags = Inr p"
    by (auto simp: chunker_open_pinned_def capture_at_def split: prod.splits sum.splits)
  then show ?case by blast
next
  case (op_step c tr op n c' tr')
  obtain ok c1 tr1 where k: "check_pinned pf env c tr = (ok, c1, tr1)" by (metis prod_cases3)
  have "mc_pinned c' = mc_pinned c"
    using op_step.hyps check_pinned_keeps [OF k] k
    by (cases op)
      (auto simp: scan_delimited_def scan_fixed_def scan_delimited_pattern_def partition_records_def
        partition_records_pattern_def set_plan_def Let_def split: if_splits)
  with op_step show ?case by simp
next
  case (op_caught c tr op msg ok c' tr')
  then show ?case using check_pinned_keeps [OF op_caught.hyps(4)] by simp
qed (auto simp: chunker_open_def take_pin_error_def split: prod.splits sum.splits)

lemma captured_pin:
  assumes "pin_capture pf (env_stat env t) path flags = Inr p"
  shows "\<exists>m0. revalidate_at pf env p tr = (revalidate pf (env_stat env tr) p, sys_do env (SysStat path) tr) \<and>
     revalidate_kind (revalidate pf (env_stat env tr) p) = revalidate_verdict pf flags m0 (env_stat env tr path)"
proof -
  obtain m0 where p: "unat flags < 8" "p = \<lparr>pin_path = path, pin_identity = capture_from_metadata pf m0, pin_flags = flags\<rparr>"
    using assms by (auto simp: pin_capture_Inr)
  then have "effective_flags (pin_flags p) = Inr (if flags = 0 then PIN_ALL else flags)"
    by (simp add: effective_flags_Inr_iff)
  with p revalidate_captured [OF p(1)] show ?thesis by (auto simp: revalidate_at_def)
qed

lemma verdict_not_rotated: "revalidate_verdict pf flags m0 now \<noteq> Some Rotated"
  by (auto simp: revalidate_verdict_def split: sum.split)

text \<open>A sequence of operations on one handle.\<close>

fun run_ops :: "platform \<Rightarrow> os_env \<Rightarrow> mmap_chunker \<Rightarrow> chunker_op list \<Rightarrow> trace \<Rightarrow> (mmap_chunker \<times> trace) run" where
  "run_ops pf env c [] tr = Ret (c, tr)"
| "run_ops pf env c (op # ops) tr =
     rbind (run_op pf env c op tr) (\<lambda>(n, c', tr'). run_ops pf env c' ops tr')"

lemma run_op_trace:
  assumes "chunker_inv env content c tr" "op_ok op" "run_op pf env c op tr = Ret (n, c', tr')"
  shows "mc_mmap c' = mc_mmap c \<and> (tr' = tr \<or> (\<exists>p. tr' = sys_do env (SysStat p) tr))"
proof -
  obtain ok c1 tr1 where k: "check_pinned pf env c tr = (ok, c1, tr1)" by (metis prod_cases3)
  show ?thesis
    using run_op_inv [OF assms(1,2) k] assms(3) check_pinned_keeps [OF k] check_pinned_trace [OF k]
    by (auto split: if_splits option.splits)
qed

lemma run_ops_res:
  assumes "chunker_inv env content c tr" "list_all op_ok ops" "run_ops pf env c ops tr = Ret (c', tr')"
  shows "chunker_inv env content c' tr' \<and> mc_mmap c' = mc_mmap c \<and> run_res tr' R0 = run_res tr R0"
  using assms
proof (induction ops arbitrary: c tr)
  case (Cons op ops)
  then obtain n c1 tr1 where o: "run_op pf env c op tr = Ret (n, c1, tr1)" "run_ops pf env c1 ops tr1 = Ret (c', tr')"
    by (auto simp: rbind_Ret_iff)
  have ok: "op_ok op" using Cons.prems by simp
  have "run_res (sys_do env (SysStat p) tr) R0 = run_res tr R0" for p
    by (cases "run_res tr R0") simp_all
  then have "run_res tr1 R0 = run_res tr R0" "mc_mmap c1 = mc_mmap c" "chunker_inv env content c1 tr1"
    using run_op_trace [OF Cons.prems(1) ok o(1)] run_op_keeps_inv [OF Cons.prems(1) ok o(1)] by auto
  with Cons.IH [of c1 tr1] Cons.prems o show ?case by simp
qed simp

lemma run_ops_returns:
  assumes "chunker_inv env content c tr" "list_all op_ok ops" "\<forall>op\<in>set ops. op_panic content op = None"
  shows "\<exists>c' tr'. run_ops pf env c ops tr = Ret (c', tr')"
  using assms
proof (induction ops arbitrary: c tr)
  case (Cons op ops)
  obtain ok c1 tr1 where k: "check_pinned pf env c tr = (ok, c1, tr1)" by (metis prod_cases3)
  with Cons.prems obtain n c2 where o: "run_op pf env c op tr = Ret (n, c2, tr1)"
    using run_op_inv [OF _ _ k, of content op] by (cases ok) auto
  then have "chunker_inv env content c2 tr1" using Cons.prems run_op_keeps_inv [OF _ _ o] by auto
  with Cons o show ?case by simp
qed simp

lemma chunker_open_res:
  assumes "run_res tr R0 = Some R"
    "chunker_open pf env path tr = (r, tr') \<or> chunker_open_pinned pf env path flags tr = (r, tr')"
  shows "run_res tr' R0 = Some (case r of Inl e \<Rightarrow> R | Inr c \<Rightarrow> file_res (mc_mmap c) R)"
  using assms(2)
proof
  assume "chunker_open pf env path tr = (r, tr')"
  then show ?thesis
    using mmap_open_path_res [OF _ assms(1), of pf env path]
    by (cases "mmap_open_path pf env path tr") (force simp: chunker_open_def split: sum.splits)
next
  assume o: "chunker_open_pinned pf env path flags tr = (r, tr')"
  obtain q t1 where k: "capture_at pf env path flags tr = (q, t1)" by force
  then have "run_res t1 R0 = Some R" using capture_at_trace [OF k] assms(1) by auto
  with o k show ?thesis
    using mmap_open_path_res [of pf env path t1 _ _ R0 R]
    by (cases "mmap_open_path pf env path t1") (force simp: chunker_open_pinned_def split: sum.splits)
qed

subsection \<open>Claims\<close>

text \<open>
  Claim C4: in every state a handle can reach, whatever operations and other reading calls of the
  process came before, the mapped bytes are the file, reading a chunk never panics and answers exactly
  the indices below the chunk count, the chunks of a non-empty layout are non-empty and
  concatenate to the file, and a stashed pin mismatch means that no chunk can be read.
\<close>

theorem chunker_invariant:
  assumes "os_contract env files" "env_trace env tr0" "chunker_reach pf env path tr0 c tr"
  shows "chunker_as_bytes env c tr = files path \<and> chunker_len c = length (files path) \<and>
     (chunker_is_empty c \<longleftrightarrow> files path = []) \<and>
     (\<exists>chunks. length chunks = chunk_count c \<and> [] \<notin> set chunks \<and>
        (\<forall>i. get_chunk env c i tr = Ret (if i < chunk_count c then Some (chunks ! i) else None)) \<and>
        (chunk_count c \<noteq> 0 \<longrightarrow> concat chunks = files path)) \<and>
     (pin_status c \<noteq> Inr () \<longrightarrow> chunk_count c = 0)"
proof -
  have inv: "chunker_inv env (files path) c tr" by (rule chunker_reach_inv [OF assms])
  then have m: "maps_file env (files path) (mc_mmap c) tr" "plan_ok (length (files path)) (mc_plan c)"
    by (simp_all add: chunker_inv_def)
  have l: "length (files path) \<le> usize_max" using valid_slice_usize [OF maps_fileD(3) [OF m(1)]] by simp
  let ?at = "\<lambda>i. subslice (files path) (the (range_at (mc_plan c) i (length (files path))))"
  have ne: "?at i \<noteq> []" if "i < chunk_count c" for i
  proof -
    obtain a b where ab: "range_at (mc_plan c) i (length (files path)) = Some (a, b)"
      using range_at_Some_iff [OF m(2) l, of i] \<open>i < chunk_count c\<close> by (auto simp: chunk_count_def)
    with range_at_in_bounds [OF m(2) l ab] show ?thesis by (simp add: subslice_def)
  qed
  have "[] \<notin> set (map ?at [0..<chunk_count c])"
  proof
    assume "[] \<in> set (map ?at [0..<chunk_count c])"
    then obtain i where "i < chunk_count c" "?at i = []" by auto
    with ne show False by blast
  qed
  then have "\<exists>chunks. length chunks = chunk_count c \<and> [] \<notin> set chunks \<and>
        (\<forall>i. get_chunk env c i tr = Ret (if i < chunk_count c then Some (chunks ! i) else None)) \<and>
        (chunk_count c \<noteq> 0 \<longrightarrow> concat chunks = files path)"
    using get_chunk_spec [OF inv] chunks_concat [OF inv]
    by (intro exI [of _ "map ?at [0..<chunk_count c]"]) simp
  moreover have "pin_status c \<noteq> Inr () \<longrightarrow> chunk_count c = 0"
    using inv by (auto simp: chunker_inv_def pin_status_def chunk_count_def split: option.splits)
  ultimately show ?thesis
    using maps_fileD [OF m(1)]
    by (simp add: chunker_as_bytes_def chunker_len_def mmap_len_def chunker_is_empty_def mmap_is_empty_def)
qed

lemma sim_chunker_open:
  obtains c tr where "chunker_open Unix (sim_env (\<lambda>_. [97, 10, 98])) ''f'' [] = (Inr c, tr)"
proof -
  obtain r tr where o: "mmap_open_path Unix (sim_env (\<lambda>_. [97, 10, 98])) ''f'' [] = (r, tr)" by force
  moreover have "\<exists>f. r = Inr f"
    using o by (auto simp: mmap_open_path_def mmap_open_def probe_cstr_eligible_def probe_mmap_eligible_def
        probe_verdict_def cstring_new_def option_to_io_def open_unix_def Let_def sys_call_def usize_try_from_def
        sim_unit_def sim_addr_def MAP_FAILED_def)
  ultimately show thesis using that by (auto simp: chunker_open_def)
qed

lemma sim_chunker_contract: "os_contract (sim_env (\<lambda>_. [97, 10, 98])) (\<lambda>_. [97, 10, 98])"
  by (rule sim_contract) (simp add: sim_unit_def)

theorem chunker_invariant_witness:
  "\<exists>c tr. chunker_reach Unix (sim_env (\<lambda>_. [97, 10, 98])) ''f'' [] c tr \<and>
     chunker_as_bytes (sim_env (\<lambda>_. [97, 10, 98])) c tr = [97, 10, 98] \<and>
     get_chunk (sim_env (\<lambda>_. [97, 10, 98])) c 0 tr = Ret None"
proof -
  obtain c tr where o: "chunker_open Unix (sim_env (\<lambda>_. [97, 10, 98])) ''f'' [] = (Inr c, tr)"
    by (rule sim_chunker_open)
  then have r: "chunker_reach Unix (sim_env (\<lambda>_. [97, 10, 98])) ''f'' [] c tr" by (rule chunker_reach.opened)
  have "chunk_count c = 0"
    using o by (auto simp: chunker_open_def chunk_count_def plan_empty_def split: prod.splits sum.splits)
  with r chunker_invariant [OF sim_chunker_contract env_trace_Nil r] show ?thesis by fastforce
qed

text \<open>
  Claim C30: on every reachable handle whose pin, if it has one, still holds, each of the five
  planning calls installs exactly the layout that the reference definitions give for the bytes
  of the file and returns its length. The pattern calls panic when the delimiter is empty and the
  file is not (and a partition is asked for), the two chunk scans when the vector of ranges they
  allocate would exceed \<open>isize::MAX\<close> bytes (never for files of at most \<open>2 ^ 58\<close> bytes or for chunks
  of at least 32 bytes), and no other call panics.
\<close>

theorem chunker_ops_refine:
  assumes "os_contract env files" "env_trace env tr0" "chunker_reach pf env path tr0 c tr" "op_ok op"
    "\<forall>p. mc_pinned c = Some p \<longrightarrow> revalidate pf (env_stat env tr) p = Inr ()"
  shows "(case op_panic (files path) op of
       Some msg \<Rightarrow> run_op pf env c op tr = Panic msg
     | None \<Rightarrow> \<exists>c' tr'. run_op pf env c op tr = Ret (plan_len (op_layout (files path) op), c', tr') \<and>
         mc_plan c' = op_layout (files path) op \<and> mc_mmap c' = mc_mmap c \<and> mc_pinned c' = mc_pinned c \<and>
         pin_status c' = Inr ()) \<and>
     (length (files path) \<le> 2 ^ 58 \<or> 32 \<le> chunk_size \<longrightarrow> scan_fits (files path) chunk_size)"
proof -
  have inv: "chunker_inv env (files path) c tr" by (rule chunker_reach_inv [OF assms(1-3)])
  obtain ok c1 tr1 where k: "check_pinned pf env c tr = (ok, c1, tr1)" by (metis prod_cases3)
  then have ok: "ok" using assms(5) by (auto simp: check_pinned_def revalidate_at_def split: option.splits sum.splits)
  then have "mc_pin_error c1 = None"
    using inv k by (auto simp: chunker_inv_def check_pinned_def split: option.splits sum.splits prod.splits)
  moreover have "valid_slice (files path)"
    using inv maps_fileD(3) [of env "files path" "mc_mmap c" tr] by (simp add: chunker_inv_def)
  ultimately show ?thesis
    using run_op_inv [OF inv assms(4) k] check_pinned_keeps [OF k] ok scan_fits_small scan_fits_large_size
    by (auto simp: pin_status_def split: option.split)
qed

theorem chunker_ops_refine_witness:
  "\<exists>c tr c' tr'. chunker_reach Unix (sim_env (\<lambda>_. [97, 10, 98])) ''f'' [] c tr \<and>
     run_op Unix (sim_env (\<lambda>_. [97, 10, 98])) c (ScanFixed 2) tr = Ret (2, c', tr') \<and>
     run_op Unix (sim_env (\<lambda>_. [97, 10, 98])) c (ScanPattern 2 []) tr = Panic empty_delimiter_msg"
proof -
  let ?env = "sim_env (\<lambda>_. [97, 10, 98])"
  obtain c tr where o: "chunker_open Unix ?env ''f'' [] = (Inr c, tr)" by (rule sim_chunker_open)
  then have r: "chunker_reach Unix ?env ''f'' [] c tr" by (rule chunker_reach.opened)
  have p: "\<forall>p. mc_pinned c = Some p \<longrightarrow> revalidate Unix (env_stat ?env tr) p = Inr ()"
    using o by (auto simp: chunker_open_def split: prod.splits sum.splits)
  have "plan_len (plan_fixed (Suc (Suc (Suc 0))) 2) = 2" by (simp add: plan_fixed_def fixed_chunk_count_def div_ceil_def Let_def flip: numeral_2_eq_2)
  with r chunker_ops_refine [OF sim_chunker_contract env_trace_Nil r _ p, of "ScanFixed 2"]
    chunker_ops_refine [OF sim_chunker_contract env_trace_Nil r _ p, of "ScanPattern 2 []"]
  show ?thesis by (auto simp: max_consts)
qed

text \<open>
  Claim C13: the pin gate fails closed. When a pinned handle finds its path changed, every
  planning call returns zero without panicking, empties the layout so that no chunk can be read,
  and stashes the mismatch, which \<open>take_pin_error\<close> hands out once; the reported kind is never
  the reserved one. Exactly one metadata read is made, of the pinned path.
\<close>

theorem chunker_pin_gate:
  assumes "os_contract env files" "env_trace env tr0" "chunker_reach pf env path tr0 c tr" "op_ok op"
    "mc_pinned c = Some p" "revalidate pf (env_stat env tr) p = Inl m"
  shows "\<exists>c'. run_op pf env c op tr = Ret (0, c', sys_do env (SysStat path) tr) \<and>
     chunk_count c' = 0 \<and> (\<forall>i t. get_chunk env c' i t = Ret None) \<and>
     pin_status c' = Inl m \<and> fst (take_pin_error c') = Some m \<and>
     pin_status (snd (take_pin_error c')) = Inr () \<and> pm_kind m \<noteq> Rotated"
proof -
  have inv: "chunker_inv env (files path) c tr" by (rule chunker_reach_inv [OF assms(1-3)])
  obtain t flags where cap: "pin_capture pf (env_stat env t) path flags = Inr p"
    using reach_pinned [OF assms(3,5)] by blast
  obtain m0 where r: "revalidate_at pf env p tr = (Inl m, sys_do env (SysStat path) tr)"
    "Some (pm_kind m) = revalidate_verdict pf flags m0 (env_stat env tr path)"
    using captured_pin [OF cap, of tr] assms(6) by (auto simp: revalidate_kind_def)
  let ?c = "c\<lparr>mc_plan := plan_empty, mc_pin_error := Some m\<rparr>"
  have k: "check_pinned pf env c tr = (False, ?c, sys_do env (SysStat path) tr)"
    using assms(5) r(1) by (simp add: check_pinned_def)
  have "run_op pf env c op tr = Ret (0, ?c, sys_do env (SysStat path) tr)"
    using run_op_inv [OF inv assms(4) k] by simp
  moreover have "pm_kind m \<noteq> Rotated" using r(2) verdict_not_rotated by metis
  ultimately show ?thesis
    by (auto simp: chunk_count_def plan_empty_def get_chunk_def pin_status_def take_pin_error_def)
qed

text \<open>A simulated file whose size changes after its identity has been captured.\<close>

definition resized_env :: os_env where
  "resized_env = (sim_env (\<lambda>_. [97, 10, 98]))
     \<lparr>env_stat := \<lambda>tr p. Inr \<lparr>meta_type = FtFile, meta_len = (if tr = [] then 3 else 4), meta_modified = Inr 0, meta_dev = 1, meta_ino = 1\<rparr>\<rparr>"

lemma resized_contract: "os_contract resized_env (\<lambda>_. [97, 10, 98])"
  using sim_chunker_contract
  by (simp add: os_contract_def env_trace_def resized_env_def sizes_ok_def mmap_ok_def view_ok_def handles_ok_def
      fresh_ok_def pread_ok_def nul_ok_def shows_content_def sys_do_def)

lemma resized_pinned:
  obtains c tr p m where "chunker_open_pinned Unix resized_env ''f'' PIN_SIZE [] = (Inr c, tr)" "mc_pinned c = Some p"
    "revalidate Unix (env_stat resized_env tr) p = Inl m"
proof -
  let ?m = "\<lambda>n. \<lparr>meta_type = FtFile, meta_len = n, meta_modified = Inr 0, meta_dev = 1, meta_ino = 1\<rparr> :: metadata"
  let ?p = "\<lparr>pin_path = ''f'', pin_identity = capture_from_metadata Unix (?m 3), pin_flags = PIN_SIZE\<rparr>"
  have st: "env_stat resized_env tr p = Inr (?m (if tr = [] then 3 else 4))" for tr p by (simp add: resized_env_def)
  have cap: "pin_capture Unix (env_stat resized_env []) ''f'' PIN_SIZE = Inr ?p"
    by (simp add: pin_capture_Inr st pin_consts)
  then have k: "capture_at Unix resized_env ''f'' PIN_SIZE [] = (Inr ?p, sys_do resized_env (SysStat ''f'') [])"
    by (simp add: capture_at_def effective_flags_def pin_consts)
  obtain r tr where o: "mmap_open_path Unix resized_env ''f'' (sys_do resized_env (SysStat ''f'') []) = (r, tr)" by force
  have [simp]: "sys_do e call t \<noteq> []" for e call t by (simp add: sys_do_def)
  from o have r: "(\<exists>f. r = Inr f) \<and> tr \<noteq> []"
    by (auto simp: resized_env_def mmap_open_path_def mmap_open_def probe_cstr_eligible_def probe_mmap_eligible_def
        probe_verdict_def cstring_new_def option_to_io_def open_unix_def Let_def sys_call_def usize_try_from_def
        sim_unit_def sim_addr_def MAP_FAILED_def)
  then obtain c where c: "chunker_open_pinned Unix resized_env ''f'' PIN_SIZE [] = (Inr c, tr)" "mc_pinned c = Some ?p"
    using k o by (auto simp: chunker_open_pinned_def)
  from r obtain m where m: "revalidate Unix (env_stat resized_env tr) ?p = Inl m"
    using revalidate_captured [of PIN_SIZE Unix "env_stat resized_env tr" "''f''" "?m 3"]
    by (cases "revalidate Unix (env_stat resized_env tr) ?p")
      (auto simp: st revalidate_kind_def revalidate_verdict_def pin_changed_defs pin_enabled_def pin_consts)
  with c that show thesis by blast
qed

theorem chunker_pin_gate_witness:
  "\<exists>c tr c'. chunker_open_pinned Unix resized_env ''f'' PIN_SIZE [] = (Inr c, tr) \<and>
     run_op Unix resized_env c (ScanFixed 2) tr = Ret (0, c', sys_do resized_env (SysStat ''f'') tr) \<and>
     chunk_count c' = 0"
proof -
  obtain c tr p m where c: "chunker_open_pinned Unix resized_env ''f'' PIN_SIZE [] = (Inr c, tr)"
    "mc_pinned c = Some p" "revalidate Unix (env_stat resized_env tr) p = Inl m"
    by (rule resized_pinned)
  have r: "chunker_reach Unix resized_env ''f'' [] c tr" using c(1) by (rule chunker_reach.opened_pinned)
  from chunker_pin_gate [OF resized_contract env_trace_Nil r _ c(2,3), of "ScanFixed 2"] c(1) show ?thesis
    by (auto simp: max_consts)
qed

text \<open>
  What a chunk scan may answer, given the chunks of a cursor over the same file: with a pin that no
  longer holds it returns zero and leaves nothing to read; otherwise its chunks, read by index,
  are those of the cursor, or its result vector cannot be allocated.
\<close>

definition pin_holds :: "platform \<Rightarrow> os_env \<Rightarrow> mmap_chunker \<Rightarrow> trace \<Rightarrow> bool" where
  "pin_holds pf env c tr \<longleftrightarrow> (\<forall>p. mc_pinned c = Some p \<longrightarrow> revalidate pf (env_stat env tr) p = Inr ())"

definition scan_agrees :: "os_env \<Rightarrow> bool \<Rightarrow> bool \<Rightarrow> bytes list \<Rightarrow> (nat \<times> mmap_chunker \<times> trace) run \<Rightarrow> bool" where
  "scan_agrees env pinned_ok fits chunks r \<longleftrightarrow>
     (case r of
        Panic msg \<Rightarrow> pinned_ok \<and> \<not> fits \<and> msg = capacity_msg
      | Ret (n, c', tr') \<Rightarrow>
          n = chunk_count c' \<and>
          (if pinned_ok
           then fits \<and> map (\<lambda>i. get_chunk env c' i tr') [0..<n] = map (Ret \<circ> Some) chunks
           else n = 0 \<and> (\<forall>i. get_chunk env c' i tr' = Ret None) \<and> pin_status c' \<noteq> Inr ()))"

lemma check_pinned_holds: "check_pinned pf env c tr = (ok, c1, tr1) \<Longrightarrow> ok \<longleftrightarrow> pin_holds pf env c tr"
  by (auto simp: check_pinned_def revalidate_at_def pin_holds_def split: option.splits sum.splits)

lemma installed_chunks:
  assumes "chunker_inv env content c tr" "tiles 0 rs (length content)" "mc_pin_error c = None"
  shows "map (\<lambda>i. get_chunk env (c\<lparr>mc_plan := from_ranges rs\<rparr>) i tr) [0..<plan_len (from_ranges rs)] =
     map (Ret \<circ> Some) (map (subslice content) rs)"
proof -
  have v: "length content \<le> usize_max"
    using assms(1) maps_fileD(3) [of env content "mc_mmap c" tr] valid_slice_usize [of content] by (simp add: chunker_inv_def)
  have "chunker_inv env content (c\<lparr>mc_plan := from_ranges rs\<rparr>) tr"
    using assms from_ranges_ok [of rs "length content"] by (simp add: chunker_inv_def)
  from get_chunk_spec [OF this]
  have "map (\<lambda>i. get_chunk env (c\<lparr>mc_plan := from_ranges rs\<rparr>) i tr) [0..<plan_len (from_ranges rs)] =
      map (\<lambda>r. Ret (Some (subslice content r))) (plan_ranges (from_ranges rs) (length content))"
    by (simp add: plan_ranges_def chunk_count_def)
  then show ?thesis by (simp add: plan_ranges_from [OF assms(2) v])
qed

lemma scan_agrees_op:
  assumes inv: "chunker_inv env content c tr" and ok: "op_ok op"
    and layout: "op_layout content op = from_ranges rs" and t: "tiles 0 rs (length content)"
    and fits: "op_panic content op = (if fits then None else Some capacity_msg)"
  shows "scan_agrees env (pin_holds pf env c tr) fits (map (subslice content) rs) (run_op pf env c op tr)"
proof -
  obtain ok c1 tr1 where k: "check_pinned pf env c tr = (ok, c1, tr1)" by (metis prod_cases3)
  note hold = check_pinned_holds [OF k]
  have c1: "chunker_inv env content c1 tr1" using inv k by (rule check_pinned_inv)
  note run = conjunct2 [OF run_op_inv [OF inv assms(2) k]]
  show ?thesis
  proof (cases ok)
    case False
    then have "mc_plan c1 = PlanEmpty" "mc_pin_error c1 \<noteq> None" using check_pinned_keeps [OF k] by simp_all
    with False hold get_chunk_spec [OF c1] show ?thesis
      unfolding run by (auto simp: scan_agrees_def chunk_count_def pin_status_def)
  next
    case True
    then have "mc_pin_error c1 = None"
      using inv k by (auto simp: chunker_inv_def check_pinned_def split: option.splits sum.splits prod.splits)
    with installed_chunks [OF c1 t] True hold fits layout show ?thesis
      unfolding run by (auto simp: scan_agrees_def chunk_count_def)
  qed
qed

text \<open>
  Claim C31: the streaming cursors of any reachable handle, pinned or not, run to exhaustion
  without a panic and yield chunks that concatenate to the file, without touching the layout. When
  the pin holds (or there is none), scanning with the same arguments and reading by index gives
  exactly these chunks, unless the scan cannot allocate its result vector; when the pinned path
  has changed, the scan returns zero and no chunk can be read, while the cursors, which do not
  revalidate, still yield the chunks of the mapping.
\<close>

theorem chunker_cursor_agrees:
  assumes "os_contract env files" "env_trace env tr0" "chunker_reach pf env path tr0 c tr"
    "chunk_size \<le> usize_max" "valid_slice pat" "pat \<noteq> []"
  shows "(\<exists>items fin. cursor_ranges (delimited_cursor env c chunk_size d tr) = Ret (items, fin) \<and>
       concat (map snd items) = files path \<and>
       scan_agrees env (pin_holds pf env c tr) (scan_fits (files path) chunk_size) (map snd items)
         (scan_delimited pf env c chunk_size d tr)) \<and>
     (\<exists>cur items fin. delimited_cursor_pattern env c chunk_size pat tr = Ret cur \<and>
       pattern_cursor_ranges cur = Ret (items, fin) \<and> concat (map snd items) = files path \<and>
       scan_agrees env (pin_holds pf env c tr) (scan_fits (files path) chunk_size) (map snd items)
         (scan_delimited_pattern pf env c chunk_size pat tr))"
proof -
  let ?data = "files path" and ?rs = "\<lambda>p. chunks_from p (files path) chunk_size 0"
  have inv: "chunker_inv env ?data c tr" by (rule chunker_reach_inv [OF assms(1-3)])
  then have v: "valid_slice ?data" "chunker_as_bytes env c tr = ?data"
    using maps_fileD(1,3) [of env ?data "mc_mmap c" tr] by (simp_all add: chunker_inv_def chunker_as_bytes_def)
  have t: "tiles 0 (?rs p) (length ?data)" for p by (rule chunks_from_tiles) simp
  have byte: "cursor_ranges (delimited_cursor env c chunk_size d tr) =
      Ret (map (\<lambda>r. (r, subslice ?data r)) (?rs [d]), delimited_cursor env c chunk_size d tr\<lparr>cc_position := length ?data\<rparr>)"
    using v by (simp add: delimited_cursor_def cursor_new_def cursor_ranges_spec)
  have byte_scan: "scan_agrees env (pin_holds pf env c tr) (scan_fits ?data chunk_size) (map (subslice ?data) (?rs [d]))
      (scan_delimited pf env c chunk_size d tr)"
    using scan_agrees_op [OF inv, of "ScanDelimited chunk_size d", OF _ _ t] assms(4) by simp
  obtain cur where cur: "delimited_cursor_pattern env c chunk_size pat tr = Ret cur"
    "pattern_cursor_ranges cur = Ret (map (\<lambda>r. (r, subslice ?data r)) (?rs pat), cur\<lparr>pc_position := length ?data\<rparr>)"
    using v assms(5,6) by (simp add: delimited_cursor_pattern_def pattern_cursor_new_def pattern_cursor_ranges_spec)
  have pat_scan: "scan_agrees env (pin_holds pf env c tr) (scan_fits ?data chunk_size) (map (subslice ?data) (?rs pat))
      (scan_delimited_pattern pf env c chunk_size pat tr)"
    using scan_agrees_op [OF inv, of "ScanPattern chunk_size pat", OF _ _ t] assms(4-6) by simp
  show ?thesis
    using byte byte_scan cur pat_scan concat_tiles [OF t] by (auto simp: comp_def)
qed

theorem chunker_cursor_agrees_witness:
  "\<exists>c tr. chunker_reach Unix resized_env ''f'' [] c tr \<and> mc_pinned c \<noteq> None \<and> \<not> pin_holds Unix resized_env c tr \<and>
     (\<exists>items fin c' tr'. cursor_ranges (delimited_cursor resized_env c 1 10 tr) = Ret (items, fin) \<and>
        concat (map snd items) = [97, 10, 98] \<and>
        scan_delimited Unix resized_env c 1 10 tr = Ret (0, c', tr') \<and> get_chunk resized_env c' 0 tr' = Ret None)"
proof -
  obtain c tr p m where c: "chunker_open_pinned Unix resized_env ''f'' PIN_SIZE [] = (Inr c, tr)"
    "mc_pinned c = Some p" "revalidate Unix (env_stat resized_env tr) p = Inl m"
    by (rule resized_pinned)
  then have r: "chunker_reach Unix resized_env ''f'' [] c tr" by (intro chunker_reach.opened_pinned)
  have h: "\<not> pin_holds Unix resized_env c tr" using c(2,3) by (simp add: pin_holds_def)
  have len: "(1 :: nat) \<le> usize_max" "valid_slice [10 :: byte]" "[10 :: byte] \<noteq> []"
    by (simp_all add: max_consts valid_slice_def)
  obtain items fin where i: "cursor_ranges (delimited_cursor resized_env c 1 10 tr) = Ret (items, fin)"
    "concat (map snd items) = [97, 10, 98]"
    "scan_agrees resized_env False (scan_fits [97, 10, 98] 1) (map snd items) (scan_delimited Unix resized_env c 1 10 tr)"
    using chunker_cursor_agrees [OF resized_contract env_trace_Nil r len, of 10] h by auto
  from i(3) obtain c' tr' where "scan_delimited Unix resized_env c 1 10 tr = Ret (0, c', tr')"
    "get_chunk resized_env c' 0 tr' = Ret None"
    by (auto simp: scan_agrees_def split: run.splits)
  with r c(2) h i(1,2) show ?thesis by blast
qed

text \<open>
  Claim C32: opening fails without leaving a resource behind, or gives a handle that holds its
  mapping through any sequence of planning calls, all of which return unless one of them panics
  (on an empty pattern, or because the result vector of a chunk scan cannot be allocated), and releases exactly what it took when dropped.
\<close>

theorem chunker_lifecycle:
  assumes "os_contract env files" "env_trace env tr" "run_res tr R0 = Some R"
    "chunker_open pf env path tr = (r, tr1) \<or> chunker_open_pinned pf env path flags tr = (r, tr1)"
    "list_all op_ok ops"
  shows "(\<forall>e. r = Inl e \<longrightarrow> run_res tr1 R0 = Some R) \<and>
     (\<forall>c. r = Inr c \<longrightarrow>
        ((\<forall>op\<in>set ops. op_panic (files path) op = None) \<longrightarrow> (\<exists>c' tr2. run_ops pf env c ops tr1 = Ret (c', tr2))) \<and>
        (\<forall>c' tr2. run_ops pf env c ops tr1 = Ret (c', tr2) \<longrightarrow> run_res (chunker_drop env c' tr2) R0 = Some R))"
proof -
  note res = chunker_open_res [OF assms(3,4)]
  have inv: "chunker_inv env (files path) c tr1" if "r = Inr c" for c
    using open_inv [OF assms(1,2)] assms(4) that by blast
  have "run_res (chunker_drop env c' tr2) R0 = Some R"
    if r: "r = Inr c" and o: "run_ops pf env c ops tr1 = Ret (c', tr2)" for c c' tr2
  proof -
    have "mc_mmap c' = mc_mmap c \<and> run_res tr2 R0 = Some (file_res (mc_mmap c) R)"
      using run_ops_res [OF inv [OF r] assms(5) o] res r by simp
    moreover have "file_shape (mc_mmap c)" using inv [OF r] maps_fileD(5) by (auto simp: chunker_inv_def)
    ultimately show ?thesis by (simp add: chunker_drop_def drop_res)
  qed
  moreover have "\<exists>c' tr2. run_ops pf env c ops tr1 = Ret (c', tr2)"
    if "r = Inr c" "\<forall>op\<in>set ops. op_panic (files path) op = None" for c
    using run_ops_returns [OF inv assms(5)] that by blast
  ultimately show ?thesis using res by auto
qed

theorem chunker_lifecycle_witness:
  "\<exists>c tr1 c' tr2. chunker_open Unix (sim_env (\<lambda>_. [97, 10, 98])) ''f'' [] = (Inr c, tr1) \<and>
     run_ops Unix (sim_env (\<lambda>_. [97, 10, 98])) c [ScanFixed 2, PartitionRecords 2 10] tr1 = Ret (c', tr2) \<and>
     run_res (chunker_drop (sim_env (\<lambda>_. [97, 10, 98])) c' tr2) \<lparr>res_handles = [], res_maps = []\<rparr> =
       Some \<lparr>res_handles = [], res_maps = []\<rparr>"
proof -
  obtain c tr where o: "chunker_open Unix (sim_env (\<lambda>_. [97, 10, 98])) ''f'' [] = (Inr c, tr)"
    by (rule sim_chunker_open)
  let ?ops = "[ScanFixed 2, PartitionRecords 2 10]"
  have "list_all op_ok ?ops" by (simp add: max_consts)
  with o chunker_lifecycle [OF sim_chunker_contract env_trace_Nil _ disjI1 [OF o] this, of "\<lparr>res_handles = [], res_maps = []\<rparr>" "\<lparr>res_handles = [], res_maps = []\<rparr>"]
  show ?thesis by simp blast
qed

end
