(* ===== verification/Windowed_File.thy ===== *)
theory Windowed_File
  imports Mmap_File
begin

section \<open>Windowed mappings\<close>

text \<open>
  \<open>WindowedMmapFile\<close> of \<open>src/src/mmap.rs\<close>: a file of which one view at a time is kept mapped.
  The state lock of the code makes each \<open>read_at\<close> one atomic step; a lock poisoned by a panic is
  taken all the same, so it has no state of its own. The additions that the code does in
  \<open>u64\<close> are checked: an overflow is a panic.
\<close>

definition VIEW_ALIGNMENT :: nat where "VIEW_ALIGNMENT = 65536"

definition add_u64 :: "nat \<Rightarrow> nat \<Rightarrow> nat run" where
  "add_u64 a b = (if a + b \<le> usize_max then Ret (a + b) else Panic ''attempt to add with overflow'')"

record window_view =
  wv_ptr :: nat
  wv_aligned_start :: nat
  wv_mapped_len :: nat

record windowed_file =
  wf_size :: nat
  wf_window_bytes :: nat
  wf_view :: "window_view option"
  wf_handles :: os_handles

definition small_window :: io_error where
  "small_window = io_err InvalidInput ''window_bytes must be at least 64 KiB''"

definition size_misfit :: io_error where
  "size_misfit = io_err InvalidData ''file size does not fit in usize''"

definition windowed_open_unix :: "os_env \<Rightarrow> path \<Rightarrow> nat \<Rightarrow> trace \<Rightarrow> windowed_file io \<times> trace" where
  "windowed_open_unix env path window_bytes tr =
     (case probe_mmap_eligible Unix env path tr of
        (Inl e, tr1) \<Rightarrow> (Inl e, tr1)
      | (Inr _, tr1) \<Rightarrow>
          if window_bytes < VIEW_ALIGNMENT then (Inl small_window, tr1)
          else
            case cstring_new path of
              Inl e \<Rightarrow> (Inl e, tr1)
            | Inr c_str \<Rightarrow>
                let (r, tr2) = sys_call env (SysOpen c_str O_RDONLY) tr1; fd = fst r in
                if fd < 0 then (Inl (env_errno env tr2), tr2)
                else
                  let (r, tr3) = sys_call env (SysLseek fd 0 SEEK_END) tr2 in
                  case usize_try_from (fst r) of
                    None \<Rightarrow> (Inl size_misfit, sys_do env (SysClose fd) tr3)
                  | Some sz \<Rightarrow>
                      (Inr \<lparr>wf_size = sz, wf_window_bytes = window_bytes, wf_view = None, wf_handles = UnixFd fd\<rparr>, tr3))"

definition windowed_open_windows :: "os_env \<Rightarrow> path \<Rightarrow> nat \<Rightarrow> trace \<Rightarrow> windowed_file io \<times> trace" where
  "windowed_open_windows env path window_bytes tr =
     (case probe_mmap_eligible Windows env path tr of
        (Inl e, tr1) \<Rightarrow> (Inl e, tr1)
      | (Inr _, tr1) \<Rightarrow>
          if window_bytes < VIEW_ALIGNMENT then (Inl small_window, tr1)
          else
            let (r, tr2) = sys_call env
                  (CreateFileW (wide_cstr path) GENERIC_READ FILE_SHARE_READ 0 OPEN_EXISTING FILE_ATTRIBUTE_NORMAL 0) tr1;
                fh = fst r in
            if fh = INVALID_HANDLE_VALUE then (Inl (env_errno env tr2), tr2)
            else
              let (r, tr3) = sys_call env (GetFileSizeEx fh) tr2 in
              if fst r = 0 then (Inl (env_errno env tr3), sys_do env (CloseHandle fh) tr3)
              else
                case usize_try_from (snd r) of
                  None \<Rightarrow> (Inl size_misfit, sys_do env (CloseHandle fh) tr3)
                | Some sz \<Rightarrow>
                    if sz = 0 then
                      (Inr \<lparr>wf_size = sz, wf_window_bytes = window_bytes, wf_view = None, wf_handles = WinHandles fh 0\<rparr>, tr3)
                    else
                      let (r, tr4) = sys_call env (CreateFileMappingW fh 0 PAGE_READONLY 0 0 0) tr3; mh = fst r in
                      if mh = 0 then (Inl (env_errno env tr4), sys_do env (CloseHandle fh) tr4)
                      else (Inr \<lparr>wf_size = sz, wf_window_bytes = window_bytes, wf_view = None, wf_handles = WinHandles fh mh\<rparr>, tr4))"

definition windowed_open_path :: "platform \<Rightarrow> os_env \<Rightarrow> path \<Rightarrow> nat \<Rightarrow> trace \<Rightarrow> windowed_file io \<times> trace" where
  "windowed_open_path pf env path window_bytes tr =
     (if pf = Unix then windowed_open_unix env path window_bytes tr
      else windowed_open_windows env path window_bytes tr)"

definition windowed_len :: "windowed_file \<Rightarrow> nat" where
  "windowed_len w = wf_size w"

definition windowed_is_empty :: "windowed_file \<Rightarrow> bool" where
  "windowed_is_empty w \<longleftrightarrow> wf_size w = 0"

definition map_view :: "os_env \<Rightarrow> windowed_file \<Rightarrow> nat \<Rightarrow> nat \<Rightarrow> trace \<Rightarrow> window_view io \<times> trace" where
  "map_view env w aligned_start mapped_len tr =
     (if mapped_len = 0 then (Inl (io_err InvalidInput ''empty view''), tr)
      else case wf_handles w of
        UnixFd fd \<Rightarrow>
          if aligned_start > isize_max then (Inl (io_err InvalidInput ''offset exceeds i64''), tr)
          else
            let (r, tr1) = sys_call env (SysMmap 0 mapped_len PROT_READ MAP_PRIVATE fd (int aligned_start)) tr in
            if fst r = MAP_FAILED then (Inl (env_errno env tr1), tr1)
            else (Inr \<lparr>wv_ptr = nat (fst r), wv_aligned_start = aligned_start, wv_mapped_len = mapped_len\<rparr>, tr1)
      | WinHandles fh mh \<Rightarrow>
          let (r, tr1) = sys_call env
                (MapViewOfFile mh FILE_MAP_READ (aligned_start div 2 ^ 32 mod 2 ^ 32) (aligned_start mod 2 ^ 32) mapped_len) tr in
          if fst r = 0 then (Inl (env_errno env tr1), tr1)
          else (Inr \<lparr>wv_ptr = nat (fst r), wv_aligned_start = aligned_start, wv_mapped_len = mapped_len\<rparr>, tr1))"

definition unmap_view :: "os_env \<Rightarrow> windowed_file \<Rightarrow> window_view \<Rightarrow> trace \<Rightarrow> trace" where
  "unmap_view env w view tr =
     (case wf_handles w of
        UnixFd fd \<Rightarrow> sys_do env (SysMunmap (wv_ptr view) (wv_mapped_len view)) tr
      | WinHandles fh mh \<Rightarrow> sys_do env (UnmapViewOfFile (wv_ptr view)) tr)"

text \<open>The check whether the cached view covers \<open>[offset, offset + n)\<close>.\<close>

definition cached_relative :: "windowed_file \<Rightarrow> nat \<Rightarrow> nat \<Rightarrow> (nat \<times> nat) option run" where
  "cached_relative w offset n =
     (case wf_view w of
        None \<Rightarrow> Ret None
      | Some view \<Rightarrow>
          let view_start = wv_aligned_start view in
          rbind (add_u64 view_start (wv_mapped_len view)) (\<lambda>view_end.
          rbind (add_u64 offset n) (\<lambda>request_end.
            if offset \<ge> view_start \<and> request_end \<le> view_end then Ret (Some (wv_ptr view, offset - view_start))
            else Ret None)))"

definition windowed_read_at ::
  "os_env \<Rightarrow> windowed_file \<Rightarrow> nat \<Rightarrow> bytes \<Rightarrow> trace \<Rightarrow> (nat io \<times> bytes \<times> windowed_file \<times> trace) run" where
  "windowed_read_at env w offset out tr =
     (if out = [] \<or> offset \<ge> wf_size w then Ret (Inr 0, out, w, tr)
      else
        let n = min (slen out) (wf_size w - offset) in
        rbind (cached_relative w offset n) (\<lambda>cached.
          case cached of
            Some (ptr, relative) \<Rightarrow> Ret (Inr n, read_mem env tr (ptr + relative) n @ drop n out, w, tr)
          | None \<Rightarrow>
              let aligned_start = (offset div VIEW_ALIGNMENT) * VIEW_ALIGNMENT;
                  slack = offset - aligned_start
              in rbind (add_u64 slack n) (\<lambda>needed.
                let desired = max (sat_add (wf_window_bytes w) slack) needed;
                    mapped_len = min desired (wf_size w - aligned_start)
                in case map_view env w aligned_start mapped_len tr of
                     (Inl e, tr1) \<Rightarrow> Ret (Inl e, out, w, tr1)
                   | (Inr view, tr1) \<Rightarrow>
                       let source = read_mem env tr1 (wv_ptr view + slack) n;
                           tr2 = (case wf_view w of Some old \<Rightarrow> unmap_view env w old tr1 | None \<Rightarrow> tr1)
                       in Ret (Inr n, source @ drop n out, w\<lparr>wf_view := Some view\<rparr>, tr2))))"

definition windowed_drop :: "os_env \<Rightarrow> windowed_file \<Rightarrow> trace \<Rightarrow> trace" where
  "windowed_drop env w tr =
     (let tr1 = (case wf_view w of Some view \<Rightarrow> unmap_view env w view tr | None \<Rightarrow> tr) in
      case wf_handles w of
        UnixFd fd \<Rightarrow> close_fd env fd tr1
      | WinHandles fh mh \<Rightarrow> close_win_file env fh (close_win_mapping env mh tr1))"

subsection \<open>The state of an open windowed file\<close>

text \<open>The handle that views are mapped from.\<close>

fun view_handle :: "os_handles \<Rightarrow> int" where
  "view_handle (UnixFd fd) = fd"
| "view_handle (WinHandles fh mh) = mh"

definition view_inv :: "os_env \<Rightarrow> bytes \<Rightarrow> trace \<Rightarrow> window_view \<Rightarrow> bool" where
  "view_inv env content tr v \<longleftrightarrow>
     wv_aligned_start v mod VIEW_ALIGNMENT = 0 \<and> 0 < wv_mapped_len v \<and>
     wv_aligned_start v + wv_mapped_len v \<le> length content \<and>
     live_map env (drop (wv_aligned_start v) content) (wv_ptr v) (wv_mapped_len v) tr"

definition handles_shape :: "nat \<Rightarrow> os_handles \<Rightarrow> bool" where
  "handles_shape n h \<longleftrightarrow>
     (case h of
        UnixFd fd \<Rightarrow> fd \<ge> 0
      | WinHandles fh mh \<Rightarrow> fh \<noteq> 0 \<and> fh \<noteq> INVALID_HANDLE_VALUE \<and> (n = 0 \<longleftrightarrow> mh = 0))"

text \<open>\<open>path\<close> is the file that was opened and \<open>files path\<close> its bytes.\<close>

definition windowed_inv :: "os_env \<Rightarrow> (path \<Rightarrow> bytes) \<Rightarrow> path \<Rightarrow> windowed_file \<Rightarrow> trace \<Rightarrow> bool" where
  "windowed_inv env files path w tr \<longleftrightarrow>
     env_trace env tr \<and> wf_size w = length (files path) \<and> length (files path) \<le> isize_max \<and>
     VIEW_ALIGNMENT \<le> wf_window_bytes w \<and>
     handles_shape (wf_size w) (wf_handles w) \<and>
     (0 < wf_size w \<longrightarrow> handle_path tr (view_handle (wf_handles w)) = Some path) \<and>
     (\<forall>v. wf_view w = Some v \<longrightarrow> view_inv env (files path) tr v)"

lemma windowed_open_unix_inv:
  assumes c: "os_contract env files" and t: "env_trace env tr" and o: "windowed_open_unix env path wb tr = (Inr w, tr')"
  shows "windowed_inv env files path w tr' \<and> wf_view w = None"
proof -
  obtain r t1 where p: "probe_mmap_eligible Unix env path tr = (r, t1)" by force
  have t1: "env_trace env t1" using probe_env_trace [OF p] t by simp
  define fd where "fd = fst (env_sys env t1 (SysOpen path O_RDONLY))"
  define t2 where "t2 = sys_do env (SysOpen path O_RDONLY) t1"
  have fd: "fd \<ge> 0" and wb: "VIEW_ALIGNMENT \<le> wb" and w: "wf_view w = None" "wf_window_bytes w = wb" "wf_handles w = UnixFd fd"
    "usize_try_from (fst (env_sys env t2 (SysLseek fd 0 SEEK_END))) = Some (wf_size w)" "tr' = sys_do env (SysLseek fd 0 SEEK_END) t2"
    using o p by (auto simp: windowed_open_unix_def cstring_new_def Let_def sys_call_def fd_def t2_def
        split: sum.splits if_splits option.splits)
  have hp: "handle_path t2 fd = Some path" "env_trace env t2" using fd t1 by (simp_all add: t2_def fd_def)
  from lseek_contract [OF c hp(2,1) w(4)] fd wb w hp show ?thesis
    by (simp add: windowed_inv_def handles_shape_def)
qed

lemma windowed_open_windows_inv:
  assumes c: "os_contract env files" and t: "env_trace env tr" and o: "windowed_open_windows env path wb tr = (Inr w, tr')"
  shows "windowed_inv env files path w tr' \<and> wf_view w = None"
proof -
  obtain r t1 where p: "probe_mmap_eligible Windows env path tr = (r, t1)" by force
  have "r = Inr ()" using o p by (auto simp: windowed_open_windows_def split: sum.splits)
  then have path: "wide_cstr path = path" using probe_no_nul [OF c t] p by (intro wide_cstr_id) blast
  have t1: "env_trace env t1" using probe_env_trace [OF p] t by simp
  let ?open = "CreateFileW path GENERIC_READ FILE_SHARE_READ 0 OPEN_EXISTING FILE_ATTRIBUTE_NORMAL 0"
  define fh where "fh = fst (env_sys env t1 ?open)"
  define t2 where "t2 = sys_do env ?open t1"
  define t3 where "t3 = sys_do env (GetFileSizeEx fh) t2"
  define mh where "mh = fst (env_sys env t3 (CreateFileMappingW fh 0 PAGE_READONLY 0 0 0))"
  have fh: "fh \<noteq> INVALID_HANDLE_VALUE" and wb: "VIEW_ALIGNMENT \<le> wb" and w: "wf_view w = None" "wf_window_bytes w = wb"
    and sf: "fst (env_sys env t2 (GetFileSizeEx fh)) \<noteq> 0"
    and sz: "usize_try_from (snd (env_sys env t2 (GetFileSizeEx fh))) = Some (wf_size w)"
    and h: "if wf_size w = 0 then wf_handles w = WinHandles fh 0 \<and> tr' = t3
            else mh \<noteq> 0 \<and> wf_handles w = WinHandles fh mh \<and> tr' = sys_do env (CreateFileMappingW fh 0 PAGE_READONLY 0 0 0) t3"
    using o p unfolding path by (auto simp: windowed_open_windows_def Let_def sys_call_def fh_def t2_def t3_def mh_def path
        split: sum.splits if_splits option.splits)
  have nz: "fh \<noteq> 0" using os_contractD(4) [OF c t1] by (simp add: handles_ok_def fh_def)
  have hp: "handle_path t2 fh = Some path" "env_trace env t2" "handle_path t3 fh = Some path" "env_trace env t3"
    using fh t1 by (simp_all add: t2_def t3_def fh_def)
  from file_size_contract [OF c hp(2,1) sf sz] fh nz wb w hp h show ?thesis
    by (auto simp: windowed_inv_def handles_shape_def mh_def split: if_splits)
qed

lemma windowed_open_inv:
  "os_contract env files \<Longrightarrow> env_trace env tr \<Longrightarrow> windowed_open_path pf env path wb tr = (Inr w, tr') \<Longrightarrow>
     windowed_inv env files path w tr' \<and> wf_view w = None"
  using windowed_open_unix_inv windowed_open_windows_inv
  by (auto simp: windowed_open_path_def split: if_splits)


subsection \<open>Reading\<close>

lemma view_inv_do: "view_inv env content tr v \<Longrightarrow> \<not> unmaps (wv_ptr v) (c, env_sys env tr c) \<Longrightarrow> view_inv env content (sys_do env c tr) v"
  by (auto simp: view_inv_def intro: live_map_do)

lemma split_offset: "a \<le> isize_max \<Longrightarrow> a div 2 ^ 32 mod 2 ^ 32 * 2 ^ 32 + a mod 2 ^ 32 = a"
  by (simp add: max_consts div_less_iff_less_mult)

text \<open>The system call behind a view, and what it returns.\<close>

definition view_call :: "windowed_file \<Rightarrow> nat \<Rightarrow> nat \<Rightarrow> syscall" where
  "view_call w a m =
     (case wf_handles w of
        UnixFd fd \<Rightarrow> SysMmap 0 m PROT_READ MAP_PRIVATE fd (int a)
      | WinHandles fh mh \<Rightarrow> MapViewOfFile mh FILE_MAP_READ (a div 2 ^ 32 mod 2 ^ 32) (a mod 2 ^ 32) m)"

lemma view_call_simps [simp]:
  "is_map (view_call w a m)" "read_only (view_call w a m)" "\<not> unmaps q (view_call w a m, r)" "handle_event (view_call w a m, r) hm = hm"
  by (simp_all add: view_call_def split: os_handles.split)

lemma map_view_call:
  assumes "map_view env w a m tr = (r, tr')" "0 < m" "a \<le> isize_max"
  shows "tr' = sys_do env (view_call w a m) tr \<and>
     (case r of
        Inl e \<Rightarrow> True
      | Inr v \<Rightarrow> v = \<lparr>wv_ptr = nat (fst (env_sys env tr (view_call w a m))), wv_aligned_start = a, wv_mapped_len = m\<rparr> \<and>
          fst (env_sys env tr (view_call w a m)) \<noteq> (case wf_handles w of UnixFd fd \<Rightarrow> MAP_FAILED | WinHandles fh mh \<Rightarrow> 0))"
  using assms by (auto simp: map_view_def view_call_def Let_def sys_call_def split: os_handles.splits if_splits)

lemma view_call_contract:
  assumes "os_contract env files" "env_trace env tr" "handle_path tr (view_handle (wf_handles w)) = Some p" "0 < m" "a \<le> isize_max"
    "fst (env_sys env tr (view_call w a m)) \<noteq> (case wf_handles w of UnixFd fd \<Rightarrow> MAP_FAILED | WinHandles fh mh \<Rightarrow> 0)"
  shows "0 < fst (env_sys env tr (view_call w a m)) \<and>
     shows_content env (sys_do env (view_call w a m) tr) (nat (fst (env_sys env tr (view_call w a m)))) m (drop a (files p))"
proof (cases "wf_handles w")
  case (UnixFd fd)
  with assms mmap_contract [OF assms(1,2), of fd p m a] show ?thesis by (simp add: view_call_def)
next
  case (WinHandles fh mh)
  with assms split_offset [OF assms(5)] view_contract [OF assms(1,2), of mh p "a div 2 ^ 32 mod 2 ^ 32" "a mod 2 ^ 32" m]
  show ?thesis by (simp add: view_call_def)
qed

lemma map_view_inv:
  assumes c: "os_contract env files" and inv: "windowed_inv env files p w tr" and m: "map_view env w a m tr = (r, tr')"
    and a: "a mod VIEW_ALIGNMENT = 0" "0 < m" "a + m \<le> wf_size w"
  shows "windowed_inv env files p w tr' \<and>
     (\<forall>v. r = Inr v \<longrightarrow> wv_aligned_start v = a \<and> wv_mapped_len v = m \<and> view_inv env (files p) tr' v \<and>
        (\<forall>old. wf_view w = Some old \<longrightarrow> wv_ptr old \<noteq> wv_ptr v))"
proof -
  let ?c = "view_call w a m" and ?r = "fst (env_sys env tr (view_call w a m))"
  have le: "a \<le> isize_max" using inv a by (simp add: windowed_inv_def)
  note mv = map_view_call [OF m a(2) le]
  have t: "env_trace env tr" "handle_path tr (view_handle (wf_handles w)) = Some p" using inv a by (auto simp: windowed_inv_def)
  have inv': "windowed_inv env files p w tr'"
    using inv mv by (auto simp: windowed_inv_def intro!: view_inv_do)
  moreover have "wv_aligned_start v = a \<and> wv_mapped_len v = m \<and> view_inv env (files p) tr' v \<and>
        (\<forall>old. wf_view w = Some old \<longrightarrow> wv_ptr old \<noteq> wv_ptr v)" if "r = Inr v" for v
  proof -
    have v: "v = \<lparr>wv_ptr = nat ?r, wv_aligned_start = a, wv_mapped_len = m\<rparr>"
      and ok: "?r \<noteq> (case wf_handles w of UnixFd fd \<Rightarrow> MAP_FAILED | WinHandles fh mh \<Rightarrow> 0)"
      using mv that by auto
    note vc = view_call_contract [OF c t a(2) le ok]
    then have "live_map env (drop a (files p)) (nat ?r) m tr'" using mv by (auto intro: live_map_new)
    moreover have "wv_ptr old \<noteq> nat ?r" if "wf_view w = Some old" for old
      using live_map_fresh [OF c t(1), of _ "wv_ptr old" _ ?c] inv that vc by (auto simp: windowed_inv_def view_inv_def)
    ultimately show ?thesis using v a inv by (simp add: view_inv_def windowed_inv_def)
  qed
  ultimately show ?thesis by blast
qed

lemma unmap_view_inv:
  assumes "windowed_inv env files p w tr" "view_inv env (files p) tr v" "wv_ptr old \<noteq> wv_ptr v"
  shows "windowed_inv env files p (w\<lparr>wf_view := Some v\<rparr>) (unmap_view env w old tr)"
  using assms by (auto simp: windowed_inv_def unmap_view_def intro!: view_inv_do split: os_handles.split)

lemma view_read:
  assumes "view_inv env content tr v" "env_trace env tr" "rel + n \<le> wv_mapped_len v"
  shows "read_mem env tr (wv_ptr v + rel) n = take n (drop (wv_aligned_start v + rel) content)"
proof (rule nth_equalityI)
  show "length (read_mem env tr (wv_ptr v + rel) n) = length (take n (drop (wv_aligned_start v + rel) content))"
    using assms by (auto simp: read_mem_def view_inv_def min_def)
  fix i
  assume "i < length (read_mem env tr (wv_ptr v + rel) n)"
  then have "i < n" by (simp add: read_mem_def)
  then show "read_mem env tr (wv_ptr v + rel) n ! i = take n (drop (wv_aligned_start v + rel) content) ! i"
    using assms live_map_read [of env "drop (wv_aligned_start v) content" "wv_ptr v" "wv_mapped_len v" tr "rel + i"]
    by (auto simp: read_mem_def view_inv_def add.assoc)
qed

lemma cached_relative_ok:
  assumes "windowed_inv env files p w tr" "offset + n \<le> wf_size w"
  shows "cached_relative w offset n =
     Ret (case wf_view w of
            None \<Rightarrow> None
          | Some v \<Rightarrow> if wv_aligned_start v \<le> offset \<and> offset + n \<le> wv_aligned_start v + wv_mapped_len v
                     then Some (wv_ptr v, offset - wv_aligned_start v) else None)"
proof -
  have le: "isize_max \<le> usize_max" by (simp add: max_consts)
  then have "add_u64 offset n = Ret (offset + n)" using assms by (simp add: windowed_inv_def add_u64_def)
  moreover have "add_u64 (wv_aligned_start v) (wv_mapped_len v) = Ret (wv_aligned_start v + wv_mapped_len v)"
    if "wf_view w = Some v" for v
    using assms(1) that le by (simp add: windowed_inv_def view_inv_def add_u64_def)
  ultimately show ?thesis by (simp add: cached_relative_def Let_def split: option.split)
qed

text \<open>The view that a read outside the cached one maps.\<close>

definition remap_len :: "windowed_file \<Rightarrow> nat \<Rightarrow> nat \<Rightarrow> nat" where
  "remap_len w offset n =
     min (max (sat_add (wf_window_bytes w) (offset mod VIEW_ALIGNMENT)) (offset mod VIEW_ALIGNMENT + n))
       (wf_size w - offset div VIEW_ALIGNMENT * VIEW_ALIGNMENT)"

lemma remap_len_ok:
  assumes "0 < n" "offset + n \<le> wf_size w"
  defines "a \<equiv> offset div VIEW_ALIGNMENT * VIEW_ALIGNMENT"
  shows "a mod VIEW_ALIGNMENT = 0" "a \<le> offset" "offset - a = offset mod VIEW_ALIGNMENT"
    "0 < remap_len w offset n" "a + remap_len w offset n \<le> wf_size w"
    "offset mod VIEW_ALIGNMENT + n \<le> remap_len w offset n"
    "remap_len w offset n \<le> max (wf_window_bytes w) n + (VIEW_ALIGNMENT - 1)"
proof -
  have split: "a + offset mod VIEW_ALIGNMENT = offset" by (simp add: a_def)
  have lt: "offset mod VIEW_ALIGNMENT < VIEW_ALIGNMENT" by (simp add: VIEW_ALIGNMENT_def)
  show "a mod VIEW_ALIGNMENT = 0" by (simp add: a_def)
  show "a \<le> offset" "offset - a = offset mod VIEW_ALIGNMENT" using split by linarith+
  show "0 < remap_len w offset n" "a + remap_len w offset n \<le> wf_size w"
    "offset mod VIEW_ALIGNMENT + n \<le> remap_len w offset n"
    "remap_len w offset n \<le> max (wf_window_bytes w) n + (VIEW_ALIGNMENT - 1)"
    using split lt assms(1,2) unfolding remap_len_def a_def [symmetric] by (auto simp: sat_add_def min_def max_def)
qed


text \<open>The three ways a read ends.\<close>

lemma windowed_read_cases:
  fixes offset :: nat
  assumes inv: "windowed_inv env files p w tr" and out: "valid_slice out"
  defines "n \<equiv> min (length out) (wf_size w - offset)"
  obtains (none) "n = 0" "windowed_read_at env w offset out tr = Ret (Inr 0, out, w, tr)"
  | (hit) v where "0 < n" "wf_view w = Some v" "wv_aligned_start v \<le> offset" "offset + n \<le> wv_aligned_start v + wv_mapped_len v"
      "windowed_read_at env w offset out tr =
         Ret (Inr n, read_mem env tr (wv_ptr v + (offset - wv_aligned_start v)) n @ drop n out, w, tr)"
  | (failed) e tr1 where "0 < n" "map_view env w (offset div VIEW_ALIGNMENT * VIEW_ALIGNMENT) (remap_len w offset n) tr = (Inl e, tr1)"
      "windowed_read_at env w offset out tr = Ret (Inl e, out, w, tr1)"
  | (mapped) v tr1 where "0 < n" "map_view env w (offset div VIEW_ALIGNMENT * VIEW_ALIGNMENT) (remap_len w offset n) tr = (Inr v, tr1)"
      "windowed_read_at env w offset out tr =
         Ret (Inr n, read_mem env tr1 (wv_ptr v + offset mod VIEW_ALIGNMENT) n @ drop n out, w\<lparr>wf_view := Some v\<rparr>,
           (case wf_view w of Some old \<Rightarrow> unmap_view env w old tr1 | None \<Rightarrow> tr1))"
proof (cases "out = [] \<or> offset \<ge> wf_size w")
  case True
  then show ?thesis by (intro none) (auto simp: n_def windowed_read_at_def)
next
  case False
  then have n: "0 < n" "offset + n \<le> wf_size w" "min (slen out) (wf_size w - offset) = n"
    using out by (auto simp: n_def)
  note cr = cached_relative_ok [OF inv n(2)]
  show ?thesis
  proof (cases "\<exists>v. wf_view w = Some v \<and> wv_aligned_start v \<le> offset \<and> offset + n \<le> wv_aligned_start v + wv_mapped_len v")
    case True
    then obtain v where "wf_view w = Some v" "wv_aligned_start v \<le> offset" "offset + n \<le> wv_aligned_start v + wv_mapped_len v"
      by blast
    then show ?thesis using False n cr by (intro hit [of v]) (simp_all add: windowed_read_at_def Let_def)
  next
    case miss: False
    then have "cached_relative w offset n = Ret None" using cr by (auto split: option.splits)
    moreover have "add_u64 (offset mod VIEW_ALIGNMENT) n = Ret (offset mod VIEW_ALIGNMENT + n)"
    proof -
      have "offset mod VIEW_ALIGNMENT + n \<le> wf_size w" using n(2) mod_less_eq_dividend [of offset VIEW_ALIGNMENT] by linarith
      then show ?thesis using inv by (simp add: add_u64_def windowed_inv_def max_consts)
    qed
    moreover obtain r tr1 where mv: "map_view env w (offset div VIEW_ALIGNMENT * VIEW_ALIGNMENT) (remap_len w offset n) tr = (r, tr1)"
      by force
    moreover have "offset - offset div VIEW_ALIGNMENT * VIEW_ALIGNMENT = offset mod VIEW_ALIGNMENT"
      by (simp add: minus_div_mult_eq_mod)
    ultimately have "windowed_read_at env w offset out tr =
        (case r of
           Inl e \<Rightarrow> Ret (Inl e, out, w, tr1)
         | Inr v \<Rightarrow> Ret (Inr n, read_mem env tr1 (wv_ptr v + offset mod VIEW_ALIGNMENT) n @ drop n out, w\<lparr>wf_view := Some v\<rparr>,
             (case wf_view w of Some old \<Rightarrow> unmap_view env w old tr1 | None \<Rightarrow> tr1)))"
      using False n by (simp add: windowed_read_at_def Let_def remap_len_def split: sum.split)
    then show ?thesis using failed mapped mv n(1) by (cases r) auto
  qed
qed

lemma windowed_read_step:
  assumes c: "os_contract env files" and inv: "windowed_inv env files p w tr" and out: "valid_slice out"
  shows "\<exists>r out' w' tr'. windowed_read_at env w offset out tr = Ret (r, out', w', tr') \<and>
     windowed_inv env files p w' tr' \<and>
     (case r of
        Inl e \<Rightarrow> out' = out \<and> w' = w
      | Inr n \<Rightarrow> n = min (length out) (length (files p) - offset) \<and> out' = take n (drop offset (files p)) @ drop n out)"
  using inv out
proof (cases rule: windowed_read_cases [where offset = offset])
  case none
  then show ?thesis using inv by (auto simp: windowed_inv_def min_def split: if_splits)
next
  case (hit v)
  let ?n = "min (length out) (wf_size w - offset)"
  have v: "view_inv env (files p) tr v" "env_trace env tr" using inv hit by (auto simp: windowed_inv_def)
  then have "read_mem env tr (wv_ptr v + (offset - wv_aligned_start v)) ?n = take ?n (drop offset (files p))"
    using view_read [OF v, of "offset - wv_aligned_start v" ?n] hit by simp
  with hit inv show ?thesis by (auto simp: windowed_inv_def)
next
  case (failed e tr1)
  let ?n = "min (length out) (wf_size w - offset)"
  note ok = remap_len_ok [of ?n offset w]
  have "windowed_inv env files p w tr1" using map_view_inv [OF c inv failed(2)] ok failed(1) by auto
  with failed show ?thesis by auto
next
  case (mapped v tr1)
  let ?n = "min (length out) (wf_size w - offset)"
  have le: "offset + ?n \<le> wf_size w" using mapped(1) by auto
  note ok = remap_len_ok [OF mapped(1) le]
  note mv = map_view_inv [OF c inv mapped(2) ok(1,4,5)]
  have v: "view_inv env (files p) tr1 v" "env_trace env tr1" "wv_aligned_start v = offset div VIEW_ALIGNMENT * VIEW_ALIGNMENT"
    "wv_mapped_len v = remap_len w offset ?n"
    using mv by (auto simp: windowed_inv_def)
  have "wv_aligned_start v + offset mod VIEW_ALIGNMENT = offset" by (simp add: v(3))
  then have "read_mem env tr1 (wv_ptr v + offset mod VIEW_ALIGNMENT) ?n = take ?n (drop offset (files p))"
    using view_read [OF v(1,2), of "offset mod VIEW_ALIGNMENT" ?n] ok(6) v(4) by simp
  moreover have "windowed_inv env files p (w\<lparr>wf_view := Some v\<rparr>)
      (case wf_view w of Some old \<Rightarrow> unmap_view env w old tr1 | None \<Rightarrow> tr1)"
    using mv v unmap_view_inv [of env files p w tr1 v] by (cases "wf_view w") (auto simp: windowed_inv_def)
  ultimately show ?thesis using mapped inv by (auto simp: windowed_inv_def)
qed


subsection \<open>Resources\<close>

definition handle_res :: "os_handles \<Rightarrow> resources \<Rightarrow> resources" where
  "handle_res h R =
     (case h of
        UnixFd fd \<Rightarrow> res_open fd R
      | WinHandles fh mh \<Rightarrow> (if mh = 0 then res_open fh R else res_open mh (res_open fh R)))"

definition windowed_res :: "windowed_file \<Rightarrow> resources \<Rightarrow> resources" where
  "windowed_res w R =
     (case wf_view w of
        None \<Rightarrow> handle_res (wf_handles w) R
      | Some v \<Rightarrow> res_map (wv_ptr v) (wv_mapped_len v) (handle_res (wf_handles w) R))"

lemmas windowed_res_defs = windowed_res_def handle_res_def res_defs

lemma windowed_open_res:
  assumes "windowed_open_path pf env path wb tr = (r, tr')" "run_res tr R0 = Some R"
  shows "run_res tr' R0 = Some (case r of Inl e \<Rightarrow> R | Inr w \<Rightarrow> windowed_res w R)"
proof -
  obtain v t1 where p: "probe_mmap_eligible pf env path tr = (v, t1)" by force
  have "run_res t1 R0 = Some R" using probe_res [OF p assms(2)] by simp
  with assms(1) p show ?thesis
    by (cases pf)
      (auto simp: windowed_open_path_def windowed_open_unix_def windowed_open_windows_def Let_def sys_call_def
        windowed_res_defs cstring_new_def split: sum.splits if_splits option.splits)
qed

lemma unmap_front_res:
  assumes "run_res tr R0 = Some (res_map (wv_ptr v) (wv_mapped_len v) R)"
  shows "run_res (unmap_view env w v tr) R0 = Some R"
  using assms by (auto simp: unmap_view_def res_defs split: os_handles.split)

lemma unmap_second_res:
  assumes "run_res tr R0 = Some (res_map p n (res_map (wv_ptr v) (wv_mapped_len v) R))" "p \<noteq> wv_ptr v"
  shows "run_res (unmap_view env w v tr) R0 = Some (res_map p n R)"
  using assms by (auto simp: unmap_view_def res_defs split: os_handles.split)

lemma map_view_res:
  assumes "map_view env w a m tr = (r, tr')" "run_res tr R0 = Some (windowed_res w R)" "handles_shape (wf_size w) (wf_handles w)" "0 < wf_size w"
  shows "run_res tr' R0 = Some (case r of Inl e \<Rightarrow> windowed_res w R | Inr v \<Rightarrow> res_map (wv_ptr v) (wv_mapped_len v) (windowed_res w R))"
  using assms
  by (auto simp: map_view_def Let_def sys_call_def windowed_res_defs handles_shape_def
      split: if_splits os_handles.splits option.split)

lemma windowed_read_res:
  assumes c: "os_contract env files" and inv: "windowed_inv env files p w tr" and out: "valid_slice out"
    and rd: "windowed_read_at env w offset out tr = Ret (r, out', w', tr')" and R: "run_res tr R0 = Some (windowed_res w R)"
  shows "run_res tr' R0 = Some (windowed_res w' R) \<and>
     (w' = w \<or> (\<exists>v. w' = w\<lparr>wf_view := Some v\<rparr> \<and> wv_mapped_len v \<le> max (wf_window_bytes w) (length out) + (VIEW_ALIGNMENT - 1)))"
  using inv out
proof (cases rule: windowed_read_cases [where offset = offset])
  case (failed e tr1)
  moreover have "0 < wf_size w" "handles_shape (wf_size w) (wf_handles w)" using failed(1) inv by (auto simp: windowed_inv_def)
  ultimately show ?thesis using rd map_view_res [OF failed(2) R] by auto
next
  case (mapped v tr1)
  let ?n = "min (length out) (wf_size w - offset)"
  have le: "offset + ?n \<le> wf_size w" using mapped(1) by auto
  note ok = remap_len_ok [OF mapped(1) le]
  note mv = map_view_inv [OF c inv mapped(2) ok(1,4,5)]
  have "0 < wf_size w" "handles_shape (wf_size w) (wf_handles w)" using mapped(1) inv by (auto simp: windowed_inv_def)
  then have R1: "run_res tr1 R0 = Some (res_map (wv_ptr v) (wv_mapped_len v) (windowed_res w R))"
    using map_view_res [OF mapped(2) R] by simp
  have "run_res (case wf_view w of Some old \<Rightarrow> unmap_view env w old tr1 | None \<Rightarrow> tr1) R0 =
      Some (windowed_res (w\<lparr>wf_view := Some v\<rparr>) R)"
  proof (cases "wf_view w")
    case (Some old)
    then have "wv_ptr v \<noteq> wv_ptr old" using mv by auto
    with Some R1 show ?thesis by (simp add: windowed_res_def unmap_second_res)
  qed (use R1 in \<open>simp add: windowed_res_def\<close>)
  moreover have "wv_mapped_len v \<le> max (wf_window_bytes w) (length out) + (VIEW_ALIGNMENT - 1)"
  proof -
    have "max (wf_window_bytes w) ?n \<le> max (wf_window_bytes w) (length out)" by simp
    moreover have "wv_mapped_len v = remap_len w offset ?n" using mv by blast
    ultimately show ?thesis using ok(7) by linarith
  qed
  ultimately show ?thesis using rd mapped(3) by auto
qed (use rd R in auto)

lemma windowed_drop_res:
  assumes "run_res tr R0 = Some (windowed_res w R)" "handles_shape n (wf_handles w)"
  shows "run_res (windowed_drop env w tr) R0 = Some R"
proof -
  let ?t = "case wf_view w of Some view \<Rightarrow> unmap_view env w view tr | None \<Rightarrow> tr"
  have "run_res ?t R0 = Some (handle_res (wf_handles w) R)"
    using assms(1) unmap_front_res by (cases "wf_view w") (simp_all add: windowed_res_def)
  with assms(2) show ?thesis
    by (auto simp: windowed_drop_def Let_def handle_res_def handles_shape_def close_fd_def close_win_file_def
        close_win_mapping_def res_defs split: os_handles.splits)
qed

subsection \<open>Reachable states\<close>

text \<open>A windowed file after being opened at the trace \<open>tr0\<close> and any sequence of reads.\<close>

inductive windowed_reach :: "platform \<Rightarrow> os_env \<Rightarrow> path \<Rightarrow> nat \<Rightarrow> trace \<Rightarrow> windowed_file \<Rightarrow> trace \<Rightarrow> bool"
  for pf env path wb tr0 where
  opened: "windowed_open_path pf env path wb tr0 = (Inr w, tr) \<Longrightarrow> windowed_reach pf env path wb tr0 w tr"
| read: "windowed_reach pf env path wb tr0 w tr \<Longrightarrow> valid_slice out \<Longrightarrow>
    windowed_read_at env w offset out tr = Ret (r, out', w', tr') \<Longrightarrow> windowed_reach pf env path wb tr0 w' tr'"

lemma windowed_reach_inv:
  assumes "os_contract env files" "env_trace env tr0" "windowed_reach pf env path wb tr0 w tr"
  shows "windowed_inv env files path w tr"
  using assms(3)
proof induction
  case (opened w tr)
  then show ?case using windowed_open_inv [OF assms(1,2)] by blast
next
  case (read w tr out offset r out' w' tr')
  then show ?case using windowed_read_step [OF assms(1) read.IH read.hyps(2), of offset] by auto
qed

lemma windowed_reach_res:
  assumes "os_contract env files" "env_trace env tr0" "run_res tr0 R0 = Some R" "windowed_reach pf env path wb tr0 w tr"
  shows "run_res tr R0 = Some (windowed_res w R)"
  using assms(4)
proof induction
  case (opened w tr)
  then show ?case using windowed_open_res [OF opened assms(3)] by simp
next
  case (read w tr out offset r out' w' tr')
  then show ?case
    using windowed_read_res [OF assms(1) windowed_reach_inv [OF assms(1,2) read.hyps(1)] read.hyps(2,3) read.IH] by simp
qed


subsection \<open>Claims\<close>

text \<open>
  Claim C11: after any sequence of reads, a read never panics (no addition overflows). When it
  succeeds it delivers exactly the bytes of the file from the offset, as many as fit the buffer
  and the file has, and leaves the rest of the buffer alone; when the mapping call fails, the
  buffer and the cached view stay as they were.
\<close>

theorem windowed_read_correct:
  assumes "os_contract env files" "env_trace env tr0" "windowed_reach pf env path wb tr0 w tr" "valid_slice out"
  shows "\<exists>r out' w' tr'. windowed_read_at env w offset out tr = Ret (r, out', w', tr') \<and>
     (case r of
        Inl e \<Rightarrow> out' = out \<and> w' = w
      | Inr n \<Rightarrow> n = min (length out) (length (files path) - offset) \<and>
          out' = take n (drop offset (files path)) @ drop n out) \<and>
     windowed_len w = length (files path) \<and>
     (windowed_is_empty w \<longleftrightarrow> files path = [])"
proof -
  have inv: "windowed_inv env files path w tr" using windowed_reach_inv [OF assms(1-3)] .
  then have "windowed_len w = length (files path)" "windowed_is_empty w \<longleftrightarrow> files path = []"
    by (simp_all add: windowed_inv_def windowed_len_def windowed_is_empty_def)
  with windowed_read_step [OF assms(1) inv assms(4), of offset] show ?thesis by blast
qed

theorem windowed_read_correct_witness:
  "\<exists>w tr r out' w' tr'. windowed_reach Unix (sim_env (\<lambda>_. [97, 98, 10])) ''f'' 65536 [] w tr \<and>
     windowed_read_at (sim_env (\<lambda>_. [97, 98, 10])) w 1 [0, 0, 0, 0] tr = Ret (r, out', w', tr') \<and>
     (\<forall>n. r = Inr n \<longrightarrow> n = 2 \<and> out' = [98, 10, 0, 0])"
proof -
  let ?files = "\<lambda>_ :: path. [97, 98, 10] :: byte list"
  have c: "os_contract (sim_env ?files) ?files" by (rule sim_contract) (simp add: sim_unit_def)
  obtain w tr where "windowed_open_path Unix (sim_env ?files) ''f'' 65536 [] = (Inr w, tr)"
    by (simp add: windowed_open_path_def windowed_open_unix_def probe_mmap_eligible_def probe_verdict_def
        VIEW_ALIGNMENT_def cstring_new_def Let_def sys_call_def usize_try_from_def)
  then have r: "windowed_reach Unix (sim_env ?files) ''f'' 65536 [] w tr" by (rule windowed_reach.opened)
  have v: "valid_slice [0, 0, 0, 0 :: byte]" by (simp add: valid_slice_def max_consts)
  from windowed_read_correct [OF c _ r v, of 1] obtain r' out' w' tr' where
    "windowed_read_at (sim_env ?files) w 1 [0, 0, 0, 0] tr = Ret (r', out', w', tr')"
    "\<forall>n. r' = Inr n \<longrightarrow> n = 2 \<and> out' = [98, 10, 0, 0]"
    by fastforce
  with r show ?thesis by blast
qed

text \<open>
  Claim C23: after any sequence of reads the cached view is aligned to 64 KiB, not empty, inside
  the file, and is the only mapping the file holds; a read maps at most the larger of the window
  and the request plus the alignment slack; and dropping the file, or failing to open it, leaves
  the handles and mappings of the process exactly as before the open.
\<close>

theorem windowed_resources_bounded:
  assumes "os_contract env files" "env_trace env tr0" "run_res tr0 R0 = Some R"
  shows "(\<forall>e tr. windowed_open_path pf env path wb tr0 = (Inl e, tr) \<longrightarrow> run_res tr R0 = Some R) \<and>
     (\<forall>w tr. windowed_reach pf env path wb tr0 w tr \<longrightarrow>
        run_res (windowed_drop env w tr) R0 = Some R \<and>
        (\<exists>Rw. run_res tr R0 = Some Rw \<and>
           res_maps Rw = (case wf_view w of None \<Rightarrow> [] | Some v \<Rightarrow> [(wv_ptr v, wv_mapped_len v)]) @ res_maps R) \<and>
        (\<forall>v. wf_view w = Some v \<longrightarrow> wv_aligned_start v mod VIEW_ALIGNMENT = 0 \<and> 0 < wv_mapped_len v \<and>
           wv_aligned_start v + wv_mapped_len v \<le> length (files path)) \<and>
        (\<forall>out offset r out' w' tr' v. valid_slice out \<and> windowed_read_at env w offset out tr = Ret (r, out', w', tr') \<and>
           wf_view w' = Some v \<longrightarrow>
           w' = w \<or> wv_mapped_len v \<le> max (wf_window_bytes w) (length out) + (VIEW_ALIGNMENT - 1)))"
proof (intro conjI allI impI)
  fix e tr
  assume "windowed_open_path pf env path wb tr0 = (Inl e, tr)"
  then show "run_res tr R0 = Some R" using windowed_open_res assms(3) by fastforce
next
  fix w tr
  assume r: "windowed_reach pf env path wb tr0 w tr"
  note inv = windowed_reach_inv [OF assms(1,2) r] and res = windowed_reach_res [OF assms r]
  show "run_res (windowed_drop env w tr) R0 = Some R"
    using windowed_drop_res [OF res] inv by (auto simp: windowed_inv_def)
  show "\<exists>Rw. run_res tr R0 = Some Rw \<and>
      res_maps Rw = (case wf_view w of None \<Rightarrow> [] | Some v \<Rightarrow> [(wv_ptr v, wv_mapped_len v)]) @ res_maps R"
    using res by (auto simp: windowed_res_defs split: option.split os_handles.split)
  show "wv_aligned_start v mod VIEW_ALIGNMENT = 0" "0 < wv_mapped_len v"
    "wv_aligned_start v + wv_mapped_len v \<le> length (files path)" if "wf_view w = Some v" for v
    using inv that by (auto simp: windowed_inv_def view_inv_def)
  fix out offset r out' w' tr' v
  assume "valid_slice out \<and> windowed_read_at env w offset out tr = Ret (r, out', w', tr') \<and> wf_view w' = Some v"
  then show "w' = w \<or> wv_mapped_len v \<le> max (wf_window_bytes w) (length out) + (VIEW_ALIGNMENT - 1)"
    using windowed_read_res [OF assms(1) inv, of out offset r out' w' tr' R0 R] res by auto
qed

theorem windowed_resources_bounded_witness:
  "\<exists>w tr. windowed_reach Windows (sim_env (\<lambda>_. [97, 98, 10])) ''f'' 65536 [] w tr \<and>
     run_res (windowed_drop (sim_env (\<lambda>_. [97, 98, 10])) w tr) \<lparr>res_handles = [], res_maps = []\<rparr> =
       Some \<lparr>res_handles = [], res_maps = []\<rparr>"
proof -
  let ?files = "\<lambda>_ :: path. [97, 98, 10] :: byte list"
  have c: "os_contract (sim_env ?files) ?files" by (rule sim_contract) (simp add: sim_unit_def)
  obtain w tr where "windowed_open_path Windows (sim_env ?files) ''f'' 65536 [] = (Inr w, tr)"
    by (simp add: windowed_open_path_def windowed_open_windows_def probe_mmap_eligible_def probe_verdict_def
        VIEW_ALIGNMENT_def Let_def sys_call_def usize_try_from_def INVALID_HANDLE_VALUE_def)
  then have r: "windowed_reach Windows (sim_env ?files) ''f'' 65536 [] w tr" by (rule windowed_reach.opened)
  have R: "run_res [] \<lparr>res_handles = [], res_maps = []\<rparr> = Some \<lparr>res_handles = [], res_maps = []\<rparr>" by simp
  from r windowed_resources_bounded [OF c env_trace_Nil R, of Windows "''f''" 65536] show ?thesis by blast
qed

end
