(* ===== verification/Byte_Source.thy ===== *)
theory Byte_Source
  imports Windowed_File Scanner_Partition
begin

section \<open>Byte sources and the source-agnostic planner\<close>

text \<open>
  \<open>src/src/source.rs\<close>. A \<open>dyn ByteSource\<close> is a record of its methods over a state (the run's
  trace, with the cached view for the windowed backend). A read takes the output buffer and
  returns it with the result. The planner is written against the record, so it is the code of
  the source for every backend; the contract the trait documents is the locale \<open>byte_source\<close>, in
  which the planner is proved to refine the slice planner once, for sources that may return
  fewer bytes than asked for. Each backend is an interpretation.
\<close>

definition DEFAULT_SCAN_BUFFER_BYTES :: nat where "DEFAULT_SCAN_BUFFER_BYTES = 1024 * 1024"
definition DEFAULT_WINDOW_BYTES :: nat where "DEFAULT_WINDOW_BYTES = 64 * 1024 * 1024"
definition MIN_WINDOW_BYTES :: nat where "MIN_WINDOW_BYTES = VIEW_ALIGNMENT"
definition ADAPTIVE_INITIAL_PROBE_BYTES :: nat where "ADAPTIVE_INITIAL_PROBE_BYTES = 4096"

record 's byte_source_ops =
  bs_len :: "'s \<Rightarrow> nat"
  bs_read_at :: "nat \<Rightarrow> bytes \<Rightarrow> 's \<Rightarrow> (nat io \<times> bytes \<times> 's) run"
  bs_as_slice :: "'s \<Rightarrow> (nat \<times> bytes) option"

definition bs_is_empty :: "'s byte_source_ops \<Rightarrow> 's \<Rightarrow> bool" where
  "bs_is_empty src s \<longleftrightarrow> bs_len src s = 0"

subsection \<open>Buffered search\<close>

text \<open>
  The accumulation loop that \<open>find_pattern_from\<close> (for a search window) and
  \<open>plan_partition_boundaries\<close> (for the bytes before a target) share: read into
  \<open>buffer[filled..want]\<close> until \<open>want\<close> bytes are there or the source has no more.
\<close>

function fill_loop ::
  "'s byte_source_ops \<Rightarrow> nat \<Rightarrow> nat \<Rightarrow> nat \<Rightarrow> bytes \<Rightarrow> 's \<Rightarrow> (nat io \<times> bytes \<times> 's) run" where
  "fill_loop src offset want filled buffer s =
     (if filled < want then
        rbind (slice_range buffer filled want) (\<lambda>part.
        rbind (bs_read_at src (offset + filled) part s) (\<lambda>(r, part', s').
          let buffer' = take filled buffer @ part' @ drop want buffer in
          case r of
            Inl e \<Rightarrow> Ret (Inl e, buffer', s')
          | Inr read \<Rightarrow>
              if read = 0 then Ret (Inr filled, buffer', s')
              else if filled + read > usize_max then Panic ''attempt to add with overflow''
              else fill_loop src offset want (filled + read) buffer' s'))
      else Ret (Inr filled, buffer, s))"
  by pat_completeness auto
termination
  by (relation "measure (\<lambda>(src, offset, want, filled, buffer, s). want - filled)") auto

declare fill_loop.simps [simp del]

text \<open>
  \<open>bptr\<close> is the address of the buffer, on which only the alignment phase of the byte search
  depends. The two debug assertions of the function hold at every call of the program.
\<close>

function search_loop ::
  "'s byte_source_ops \<Rightarrow> nat \<Rightarrow> bytes \<Rightarrow> nat \<Rightarrow> nat \<Rightarrow> nat \<Rightarrow> bytes \<Rightarrow> 's \<Rightarrow> (nat option io \<times> bytes \<times> 's) run" where
  "search_loop src bptr delimiter file_len probe_len offset buffer s =
     (if offset \<ge> as_usize file_len then Ret (Inr None, buffer, s)
      else
        let want = min probe_len (file_len - offset) in
        rbind (fill_loop src offset want 0 buffer s) (\<lambda>(r, buffer1, s1).
          case r of
            Inl e \<Rightarrow> Ret (Inl e, buffer1, s1)
          | Inr read \<Rightarrow>
              if read = 0 then Ret (Inr None, buffer1, s1)
              else rbind (slice_range buffer1 0 read) (\<lambda>window.
                rbind (find_pattern_in_slice bptr window delimiter) (\<lambda>found. case found of
                  Some pos \<Rightarrow> rmap (\<lambda>p. (Inr (Some p), buffer1, s1)) (add_u64 offset pos)
                | None \<Rightarrow>
                    if sat_add offset read \<ge> file_len then Ret (Inr None, buffer1, s1)
                    else
                      let overlap = sat_sub (slen delimiter) 1;
                          advance = max (sat_sub read overlap) 1;
                          max_probe = slen buffer1
                      in search_loop src bptr delimiter file_len
                           (if probe_len < max_probe then min (sat_mul probe_len 2) max_probe else probe_len)
                           (sat_add offset advance) buffer1 s1))))"
  by pat_completeness auto
termination
proof (relation "measure (\<lambda>(src, bptr, d, file_len, probe, offset, buffer, s). as_usize file_len - offset)", goal_cases)
  case (2 src bptr delimiter file_len probe_len offset)
  then have "offset < as_usize file_len" "as_usize file_len \<le> usize_max" by (simp_all add: as_usize_def max_consts)
  then have "offset < sat_add offset (max k 1)" for k by (auto simp: sat_add_def)
  with 2 show ?case by (auto intro!: diff_less_mono2)
qed simp

declare search_loop.simps [simp del]

definition find_pattern_from ::
  "'s byte_source_ops \<Rightarrow> nat \<Rightarrow> nat \<Rightarrow> bytes \<Rightarrow> bytes \<Rightarrow> 's \<Rightarrow> (nat option io \<times> bytes \<times> 's) run" where
  "find_pattern_from src bptr from_pos delimiter buffer s =
     (let file_len = bs_len src s; dlen = slen delimiter in
      if \<not> dlen > 0 then Panic ''assertion failed: dlen > 0''
      else if \<not> slen buffer \<ge> dlen then Panic ''assertion failed: buffer.len() >= dlen''
      else if buffer = [] \<or> dlen = 0 then Ret (Inr None, buffer, s)
      else
        let max_probe = slen buffer;
            probe_len = min (max dlen ADAPTIVE_INITIAL_PROBE_BYTES) max_probe
        in search_loop src bptr delimiter file_len probe_len from_pos buffer s)"

subsection \<open>The planner\<close>

function source_partition_loop ::
  "'s byte_source_ops \<Rightarrow> nat \<Rightarrow> bytes \<Rightarrow> nat \<Rightarrow> nat \<Rightarrow> nat \<Rightarrow> nat \<Rightarrow> bytes \<Rightarrow> 's \<Rightarrow> (nat list io \<times> 's) run" where
  "source_partition_loop src bptr delimiter file_len n i last_boundary buffer s =
     (if i < n then
        let dlen = slen delimiter;
            target = partition_target file_len i n
        in if target \<le> last_boundary
           then source_partition_loop src bptr delimiter file_len n (i + 1) last_boundary buffer s
           else
             rbind (if target \<ge> dlen then fill_loop src (target - dlen) dlen 0 buffer s else Ret (Inr 0, buffer, s))
               (\<lambda>(tail, buffer1, s1).
                 case tail of
                   Inl e \<Rightarrow> Ret (Inl e, s1)
                 | Inr tail_read \<Rightarrow>
                     if target \<ge> dlen \<and> tail_read = dlen \<and> take dlen buffer1 = delimiter
                     then rmap (\<lambda>(r, s'). (map_sum id ((#) target) r, s'))
                            (source_partition_loop src bptr delimiter file_len n (i + 1) target buffer1 s1)
                     else
                       rbind (find_pattern_from src bptr target delimiter buffer1 s1) (\<lambda>(r, buffer2, s2).
                         case r of
                           Inl e \<Rightarrow> Ret (Inl e, s2)
                         | Inr (Some pos) \<Rightarrow>
                             let boundary = min (sat_add pos dlen) file_len
                             in rmap (\<lambda>(r, s'). (map_sum id ((#) boundary) r, s'))
                                  (source_partition_loop src bptr delimiter file_len n (i + 1) boundary buffer2 s2)
                         | Inr None \<Rightarrow> Ret (Inr [file_len], s2)))
      else Ret (Inr [], s))"
  by pat_completeness auto
termination
  by (relation "measure (\<lambda>(src, bptr, d, len, n, i, last, buffer, s). n - i)") auto

declare source_partition_loop.simps [simp del]

text \<open>\<open>alloc n\<close> is the outcome of \<open>try_reserve_exact(n)\<close>.\<close>

definition plan_partition_boundaries ::
  "(nat \<Rightarrow> bool) \<Rightarrow> nat \<Rightarrow> 's byte_source_ops \<Rightarrow> nat \<Rightarrow> bytes \<Rightarrow> nat \<Rightarrow> 's \<Rightarrow> (brange list io \<times> 's) run" where
  "plan_partition_boundaries alloc bptr src num_partitions delimiter scan_buffer_bytes s =
     (if delimiter = [] then Panic empty_delimiter_msg
      else case bs_as_slice src s of
        Some (ptr, data) \<Rightarrow>
          rmap (\<lambda>rs. (Inr rs, s)) (find_partition_boundaries_pattern ptr data num_partitions delimiter)
      | None \<Rightarrow>
          let file_len = bs_len src s in
          if file_len = 0 \<or> num_partitions = 0 then Ret (Inr [], s)
          else if num_partitions = 1 then Ret (Inr [(0, file_len)], s)
          else
            let dlen = slen delimiter;
                n = min num_partitions file_len;
                buffer_len = max (max scan_buffer_bytes dlen) 1
            in if buffer_len > isize_max then
                 Ret (Inl (io_err InvalidInput
                   (''scan buffer size '' @ show_nat buffer_len @ '' bytes exceeds the addressable limit'')), s)
               else if \<not> alloc buffer_len then
                 Ret (Inl (io_err OutOfMemory (''failed to allocate '' @ show_nat buffer_len @ ''-byte scan buffer'')), s)
               else
                 rmap (\<lambda>(r, s'). (map_sum id (ranges_from_boundaries file_len) r, s'))
                   (source_partition_loop src bptr delimiter file_len n 1 0 (replicate buffer_len 0) s))"


subsection \<open>The contract of a byte source\<close>

lemma first_occ_take: "first_occ p (take n xs) = Some k \<Longrightarrow> first_occ p xs = Some k"
proof -
  assume occ: "first_occ p (take n xs) = Some k"
  have "k + length p \<le> n" using first_occ_bound [OF occ] by simp
  then have "starts_with (drop j (take n xs)) p \<longleftrightarrow> starts_with (drop j xs) p" if "j \<le> k" for j
    using that by (simp add: starts_with_def drop_take min_def)
  then show ?thesis using occ by (auto simp: first_occ_Some_iff)
qed

lemma no_occ_in_window:
  assumes "first_occ p (take n xs) = None" "j + length p \<le> n" "j < length xs"
  shows "\<not> starts_with (drop j xs) p"
proof
  assume sw: "starts_with (drop j xs) p"
  then have "starts_with (drop j (take n xs)) p" using assms(2) by (auto simp: starts_with_def drop_take min_def)
  moreover have "j \<le> length (take n xs)" using assms(2,3) by simp
  ultimately show False using assms(1) by (auto simp: first_occ_None_iff)
qed

text \<open>
  A search window without an occurrence: the next window starts so that it overlaps this one by all
  but one byte of the pattern, and no occurrence is skipped.
\<close>

lemma window_advance:
  assumes "first_occ p (take want (drop offset xs)) = None" "p \<noteq> []" "valid_slice p" "valid_slice xs"
    "length p \<le> want" "offset + want < length xs"
  obtains nxt where "sat_add offset (max (sat_sub want (sat_sub (slen p) 1)) 1) = nxt"
    "offset < nxt" "nxt \<le> length xs" "\<not> length xs \<le> sat_add offset want"
    "map_option ((+) offset) (first_occ p (drop offset xs)) = map_option ((+) nxt) (first_occ p (drop nxt xs))"
proof -
  define adv where "adv = want - (length p - 1)"
  have d0: "0 < length p" using assms(2) by simp
  have u: "length xs < usize_max" using valid_slice_usize [OF assms(4)] .
  have adv: "0 < adv" "adv + length p = want + 1" "offset + adv \<le> length xs"
    using assms(5,6) d0 unfolding adv_def by arith+
  have "max (sat_sub want (sat_sub (slen p) 1)) 1 = adv"
    using assms(3) adv(1) by (simp add: adv_def sat_sub_def)
  then have "sat_add offset (max (sat_sub want (sat_sub (slen p) 1)) 1) = offset + adv"
    using adv(3) u by (simp add: sat_add_exact)
  moreover have "\<not> length xs \<le> sat_add offset want" using assms(6) u by (simp add: sat_add_def)
  moreover have "\<forall>j<adv. \<not> starts_with (drop j (drop offset xs)) p"
    using adv(2) assms(6) by (intro allI impI no_occ_in_window [OF assms(1)]) auto
  then have "first_occ p (drop offset xs) = map_option ((+) adv) (first_occ p (drop (offset + adv) xs))"
    using first_occ_skip [of adv "drop offset xs" p] adv(3) by (simp add: add.commute)
  then have "map_option ((+) offset) (first_occ p (drop offset xs)) = map_option ((+) (offset + adv)) (first_occ p (drop (offset + adv) xs))"
    by (simp only: map_option_plus_plus)
  ultimately show thesis using adv by (intro that [of "offset + adv"]) simp_all
qed

lemma window_hit:
  assumes "first_occ p (take want (drop offset xs)) = Some pos" "offset < length xs" "valid_slice xs"
  shows "first_occ p (drop offset xs) = Some pos" "offset + pos + length p \<le> length xs" "offset + pos < usize_max"
proof -
  show occ: "first_occ p (drop offset xs) = Some pos" using first_occ_take [OF assms(1)] .
  show "offset + pos + length p \<le> length xs" "offset + pos < usize_max"
    using first_occ_bound [OF occ] assms(2) valid_slice_usize [OF assms(3)] by simp_all
qed

lemma rmap_post:
  assumes "\<exists>r s'. m = Ret (r, s') \<and> P s' \<and> (case r of Inl e \<Rightarrow> E e | Inr v \<Rightarrow> Q v)"
    "\<And>e. E e \<Longrightarrow> E' e" "\<And>v. Q v \<Longrightarrow> Q' (f v)"
  shows "\<exists>r s'. rmap (\<lambda>(r, s'). (map_sum id f r, s')) m = Ret (r, s') \<and> P s' \<and> (case r of Inl e \<Rightarrow> E' e | Inr v \<Rightarrow> Q' v)"
proof -
  obtain r s' where m: "m = Ret (r, s')" "P s'" "case r of Inl e \<Rightarrow> E e | Inr v \<Rightarrow> Q v" using assms(1) by blast
  then show ?thesis using assms(2,3) by (cases r) auto
qed

text \<open>The errors a source can report.\<close>

definition source_error :: "'s byte_source_ops \<Rightarrow> ('s \<Rightarrow> bool) \<Rightarrow> io_error \<Rightarrow> bool" where
  "source_error src sinv e \<longleftrightarrow>
     (\<exists>s off out out' s'. sinv s \<and> valid_slice out \<and> bs_read_at src off out s = Ret (Inl e, out', s'))"

text \<open>The place where a search ended.\<close>

definition search_end :: "nat \<Rightarrow> nat option io \<Rightarrow> nat" where
  "search_end len r = (case r of Inr (Some pos) \<Rightarrow> pos | _ \<Rightarrow> len)"

text \<open>
  The reads for one target, which lead to the state \<open>s1\<close> and end at \<open>stop\<close>: the bytes before the
  target and, unless they are the delimiter, the search after it.
\<close>

definition tail_read ::
  "'s byte_source_ops \<Rightarrow> bytes \<Rightarrow> nat \<Rightarrow> bytes \<Rightarrow> 's \<Rightarrow> (nat io \<times> bytes \<times> 's) run" where
  "tail_read src p t buffer s =
     (if t \<ge> slen p then fill_loop src (t - slen p) (slen p) 0 buffer s else Ret (Inr 0, buffer, s))"

definition target_reads ::
  "'s byte_source_ops \<Rightarrow> nat \<Rightarrow> bytes \<Rightarrow> nat \<Rightarrow> nat \<Rightarrow> bytes \<Rightarrow> 's \<Rightarrow> nat \<Rightarrow> 's \<Rightarrow> bool" where
  "target_reads src bptr p len t buffer s stop s1 \<longleftrightarrow>
     (\<exists>r buf s0. tail_read src p t buffer s = Ret (r, buf, s0) \<and>
        (s1 = s0 \<and> stop = t \<or>
         (\<exists>r' buf'. find_pattern_from src bptr t p buf s0 = Ret (r', buf', s1) \<and> stop = search_end len r')))"

locale byte_source =
  fixes src :: "'s byte_source_ops" and content :: bytes and sinv :: "'s \<Rightarrow> bool"
  assumes valid_content: "sinv s \<Longrightarrow> valid_slice content"
    and len_content: "sinv s \<Longrightarrow> bs_len src s = length content"
    and read_total: "sinv s \<Longrightarrow> valid_slice out \<Longrightarrow>
      \<exists>r out' s'. bs_read_at src off out s = Ret (r, out', s') \<and> sinv s' \<and> length out' = length out"
    and read_exact: "sinv s \<Longrightarrow> valid_slice out \<Longrightarrow> bs_read_at src off out s = Ret (Inr n, out', s') \<Longrightarrow>
      n \<le> length out \<and> n \<le> length content - off \<and> take n out' = take n (drop off content) \<and>
      (n = 0 \<longrightarrow> out = [] \<or> length content \<le> off)"
    and slice_content: "sinv s \<Longrightarrow> bs_as_slice src s = Some (ptr, data) \<Longrightarrow> data = content"
begin

lemma fill_loop_spec:
  assumes "sinv s" "filled \<le> want" "want \<le> length buffer" "valid_slice buffer" "offset + want \<le> length content"
    "take filled buffer = take filled (drop offset content)"
  shows "\<exists>r buffer' s'. fill_loop src offset want filled buffer s = Ret (r, buffer', s') \<and> sinv s' \<and>
     length buffer' = length buffer \<and>
     (case r of Inl e \<Rightarrow> source_error src sinv e
      | Inr k \<Rightarrow> k = want \<and> take want buffer' = take want (drop offset content))"
  using assms
proof (induction "want - filled" arbitrary: filled buffer s rule: less_induct)
  case less
  show ?case
  proof (cases "filled < want")
    case False
    with less.prems show ?thesis by (subst fill_loop.simps) auto
  next
    case True
    define part where "part = take (want - filled) (drop filled buffer)"
    have part: "slice_range buffer filled want = Ret part" "length part = want - filled" "valid_slice part"
      using True less.prems by (auto simp: part_def slice_range_def valid_slice_def)
    obtain r part' s' where rd: "bs_read_at src (offset + filled) part s = Ret (r, part', s')" "sinv s'" "length part' = length part"
      using read_total [OF less.prems(1) part(3)] by blast
    define buffer' where "buffer' = take filled buffer @ part' @ drop want buffer"
    have len: "length buffer' = length buffer" using less.prems True rd(3) part(2) by (simp add: buffer'_def)
    have unfold: "fill_loop src offset want filled buffer s =
        (case r of Inl e \<Rightarrow> Ret (Inl e, buffer', s')
         | Inr read \<Rightarrow> if read = 0 then Ret (Inr filled, buffer', s')
             else if filled + read > usize_max then Panic ''attempt to add with overflow''
             else fill_loop src offset want (filled + read) buffer' s')"
      using True part(1) rd(1) unfolding buffer'_def
      by (subst fill_loop.simps) (simp add: Let_def split: sum.split)
    show ?thesis
    proof (cases r)
      case (Inl e)
      have "source_error src sinv e" unfolding source_error_def using less.prems(1) part(3) rd(1) Inl by blast
      with unfold Inl rd(2) len show ?thesis by simp
    next
      case (Inr n)
      note ex = read_exact [OF less.prems(1) part(3) rd(1) [unfolded Inr]]
      have n: "0 < n" "n \<le> want - filled" using ex part(2) True less.prems(5) by auto
      have "filled + n \<le> usize_max"
        using n True less.prems(3,4) valid_slice_usize [of buffer] by simp
      moreover have "take (filled + n) buffer' = take (filled + n) (drop offset content)"
      proof -
        have "take (filled + n) buffer' = take filled buffer @ take n part'"
          using n True less.prems(3) part(2) rd(3) by (simp add: buffer'_def)
        then show ?thesis using ex less.prems(6) by (simp add: take_add add.commute)
      qed
      ultimately show ?thesis
        using less.hyps [of "filled + n" s' buffer'] unfold Inr n rd(2) len less.prems True
        by (auto simp: valid_slice_def)
    qed
  qed
qed

text \<open>One window of the search: an error of the source, a hit, the end of the data, or the next window.\<close>

lemma search_step:
  assumes "sinv s" "valid_slice delimiter" "delimiter \<noteq> []" "valid_slice buffer" "0 < probe" "probe \<le> length buffer"
    "offset < length content" "want = min probe (length content - offset)"
  shows "\<exists>buffer1 s1. sinv s1 \<and> length buffer1 = length buffer \<and>
     (\<exists>r. fill_loop src offset want 0 buffer s = Ret (r, buffer1, s1)) \<and>
     ((\<exists>e. source_error src sinv e \<and>
         search_loop src bptr delimiter (length content) probe offset buffer s = Ret (Inl e, buffer1, s1)) \<or>
      search_loop src bptr delimiter (length content) probe offset buffer s =
        (case first_occ delimiter (take want (drop offset content)) of
           Some pos \<Rightarrow> rmap (\<lambda>p. (Inr (Some p), buffer1, s1)) (add_u64 offset pos)
         | None \<Rightarrow> if sat_add offset want \<ge> length content then Ret (Inr None, buffer1, s1)
             else search_loop src bptr delimiter (length content)
                    (if probe < slen buffer1 then min (sat_mul probe 2) (slen buffer1) else probe)
                    (sat_add offset (max (sat_sub want (sat_sub (slen delimiter) 1)) 1)) buffer1 s1))"
proof -
  let ?w = "take want (drop offset content)"
  have vc: "valid_slice content" using valid_content assms(1) .
  have uL: "length content < usize_max" using valid_slice_usize [OF vc] .
  have want: "0 < want" "want \<le> length buffer" "offset + want \<le> length content" using assms(5-8) by auto
  obtain r buffer1 s1 where f: "fill_loop src offset want 0 buffer s = Ret (r, buffer1, s1)" "sinv s1" "length buffer1 = length buffer"
    "case r of Inl e \<Rightarrow> source_error src sinv e | Inr k \<Rightarrow> k = want \<and> take want buffer1 = ?w"
    using fill_loop_spec [of s 0 want buffer offset] assms(1,4) want by auto
  note unfold = search_loop.simps [of src bptr delimiter "length content" probe offset buffer s]
  have occ: "find_pattern_in_slice bptr ?w delimiter = Ret (first_occ delimiter ?w)"
    using assms(2,3) vc by (intro find_pattern_in_slice_first_occ) simp_all
  show ?thesis
  proof (cases r)
    case (Inl e)
    with f uL assms(7) show ?thesis
      by (intro exI [of _ buffer1] exI [of _ s1]) (simp add: unfold Let_def assms(8) [symmetric])
  next
    case (Inr k)
    with f(4) have "k = want" "slice_range buffer1 0 want = Ret ?w" using f(3) want(2) by (simp_all add: slice_range_def)
    with Inr f uL assms(7) want(1) occ show ?thesis
      by (intro exI [of _ buffer1] exI [of _ s1]) (simp add: unfold Let_def assms(8) [symmetric] split: option.split)
  qed
qed

lemma search_loop_spec:
  assumes "sinv s" "valid_slice delimiter" "delimiter \<noteq> []" "valid_slice buffer"
    "length delimiter \<le> probe" "probe \<le> length buffer" "offset \<le> length content"
  shows "\<exists>r buffer' s'. search_loop src bptr delimiter (length content) probe offset buffer s = Ret (r, buffer', s') \<and> sinv s' \<and>
     length buffer' = length buffer \<and>
     (case r of Inl e \<Rightarrow> source_error src sinv e
      | Inr res \<Rightarrow> res = map_option ((+) offset) (first_occ delimiter (drop offset content)))"
  using assms
proof (induction "length content - offset" arbitrary: offset probe buffer s rule: less_induct)
  case less
  let ?L = "length content" and ?run = "search_loop src bptr delimiter (length content) probe offset buffer s"
  have vc: "valid_slice content" using valid_content less.prems(1) .
  show ?case
  proof (cases "offset < ?L")
    case False
    then have "?run = Ret (Inr None, buffer, s)" using valid_slice_usize [OF vc] by (subst search_loop.simps) simp
    moreover have "first_occ delimiter (drop offset content) = None"
      using False less.prems(3) by (intro first_occ_short) simp
    ultimately show ?thesis using less.prems(1) by simp
  next
    case True
    define want where "want = min probe (?L - offset)"
    let ?occ = "first_occ delimiter (take want (drop offset content))"
    have "0 < probe" using less.prems(3,5) by (cases delimiter) auto
    from search_step [OF less.prems(1-4) this less.prems(6) True want_def, of bptr]
    obtain buffer1 s1 where s1: "sinv s1" "length buffer1 = length buffer"
      and step: "(\<exists>e. source_error src sinv e \<and> ?run = Ret (Inl e, buffer1, s1)) \<or>
        ?run = (case ?occ of Some pos \<Rightarrow> rmap (\<lambda>p. (Inr (Some p), buffer1, s1)) (add_u64 offset pos)
         | None \<Rightarrow> if sat_add offset want \<ge> ?L then Ret (Inr None, buffer1, s1)
             else search_loop src bptr delimiter ?L
                    (if probe < slen buffer1 then min (sat_mul probe 2) (slen buffer1) else probe)
                    (sat_add offset (max (sat_sub want (sat_sub (slen delimiter) 1)) 1)) buffer1 s1)" (is "_ \<or> ?run = ?case")
      by blast
    show ?thesis
    proof (cases "?run = ?case")
      case False
      with step s1 show ?thesis by auto
    next
      case run: True
      show ?thesis
      proof (cases ?occ)
        case (Some pos)
        with window_hit [OF Some True vc] s1 run show ?thesis by (simp add: add_u64_def)
      next
        case None
        show ?thesis
        proof (cases "offset + want \<ge> ?L")
          case True
          with run None s1 valid_slice_usize [OF vc] show ?thesis by (simp add: sat_add_def)
        next
          case False
          then have "length delimiter \<le> want" using less.prems(5) by (auto simp: want_def min_def split: if_splits)
          with False obtain nxt where nx: "sat_add offset (max (sat_sub want (sat_sub (slen delimiter) 1)) 1) = nxt"
            "offset < nxt" "nxt \<le> ?L" "\<not> ?L \<le> sat_add offset want"
            "map_option ((+) offset) (first_occ delimiter (drop offset content)) = map_option ((+) nxt) (first_occ delimiter (drop nxt content))"
            using window_advance [OF None less.prems(3,2) vc] by (metis not_le)
          define probe' where "probe' = (if probe < slen buffer1 then min (sat_mul probe 2) (slen buffer1) else probe)"
          have vb: "valid_slice buffer1" using less.prems(4) s1(2) by (simp add: valid_slice_def)
          have p': "length delimiter \<le> probe'" "probe' \<le> length buffer1"
            using less.prems(5,6) s1(2) vb valid_slice_usize [OF vb] by (auto simp: probe'_def sat_mul_def)
          have "?run = search_loop src bptr delimiter ?L probe' nxt buffer1 s1"
            unfolding run using None nx(4) by (simp add: nx(1) [simplified] probe'_def)
          moreover have "?L - nxt < ?L - offset" using nx(2) True by simp
          ultimately show ?thesis
            using less.hyps [OF _ s1(1) less.prems(2,3) vb p' nx(3)] s1(2) unfolding nx(5) by simp
        qed
      qed
    qed
  qed
qed

lemma find_pattern_from_spec:
  assumes "sinv s" "valid_slice delimiter" "delimiter \<noteq> []" "valid_slice buffer" "length delimiter \<le> length buffer"
    "from_pos \<le> length content"
  shows "\<exists>r buffer' s'. find_pattern_from src bptr from_pos delimiter buffer s = Ret (r, buffer', s') \<and> sinv s' \<and>
     length buffer' = length buffer \<and>
     (case r of Inl e \<Rightarrow> source_error src sinv e
      | Inr res \<Rightarrow> res = map_option ((+) from_pos) (first_occ delimiter (drop from_pos content)))"
proof -
  have "buffer \<noteq> []" using assms(3,5) by auto
  then show ?thesis
    using assms len_content [OF assms(1)]
      search_loop_spec [OF assms(1-4), of "min (max (slen delimiter) ADAPTIVE_INITIAL_PROBE_BYTES) (slen buffer)" from_pos bptr]
    by (simp add: find_pattern_from_def Let_def)
qed

lemma tail_check:
  assumes "sinv s" "valid_slice p" "valid_slice buffer" "length p \<le> length buffer" "t \<le> length content"
  shows "\<exists>r buffer' s'. (if t \<ge> slen p then fill_loop src (t - slen p) (slen p) 0 buffer s else Ret (Inr 0, buffer, s)) =
       Ret (r, buffer', s') \<and> sinv s' \<and> length buffer' = length buffer \<and>
     (case r of Inl e \<Rightarrow> source_error src sinv e
      | Inr k \<Rightarrow> (t \<ge> slen p \<and> k = slen p \<and> take (slen p) buffer' = p) \<longleftrightarrow> ends_after p content t)"
proof (cases "length p \<le> t")
  case True
  from fill_loop_spec [of s 0 "length p" buffer "t - length p"] assms True
  obtain r buffer' s' where "fill_loop src (t - length p) (length p) 0 buffer s = Ret (r, buffer', s')" "sinv s'"
    "length buffer' = length buffer"
    "case r of Inl e \<Rightarrow> source_error src sinv e
     | Inr k \<Rightarrow> k = length p \<and> take (length p) buffer' = take (length p) (drop (t - length p) content)"
    by auto
  then show ?thesis using True assms(2,5)
    by (intro exI [of _ r] exI [of _ buffer'] exI [of _ s']) (auto simp: ends_after_def starts_with_def split: sum.splits)
next
  case False
  then show ?thesis using assms(1,2) by (auto simp: ends_after_def)
qed

text \<open>
  One target past the last cut: an error of the source, the end of the data, or the record boundary
  of the target and the rest of the loop.
\<close>

lemma source_partition_step:
  assumes "sinv s" "valid_slice p" "p \<noteq> []" "valid_slice buffer" "length p \<le> length buffer"
    "i < n" "partition_target (length content) i n = t" "t < length content" "l < t"
  shows "\<exists>buf s1 stop. sinv s1 \<and> length buf = length buffer \<and> target_reads src bptr p (length content) t buffer s stop s1 \<and>
     ((\<exists>e. source_error src sinv e \<and> source_partition_loop src bptr p (length content) n i l buffer s = Ret (Inl e, s1)) \<or>
      record_cut p content t = length content \<and>
        source_partition_loop src bptr p (length content) n i l buffer s = Ret (Inr [length content], s1) \<or>
      stop \<le> record_cut p content t \<and>
        source_partition_loop src bptr p (length content) n i l buffer s =
        rmap (\<lambda>(r, s'). (map_sum id ((#) (record_cut p content t)) r, s'))
          (source_partition_loop src bptr p (length content) n (i + 1) (record_cut p content t) buf s1))"
proof -
  let ?L = "length content" and ?cut = "record_cut p content t"
  note unfold = source_partition_loop.simps [of src bptr p ?L n i l buffer s]
  have gt: "\<not> t \<le> l" using assms(9) by simp
  obtain r buf1 s1 where tc: "(if t \<ge> slen p then fill_loop src (t - slen p) (slen p) 0 buffer s else Ret (Inr 0, buffer, s)) =
        Ret (r, buf1, s1)" "sinv s1" "length buf1 = length buffer"
      "case r of Inl e \<Rightarrow> source_error src sinv e
       | Inr k \<Rightarrow> (t \<ge> slen p \<and> k = slen p \<and> take (slen p) buf1 = p) \<longleftrightarrow> ends_after p content t"
    using tail_check [OF assms(1,2,4,5), of t] assms(8) by auto
  have reads1: "target_reads src bptr p ?L t buffer s t s1"
    unfolding target_reads_def tail_read_def tc(1) by blast
  have b1: "valid_slice buf1" "length p \<le> length buf1" using assms(4,5) tc(3) by (simp_all add: valid_slice_def)
  consider e where "r = Inl e" | (exact) k where "r = Inr k" "ends_after p content t"
    | (search) k where "r = Inr k" "\<not> ends_after p content t" by (cases r) auto
  then show ?thesis
  proof cases
    case 1
    with assms(6) gt tc reads1 show ?thesis
      unfolding unfold Let_def assms(7) tc(1) by (intro exI [of _ buf1] exI [of _ s1] exI [of _ t]) simp
  next
    case exact
    then have "?cut = t" by (simp add: record_cut_def)
    with exact assms(6) gt tc(2-4) reads1 show ?thesis
      unfolding unfold Let_def assms(7) tc(1) by (intro exI [of _ buf1] exI [of _ s1] exI [of _ t]) (simp cong: sum.case_cong)
  next
    case search
    obtain r2 buf2 s2 where fp: "find_pattern_from src bptr t p buf1 s1 = Ret (r2, buf2, s2)" "sinv s2" "length buf2 = length buf1"
      "case r2 of Inl e \<Rightarrow> source_error src sinv e | Inr res \<Rightarrow> res = map_option ((+) t) (first_occ p (drop t content))"
      using find_pattern_from_spec [OF tc(2) assms(2,3) b1, of t bptr] assms(8) by auto
    have reads2: "target_reads src bptr p ?L t buffer s (search_end ?L r2) s2"
      unfolding target_reads_def tail_read_def tc(1) using fp(1) by blast
    have b2: "length buf2 = length buffer" using tc(3) fp(3) by simp
    have nc: "\<not> (t \<ge> slen p \<and> k = slen p \<and> take (slen p) buf1 = p)" using tc(4) search by simp
    have eq: "source_partition_loop src bptr p ?L n i l buffer s =
        (case r2 of Inl e \<Rightarrow> Ret (Inl e, s2)
         | Inr (Some pos) \<Rightarrow> (let boundary = min (sat_add pos (slen p)) ?L
             in rmap (\<lambda>(r, s'). (map_sum id ((#) boundary) r, s'))
                  (source_partition_loop src bptr p ?L n (i + 1) boundary buf2 s2))
         | Inr None \<Rightarrow> Ret (Inr [?L], s2))"
      using assms(6) gt fp(1) unfolding unfold Let_def assms(7) tc(1) search(1) by (simp add: if_not_P [OF nc])
    have some: "min (sat_add (t + q) (slen p)) ?L = ?cut" if "first_occ p (drop t content) = Some q" for q
    proof -
      have "?cut = t + q + length p" "t + q + length p \<le> ?L"
        using search(2) that assms(3,8) record_cut_found [of t content p q] first_occ_bound [OF that] by simp_all
      then show ?thesis using assms(2) valid_slice_usize [OF valid_content [OF assms(1)]] by (simp add: sat_add_exact)
    qed
    have stop: "t + q \<le> ?cut" if "first_occ p (drop t content) = Some q" for q
      using search(2) that assms(3,8) record_cut_found [of t content p q] by simp
    show ?thesis
      using fp(2,4) b2 reads2 eq some stop record_cut_none [OF search(2)]
      by (intro exI [of _ buf2] exI [of _ s2] exI [of _ "search_end ?L r2"])
        (cases r2; cases "first_occ p (drop t content)"; simp add: Let_def search_end_def)
  qed
qed

lemma source_partition_loop_spec:
  assumes "content \<noteq> []" "valid_slice p" "p \<noteq> []" "n \<le> length content" "0 < i"
    "sinv s" "valid_slice buffer" "length p \<le> length buffer"
  shows "\<exists>r s'. source_partition_loop src bptr p (length content) n i l buffer s = Ret (r, s') \<and> sinv s' \<and>
     (case r of Inl e \<Rightarrow> source_error src sinv e
      | Inr bs \<Rightarrow> bs = plan_cuts (record_cut p content) (map (\<lambda>j. length content * j div n) [i..<n]) l)"
  using assms(5-8)
proof (induction "n - i" arbitrary: i l buffer s rule: less_induct)
  case less
  let ?L = "length content" and ?cut = "record_cut p content"
  show ?case
  proof (cases "i < n")
    case False
    then show ?thesis using less.prems(2) by (subst source_partition_loop.simps) simp
  next
    case True
    define t where "t = ?L * i div n"
    have t: "partition_target ?L i n = t" "t < ?L"
      using True assms(1,4) valid_slice_usize [OF valid_content [OF less.prems(2)]]
      by (simp_all add: t_def partition_target_exact target_less)
    note upt = targets_unfold [OF True, of ?L, folded t_def]
    have IH: "\<exists>r s'. source_partition_loop src bptr p ?L n (i + 1) l' buf s0 = Ret (r, s') \<and> sinv s' \<and>
        (case r of Inl e \<Rightarrow> source_error src sinv e
         | Inr bs \<Rightarrow> bs = plan_cuts ?cut (map (\<lambda>j. ?L * j div n) [Suc i..<n]) l')"
      if "sinv s0" "valid_slice buf" "length p \<le> length buf" for l' buf s0
    proof -
      have "n - Suc i < n - i" using True by simp
      from less.hyps [OF this zero_less_Suc that, of l'] show ?thesis by (simp only: Suc_eq_plus1)
    qed
    show ?thesis
    proof (cases "t \<le> l")
      case skip: True
      then show ?thesis using IH [OF less.prems(2-4), of l] True t
        by (subst source_partition_loop.simps) (simp add: upt Let_def cong: sum.case_cong)
    next
      case False
      then have "l < t" by simp
      from source_partition_step [OF less.prems(2) assms(2,3) less.prems(3,4) True t this, of bptr]
      obtain buf s1 where sb: "sinv s1" "length buf = length buffer"
        and step: "(\<exists>e. source_error src sinv e \<and> source_partition_loop src bptr p ?L n i l buffer s = Ret (Inl e, s1)) \<or>
          ?cut t = ?L \<and> source_partition_loop src bptr p ?L n i l buffer s = Ret (Inr [?L], s1) \<or>
          source_partition_loop src bptr p ?L n i l buffer s =
            rmap (\<lambda>(r, s'). (map_sum id ((#) (?cut t)) r, s')) (source_partition_loop src bptr p ?L n (i + 1) (?cut t) buf s1)"
        by blast
      have s1: "sinv s1" "valid_slice buf" "length p \<le> length buf"
        using sb less.prems(3,4) by (simp_all add: valid_slice_def)
      have push: "\<exists>r s'. rmap (\<lambda>(r, s'). (map_sum id ((#) (?cut t)) r, s')) (source_partition_loop src bptr p ?L n (i + 1) (?cut t) buf s1) =
          Ret (r, s') \<and> sinv s' \<and> (case r of Inl e \<Rightarrow> source_error src sinv e
            | Inr bs \<Rightarrow> bs = ?cut t # plan_cuts ?cut (map (\<lambda>j. ?L * j div n) [Suc i..<n]) (?cut t))"
        by (rule rmap_post [OF IH [OF s1, of "?cut t"]]) simp_all
      from step show ?thesis
      proof (elim disjE conjE exE)
        assume "?cut t = ?L" "source_partition_loop src bptr p ?L n i l buffer s = Ret (Inr [?L], s1)"
        then show ?thesis
          using s1(1) False later_targets_done [of ?L ?cut n "Suc i"] assms(1) by (simp add: upt)
      qed (use s1(1) push False in \<open>simp_all add: upt cong: sum.case_cong\<close>)
    qed
  qed
qed

text \<open>The planner: never a panic, an error of the source or of the allocation, or the plan of the slice planner.\<close>

lemma partition_ranges_spec:
  assumes "sinv s" "valid_slice p" "p \<noteq> []" "valid_slice buffer" "length p \<le> length buffer" "content \<noteq> []"
    "0 < n" "n \<le> length content"
  shows "\<exists>r s'. rmap (\<lambda>(r, s'). (map_sum id (ranges_from_boundaries (length content)) r, s'))
       (source_partition_loop src bptr p (length content) n 1 0 buffer s) = Ret (r, s') \<and> sinv s' \<and>
     (case r of Inl e \<Rightarrow> source_error src sinv e \<or> E e
      | Inr rs \<Rightarrow> rs = plan_spec (record_cut p content) (length content) n)"
  by (rule rmap_post [OF source_partition_loop_spec [OF assms(6,2,3,8) zero_less_one assms(1,4,5), of bptr 0]])
    (use assms(6,7) in \<open>simp_all add: plan_spec_def ideal_targets_def ranges_from_boundaries_def\<close>)

lemma plan_partition_boundaries_spec:
  assumes "sinv s" "valid_slice p" "p \<noteq> []"
  shows "\<exists>r s'. plan_partition_boundaries alloc bptr src n p scan s = Ret (r, s') \<and> sinv s' \<and>
     (case r of
        Inl e \<Rightarrow> source_error src sinv e \<or> max scan (length p) > isize_max \<and> err_kind e = InvalidInput \<or>
          \<not> alloc (max scan (length p)) \<and> err_kind e = OutOfMemory
      | Inr rs \<Rightarrow> rs = plan_spec (record_cut p content) (length content) (min n (length content)))"
proof (cases "bs_as_slice src s")
  case (Some pd)
  then obtain ptr where "bs_as_slice src s = Some (ptr, content)" using slice_content [OF assms(1)] by (cases pd) auto
  then show ?thesis
    using assms valid_content [OF assms(1)] by (simp add: plan_partition_boundaries_def find_partition_boundaries_pattern_spec)
next
  case None
  let ?L = "length content"
  define blen where "blen = max (max scan (slen p)) 1"
  have blen: "blen = max scan (length p)" using assms(2,3) by (cases p) (auto simp: blen_def max_def Suc_le_eq)
  consider "content = [] \<or> n = 0" | (one) "content \<noteq> []" "n = 1" | (big) "content \<noteq> []" "n > 1" "blen > isize_max"
    | (oom) "content \<noteq> []" "n > 1" "blen \<le> isize_max" "\<not> alloc blen"
    | (run) "content \<noteq> []" "n > 1" "blen \<le> isize_max" "alloc blen" by linarith
  then show ?thesis
  proof cases
    case 1
    with None assms show ?thesis
      by (auto simp: plan_partition_boundaries_def len_content [OF assms(1)] plan_spec_def Let_def)
  next
    case one
    then have "min n ?L = Suc 0" by (simp add: Suc_leI min_def)
    with None one assms show ?thesis
      by (simp add: plan_partition_boundaries_def len_content [OF assms(1)] plan_spec_one Let_def)
  next
    case big
    with None assms show ?thesis
      unfolding plan_partition_boundaries_def Let_def len_content [OF assms(1)] blen_def [symmetric]
      by (simp add: io_err_def blen)
  next
    case oom
    with None assms show ?thesis
      unfolding plan_partition_boundaries_def Let_def len_content [OF assms(1)] blen_def [symmetric]
      by (simp add: io_err_def blen)
  next
    case run
    have b: "valid_slice (replicate blen (0 :: byte))" "length p \<le> length (replicate blen (0 :: byte))"
      using run(3) blen by (simp_all add: valid_slice_def)
    define k where "k = min n ?L"
    have k: "0 < k" "k \<le> ?L" using run by (auto simp: k_def)
    note ranges = partition_ranges_spec [OF assms b run(1) k, of bptr
        "\<lambda>e. max scan (length p) > isize_max \<and> err_kind e = InvalidInput \<or>
          \<not> alloc (max scan (length p)) \<and> err_kind e = OutOfMemory"]
    from run None assms(3) ranges show ?thesis
      unfolding plan_partition_boundaries_def Let_def len_content [OF assms(1)] blen_def [symmetric] k_def [symmetric]
      by simp
  qed
qed

lemma plan_partition_boundaries_run:
  assumes "sinv s" "valid_slice p" "p \<noteq> []"
  obtains r s' where "plan_partition_boundaries alloc bptr src n p scan s = Ret (r, s')" "sinv s'"
    "\<And>rs. r = Inr rs \<Longrightarrow> rs = plan_spec (record_cut p content) (length content) (min n (length content))"
proof -
  obtain r s' where "plan_partition_boundaries alloc bptr src n p scan s = Ret (r, s')" "sinv s'"
    "case r of
       Inl e \<Rightarrow> source_error src sinv e \<or> max scan (length p) > isize_max \<and> err_kind e = InvalidInput \<or>
         \<not> alloc (max scan (length p)) \<and> err_kind e = OutOfMemory
     | Inr rs \<Rightarrow> rs = plan_spec (record_cut p content) (length content) (min n (length content))"
    using plan_partition_boundaries_spec [OF assms, of alloc bptr n scan] by blast
  then show thesis by (intro that) auto
qed

end

end
