(* ===== verification/Source_Backends.thy ===== *)
theory Source_Backends
  imports Byte_Source
begin

section \<open>The three byte-source backends\<close>

text \<open>
  \<open>MmapSource\<close>, \<open>WindowedMmapSource\<close>, \<open>PreadSource\<close>, the planner options and the entry point
  \<open>plan_partition_ranges\<close> of \<open>src/src/source.rs\<close>. Each backend is an interpretation of the
  contract \<open>byte_source\<close>. A source is dropped at the end of \<open>plan_partition_ranges\<close>, on the error
  paths too.
\<close>

subsection \<open>Full mapping\<close>

definition mmap_source_open :: "platform \<Rightarrow> os_env \<Rightarrow> path \<Rightarrow> trace \<Rightarrow> mmap_file io \<times> trace" where
  "mmap_source_open pf env path tr =
     (case mmap_open_path pf env path tr of
        (Inl e, tr1) \<Rightarrow> (Inl e, tr1)
      | (Inr f, tr1) \<Rightarrow> (Inr f, advise_sequential pf env f tr1))"

definition mmap_source_read_at ::
  "os_env \<Rightarrow> mmap_file \<Rightarrow> nat \<Rightarrow> bytes \<Rightarrow> trace \<Rightarrow> (nat io \<times> bytes \<times> trace) run" where
  "mmap_source_read_at env f offset out tr =
     (let data = mmap_as_bytes env tr f in
      if out = [] \<or> offset \<ge> slen data then Ret (Inr 0, out, tr)
      else
        let n = min (slen out) (slen data - offset) in
        rbind (slice_range data offset (offset + n)) (\<lambda>part. Ret (Inr n, part @ drop n out, tr)))"

definition mmap_source :: "os_env \<Rightarrow> mmap_file \<Rightarrow> trace byte_source_ops" where
  "mmap_source env f =
     \<lparr>bs_len = (\<lambda>tr. mmap_len f),
      bs_read_at = mmap_source_read_at env f,
      bs_as_slice = (\<lambda>tr. Some (mf_ptr f, mmap_as_bytes env tr f))\<rparr>"

subsection \<open>Windowed mapping\<close>

definition windowed_source :: "os_env \<Rightarrow> (windowed_file \<times> trace) byte_source_ops" where
  "windowed_source env =
     \<lparr>bs_len = (\<lambda>(w, tr). windowed_len w),
      bs_read_at = (\<lambda>offset out (w, tr).
        rmap (\<lambda>(r, out', w', tr'). (r, out', (w', tr'))) (windowed_read_at env w offset out tr)),
      bs_as_slice = (\<lambda>_. None)\<rparr>"

subsection \<open>Positional reads\<close>

record pread_file =
  ps_file :: int
  ps_len :: nat

definition WINDOWS_FILE_SHARE_READ :: nat where "WINDOWS_FILE_SHARE_READ = 0x00000001"

text \<open>
  \<open>std::fs::File\<close>: opening for reading refuses a path with a zero character; on Windows other
  processes may meanwhile only read. Dropping closes.
\<close>

definition std_open :: "platform \<Rightarrow> os_env \<Rightarrow> path \<Rightarrow> trace \<Rightarrow> int io \<times> trace" where
  "std_open pf env path tr =
     (if CHR 0x00 \<in> set path then (Inl (io_err InvalidInput ''file name contained an unexpected NUL byte''), tr)
      else
        let (r, tr1) = sys_call env (StdOpen path (if pf = Windows then Some WINDOWS_FILE_SHARE_READ else None)) tr in
        if fst r < 0 then (Inl (env_errno env tr1), tr1)
        else (Inr (fst r), tr1))"

definition std_close :: "platform \<Rightarrow> os_env \<Rightarrow> int \<Rightarrow> trace \<Rightarrow> trace" where
  "std_close pf env h tr = sys_do env (if pf = Unix then SysClose h else CloseHandle h) tr"

definition pread_open_path :: "platform \<Rightarrow> os_env \<Rightarrow> path \<Rightarrow> trace \<Rightarrow> pread_file io \<times> trace" where
  "pread_open_path pf env path tr =
     (case probe_mmap_eligible pf env path tr of
        (Inl e, tr1) \<Rightarrow> (Inl e, tr1)
      | (Inr _, tr1) \<Rightarrow>
          (case std_open pf env path tr1 of
             (Inl e, tr2) \<Rightarrow> (Inl e, tr2)
           | (Inr h, tr2) \<Rightarrow>
               let meta = env_fstat env tr2 h; tr3 = sys_do env (SysFstat h) tr2 in
               (case meta of
                  Inl e \<Rightarrow> (Inl e, std_close pf env h tr3)
                | Inr m \<Rightarrow>
                    if meta_len m > usize_max then (Inl size_misfit, std_close pf env h tr3)
                    else (Inr \<lparr>ps_file = h, ps_len = meta_len m\<rparr>, tr3))))"

definition read_exact_at :: "os_env \<Rightarrow> int \<Rightarrow> bytes \<Rightarrow> nat \<Rightarrow> trace \<Rightarrow> nat io \<times> bytes \<times> trace" where
  "read_exact_at env h out offset tr =
     (let tr1 = sys_do env (SysPread h offset (length out)) tr in
      case env_pread env tr h offset (length out) of
        Inl e \<Rightarrow> (Inl e, out, tr1)
      | Inr bs \<Rightarrow> (Inr (min (length bs) (length out)), take (length out) bs @ drop (length bs) out, tr1))"

function pread_loop :: "os_env \<Rightarrow> int \<Rightarrow> nat \<Rightarrow> nat \<Rightarrow> nat \<Rightarrow> bytes \<Rightarrow> trace \<Rightarrow> nat io \<times> bytes \<times> trace" where
  "pread_loop env h offset n got out tr =
     (if got < n then
        (case read_exact_at env h (take (n - got) (drop got out)) (offset + got) tr of
           (r, part, tr1) \<Rightarrow>
             let out' = take got out @ part @ drop n out in
             (case r of
                Inl e \<Rightarrow> (Inl e, out', tr1)
              | Inr read \<Rightarrow>
                  if read = 0 then (Inr got, out', tr1)
                  else pread_loop env h offset n (got + read) out' tr1))
      else (Inr got, out, tr))"
  by pat_completeness auto
termination
  by (relation "measure (\<lambda>(env, h, offset, n, got, out, tr). n - got)") auto

declare pread_loop.simps [simp del]

definition pread_read_at :: "os_env \<Rightarrow> pread_file \<Rightarrow> nat \<Rightarrow> bytes \<Rightarrow> trace \<Rightarrow> nat io \<times> bytes \<times> trace" where
  "pread_read_at env f offset out tr =
     (if out = [] \<or> offset \<ge> ps_len f then (Inr 0, out, tr)
      else
        let n = min (slen out) (ps_len f - offset)
        in pread_loop env (ps_file f) offset n 0 out tr)"

definition pread_source :: "os_env \<Rightarrow> pread_file \<Rightarrow> trace byte_source_ops" where
  "pread_source env f =
     \<lparr>bs_len = (\<lambda>tr. ps_len f),
      bs_read_at = (\<lambda>offset out tr. Ret (pread_read_at env f offset out tr)),
      bs_as_slice = (\<lambda>tr. None)\<rparr>"

subsection \<open>The short-reading source of the tests\<close>

record dribble =
  dr_data :: bytes
  dr_max_read :: nat

definition dribble_read_at :: "dribble \<Rightarrow> nat \<Rightarrow> bytes \<Rightarrow> unit \<Rightarrow> (nat io \<times> bytes \<times> unit) run" where
  "dribble_read_at d offset out s =
     (if offset \<ge> slen (dr_data d) \<or> out = [] then Ret (Inr 0, out, s)
      else
        let n = min (min (slen out) (dr_max_read d)) (slen (dr_data d) - offset) in
        rbind (slice_range (dr_data d) offset (offset + n)) (\<lambda>part. Ret (Inr n, part @ drop n out, s)))"

definition dribble_source :: "dribble \<Rightarrow> unit byte_source_ops" where
  "dribble_source d =
     \<lparr>bs_len = (\<lambda>s. slen (dr_data d)), bs_read_at = dribble_read_at d, bs_as_slice = (\<lambda>s. None)\<rparr>"

text \<open>The assertions of \<open>assert_sources_match\<close>; true when none fails. The \<open>unwrap\<close> panics on an error.\<close>

definition assert_sources_match :: "(nat \<Rightarrow> bool) \<Rightarrow> nat \<Rightarrow> nat \<Rightarrow> bytes \<Rightarrow> nat \<Rightarrow> bytes \<Rightarrow> bool" where
  "assert_sources_match alloc bptr ptr content parts delimiter =
     (case (find_partition_boundaries_pattern ptr content parts delimiter,
            plan_partition_boundaries alloc bptr (dribble_source \<lparr>dr_data = content, dr_max_read = usize_max\<rparr>) parts delimiter 16 ()) of
        (Ret expected, Ret (Inr actual, _)) \<Rightarrow>
          actual = expected \<and> length actual \<le> max parts 1 \<and>
          partition_inv_loop content delimiter 0 actual = Some (slen content)
      | _ \<Rightarrow> False)"

subsection \<open>Planner options and the entry point\<close>

datatype source_mode = Mmap | Windowed | Pread

fun source_mode_str :: "source_mode \<Rightarrow> string" where
  "source_mode_str Mmap = ''mmap''"
| "source_mode_str Windowed = ''windowed''"
| "source_mode_str Pread = ''pread''"

record planner_options =
  po_mode :: source_mode
  po_window_bytes :: nat
  po_scan_buffer_bytes :: nat

definition planner_default :: planner_options where
  "planner_default =
     \<lparr>po_mode = Mmap, po_window_bytes = DEFAULT_WINDOW_BYTES, po_scan_buffer_bytes = DEFAULT_SCAN_BUFFER_BYTES\<rparr>"

definition planner_new :: "source_mode \<Rightarrow> planner_options" where
  "planner_new mode = planner_default\<lparr>po_mode := mode\<rparr>"

definition with_window_bytes :: "planner_options \<Rightarrow> nat \<Rightarrow> planner_options" where
  "with_window_bytes opts n = opts\<lparr>po_window_bytes := n\<rparr>"

definition with_scan_buffer_bytes :: "planner_options \<Rightarrow> nat \<Rightarrow> planner_options" where
  "with_scan_buffer_bytes opts n = opts\<lparr>po_scan_buffer_bytes := n\<rparr>"

definition plan_partition_ranges ::
  "platform \<Rightarrow> os_env \<Rightarrow> (nat \<Rightarrow> bool) \<Rightarrow> nat \<Rightarrow> path \<Rightarrow> nat \<Rightarrow> bytes \<Rightarrow> planner_options \<Rightarrow> trace \<Rightarrow> (brange list io \<times> trace) run" where
  "plan_partition_ranges pf env alloc bptr path num_partitions delimiter opts tr =
     (if delimiter = [] then Panic empty_delimiter_msg
      else if num_partitions = 0 then Ret (Inr [], tr)
      else
        let buffer = max (po_scan_buffer_bytes opts) 1 in
        case po_mode opts of
          Mmap \<Rightarrow>
            (case mmap_source_open pf env path tr of
               (Inl e, tr1) \<Rightarrow> Ret (Inl e, tr1)
             | (Inr f, tr1) \<Rightarrow>
                 rmap (\<lambda>(r, tr2). (r, mmap_drop env f tr2))
                   (plan_partition_boundaries alloc bptr (mmap_source env f) num_partitions delimiter buffer tr1))
        | Windowed \<Rightarrow>
            (case windowed_open_path pf env path (po_window_bytes opts) tr of
               (Inl e, tr1) \<Rightarrow> Ret (Inl e, tr1)
             | (Inr w, tr1) \<Rightarrow>
                 rmap (\<lambda>(r, (w', tr2)). (r, windowed_drop env w' tr2))
                   (plan_partition_boundaries alloc bptr (windowed_source env) num_partitions delimiter buffer (w, tr1)))
        | Pread \<Rightarrow>
            (case pread_open_path pf env path tr of
               (Inl e, tr1) \<Rightarrow> Ret (Inl e, tr1)
             | (Inr f, tr1) \<Rightarrow>
                 rmap (\<lambda>(r, tr2). (r, std_close pf env (ps_file f) tr2))
                   (plan_partition_boundaries alloc bptr (pread_source env f) num_partitions delimiter buffer tr1)))"

subsection \<open>The backends satisfy the contract\<close>

text \<open>
  The states in which each backend serves reads: it shows the bytes of the file, and holds exactly
  its own resources on top of \<open>R\<close> (those of the process before, starting from \<open>R0\<close>).
\<close>

definition mmap_source_inv :: "os_env \<Rightarrow> resources \<Rightarrow> resources \<Rightarrow> mmap_file \<Rightarrow> bytes \<Rightarrow> trace \<Rightarrow> bool" where
  "mmap_source_inv env R0 R f content tr \<longleftrightarrow>
     valid_slice content \<and> mf_size f = length content \<and> mmap_as_bytes env tr f = content \<and>
     run_res tr R0 = Some (file_res f R)"

interpretation mmap_src: byte_source "mmap_source env f" content "mmap_source_inv env R0 R f content"
  for env R0 R f content
proof
  fix s out off
  assume s: "mmap_source_inv env R0 R f content s" and out: "valid_slice (out :: bytes)"
  then have c: "valid_slice content" "mmap_as_bytes env s f = content" by (auto simp: mmap_source_inv_def)
  have eq: "bs_read_at (mmap_source env f) off out s =
      Ret (Inr (min (length out) (length content - off)),
           take (min (length out) (length content - off)) (drop off content) @ drop (min (length out) (length content - off)) out, s)"
  proof (cases "out = [] \<or> length content \<le> off")
    case False
    then have "off + min (length out) (length content - off) \<le> length content" by auto
    with False c out show ?thesis by (simp add: mmap_source_def mmap_source_read_at_def Let_def slice_range_def)
  qed (use c out in \<open>auto simp: mmap_source_def mmap_source_read_at_def Let_def\<close>)
  show "\<exists>r out' s'. bs_read_at (mmap_source env f) off out s = Ret (r, out', s') \<and> mmap_source_inv env R0 R f content s' \<and> length out' = length out"
    using s unfolding eq by auto
  fix n out' s'
  assume "bs_read_at (mmap_source env f) off out s = Ret (Inr n, out', s')"
  then show "n \<le> length out \<and> n \<le> length content - off \<and> take n out' = take n (drop off content) \<and>
      (n = 0 \<longrightarrow> out = [] \<or> length content \<le> off)"
    unfolding eq by (auto simp: min_def split: if_splits)
qed (auto simp: mmap_source_inv_def mmap_source_def mmap_len_def)

definition windowed_source_inv ::
  "os_env \<Rightarrow> resources \<Rightarrow> resources \<Rightarrow> (path \<Rightarrow> bytes) \<Rightarrow> path \<Rightarrow> windowed_file \<times> trace \<Rightarrow> bool" where
  "windowed_source_inv env R0 R files path s \<longleftrightarrow>
     os_contract env files \<and> windowed_inv env files path (fst s) (snd s) \<and>
     run_res (snd s) R0 = Some (windowed_res (fst s) R)"

interpretation windowed_src: byte_source "windowed_source env" "files path" "windowed_source_inv env R0 R files path"
  for env R0 R files path
proof
  fix s out off
  assume s: "windowed_source_inv env R0 R files path s" and out: "valid_slice (out :: bytes)"
  obtain w tr where st: "s = (w, tr)" by force
  then have c: "os_contract env files" "windowed_inv env files path w tr" and R: "run_res tr R0 = Some (windowed_res w R)"
    using s by (simp_all add: windowed_source_inv_def)
  obtain r out' w' tr' where step: "windowed_read_at env w off out tr = Ret (r, out', w', tr')" "windowed_inv env files path w' tr'"
    "case r of Inl e \<Rightarrow> out' = out \<and> w' = w
     | Inr n \<Rightarrow> n = min (length out) (length (files path) - off) \<and> out' = take n (drop off (files path)) @ drop n out"
    using windowed_read_step [OF c out, of off] by blast
  then have eq: "bs_read_at (windowed_source env) off out s = Ret (r, out', (w', tr'))"
    by (simp add: windowed_source_def st)
  show "\<exists>r out' s'. bs_read_at (windowed_source env) off out s = Ret (r, out', s') \<and> windowed_source_inv env R0 R files path s' \<and> length out' = length out"
    using c(1) step windowed_read_res [OF c out step(1) R] unfolding eq by (cases r) (auto simp: windowed_source_inv_def)
  fix n out'' s''
  assume "bs_read_at (windowed_source env) off out s = Ret (Inr n, out'', s'')"
  then show "n \<le> length out \<and> n \<le> length (files path) - off \<and> take n out'' = take n (drop off (files path)) \<and>
      (n = 0 \<longrightarrow> out = [] \<or> length (files path) \<le> off)"
    using step(3) unfolding eq by (auto simp: min_def split: if_splits)
next
  fix s
  assume "windowed_source_inv env R0 R files path s"
  then show "valid_slice (files path)" "bs_len (windowed_source env) s = length (files path)"
    by (auto simp: windowed_source_inv_def windowed_source_def windowed_inv_def windowed_len_def valid_slice_def split: prod.split)
qed (simp add: windowed_source_def)


lemma read_exact_at_contract:
  assumes "os_contract env files" "env_trace env tr" "handle_path tr h = Some path"
    "read_exact_at env h out offset tr = (r, out', tr')"
  shows "env_trace env tr' \<and> handle_path tr' = handle_path tr \<and> length out' = length out \<and>
     run_res tr' R0 = Option.bind (run_res tr R0) (res_event (SysPread h offset (length out), env_sys env tr (SysPread h offset (length out)))) \<and>
     (\<forall>k. r = Inr k \<longrightarrow> k \<le> length out \<and> k \<le> length (files path) - offset \<and> take k out' = take k (drop offset (files path)) \<and>
        (k = 0 \<longrightarrow> out = [] \<or> length (files path) \<le> offset))"
proof (cases "env_pread env tr h offset (length out)")
  case (Inl e)
  with assms show ?thesis by (auto simp: read_exact_at_def)
next
  case (Inr bs)
  have bs: "length bs \<le> length out" "bs = take (length bs) (drop offset (files path))"
    "bs = [] \<longrightarrow> length out = 0 \<or> length (files path) \<le> offset"
    using os_contractD(6) [OF assms(1,2)] assms(3) Inr unfolding pread_ok_def by blast+
  have "length bs \<le> length (files path) - offset" using bs(2) by (metis length_drop length_take min.cobounded1)
  with bs Inr assms(2,4) show ?thesis by (auto simp: read_exact_at_def)
qed

definition pread_inv ::
  "os_env \<Rightarrow> resources \<Rightarrow> resources \<Rightarrow> (path \<Rightarrow> bytes) \<Rightarrow> path \<Rightarrow> int \<Rightarrow> trace \<Rightarrow> bool" where
  "pread_inv env R0 R files path h tr \<longleftrightarrow>
     os_contract env files \<and> env_trace env tr \<and> handle_path tr h = Some path \<and> run_res tr R0 = Some (res_open h R)"

lemma pread_loop_spec:
  assumes "pread_inv env R0 R files path h tr" "got \<le> n" "n \<le> length out" "offset + n \<le> length (files path)"
    "take got out = take got (drop offset (files path))" "pread_loop env h offset n got out tr = (r, out', tr')"
  shows "pread_inv env R0 R files path h tr' \<and> length out' = length out \<and>
     (\<forall>k. r = Inr k \<longrightarrow> k = n \<and> take n out' = take n (drop offset (files path)))"
  using assms
proof (induction "n - got" arbitrary: got out tr rule: less_induct)
  case less
  note unfold = pread_loop.simps [of env h offset n got out tr]
  show ?case
  proof (cases "got < n")
    case False
    then have "pread_loop env h offset n got out tr = (Inr got, out, tr)" by (subst unfold) simp
    with False less.prems show ?thesis by auto
  next
    case True
    define part where "part = take (n - got) (drop got out)"
    obtain r1 part' tr1 where rd: "read_exact_at env h part (offset + got) tr = (r1, part', tr1)" by (metis prod_cases3)
    have c: "os_contract env files" "env_trace env tr" "handle_path tr h = Some path"
      using less.prems(1) by (simp_all add: pread_inv_def)
    note step = read_exact_at_contract [OF c rd, of R0]
    have lp: "length part = n - got" using less.prems(3) by (simp add: part_def)
    define out1 where "out1 = take got out @ part' @ drop n out"
    have l1: "length out1 = length out" using True less.prems(3) step lp by (simp add: out1_def)
    have inv1: "pread_inv env R0 R files path h tr1"
      using step c less.prems(1) by (auto simp: pread_inv_def res_defs)
    have eq: "pread_loop env h offset n got out tr =
        (case r1 of Inl e \<Rightarrow> (Inl e, out1, tr1)
         | Inr read \<Rightarrow> if read = 0 then (Inr got, out1, tr1) else pread_loop env h offset n (got + read) out1 tr1)"
      using True rd unfolding unfold part_def out1_def by (simp add: Let_def split: sum.split)
    show ?thesis
    proof (cases r1)
      case (Inl e)
      with eq less.prems(6) inv1 l1 show ?thesis by auto
    next
      case (Inr k)
      have k: "k \<le> n - got" "0 < k" "take k part' = take k (drop (offset + got) (files path))"
        using step Inr lp True less.prems(4) by auto
      have "take (got + k) out1 = take got out @ take k part'"
        using k True less.prems(3) step lp by (simp add: out1_def)
      then have "take (got + k) out1 = take (got + k) (drop offset (files path))"
        using k less.prems(5) by (simp add: take_add add.commute)
      moreover have "pread_loop env h offset n (got + k) out1 tr1 = (r, out', tr')" using eq Inr k less.prems(6) by simp
      ultimately show ?thesis
        using less.hyps [of "got + k" tr1 out1] inv1 k l1 less.prems(3,4) True by simp
    qed
  qed
qed

definition pread_source_inv ::
  "os_env \<Rightarrow> resources \<Rightarrow> resources \<Rightarrow> (path \<Rightarrow> bytes) \<Rightarrow> path \<Rightarrow> pread_file \<Rightarrow> trace \<Rightarrow> bool" where
  "pread_source_inv env R0 R files path f tr \<longleftrightarrow>
     pread_inv env R0 R files path (ps_file f) tr \<and> valid_slice (files path) \<and> ps_len f = length (files path)"

interpretation pread_src: byte_source "pread_source env f" "files path" "pread_source_inv env R0 R files path f"
  for env R0 R files path f
proof
  fix s out off
  assume s: "pread_source_inv env R0 R files path f s" and out: "valid_slice (out :: bytes)"
  obtain r out' s' where rd: "pread_read_at env f off out s = (r, out', s')" by (metis prod_cases3)
  have *: "pread_source_inv env R0 R files path f s' \<and> length out' = length out \<and>
      (\<forall>n. r = Inr n \<longrightarrow> n = min (length out) (length (files path) - off) \<and> take n out' = take n (drop off (files path)))"
  proof (cases "out = [] \<or> length (files path) \<le> off")
    case True
    with rd s show ?thesis by (auto simp: pread_read_at_def pread_source_inv_def)
  next
    case False
    let ?n = "min (length out) (length (files path) - off)"
    have "pread_loop env (ps_file f) off ?n 0 out s = (r, out', s')"
      using False rd s out by (simp add: pread_read_at_def pread_source_inv_def Let_def)
    from pread_loop_spec [OF _ _ _ _ _ this, of R0 R files path] False s show ?thesis by (auto simp: pread_source_inv_def)
  qed
  have eq: "bs_read_at (pread_source env f) off out s = Ret (r, out', s')" by (simp add: pread_source_def rd)
  show "\<exists>r out' s'. bs_read_at (pread_source env f) off out s = Ret (r, out', s') \<and> pread_source_inv env R0 R files path f s' \<and> length out' = length out"
    using * unfolding eq by blast
  fix n out'' s''
  assume "bs_read_at (pread_source env f) off out s = Ret (Inr n, out'', s'')"
  then show "n \<le> length out \<and> n \<le> length (files path) - off \<and> take n out'' = take n (drop off (files path)) \<and>
      (n = 0 \<longrightarrow> out = [] \<or> length (files path) \<le> off)"
    using * unfolding eq by (auto simp: min_def split: if_splits)
qed (auto simp: pread_source_inv_def pread_source_def)


subsection \<open>Opening a source\<close>

lemma mmap_source_open_res:
  assumes "os_contract env files" "env_trace env tr" "mmap_source_open pf env path tr = (r, tr')" "run_res tr R0 = Some R"
  shows "run_res tr' R0 = Some (case r of Inl e \<Rightarrow> R | Inr f \<Rightarrow> file_res f R)"
proof -
  obtain r1 t1 where o: "mmap_open_path pf env path tr = (r1, t1)" by force
  note res = mmap_open_path_res [OF o assms(4)]
  show ?thesis
  proof (cases r1)
    case (Inl e)
    with o assms(3) res show ?thesis by (auto simp: mmap_source_open_def)
  next
    case (Inr f)
    note c = mmap_open_path_content [OF assms(1,2) o [unfolded Inr]]
    have "run_res (advise_sequential pf env f t1) R0 = Some (file_res f R)"
      using res Inr c by (intro advise_res) auto
    with o Inr assms(3) show ?thesis by (auto simp: mmap_source_open_def)
  qed
qed

lemma mmap_source_opened:
  assumes "os_contract env files" "env_trace env tr" "mmap_source_open pf env path tr = (Inr f, tr')"
    "run_res tr R0 = Some R"
  shows "mmap_source_inv env R0 R f (files path) tr' \<and> file_shape f"
proof -
  obtain t1 where o: "mmap_open_path pf env path tr = (Inr f, t1)" "tr' = advise_sequential pf env f t1"
    using assms(3) by (auto simp: mmap_source_open_def split: prod.splits sum.splits)
  note c = mmap_open_path_content [OF assms(1,2) o(1)]
  have t1: "env_trace env t1"
    using mmap_open_path_env_trace [OF o(1)] assms(2) by simp
  obtain later where later: "tr' = t1 @ later" "\<forall>e\<in>set later. \<not> unmaps (mf_ptr f) e" "env_trace env tr'"
    using o(2) t1 by (auto simp: advise_sequential_def sys_do_def split: if_splits)
  moreover have "run_res tr' R0 = Some (file_res f R)" using mmap_source_open_res [OF assms] by simp
  ultimately show ?thesis using c by (auto simp: maps_path_def mmap_source_inv_def)
qed

lemma std_open_spec:
  assumes "os_contract env files" "env_trace env tr" "std_open pf env path tr = (r, tr')" "run_res tr R0 = Some R"
  shows "env_trace env tr' \<and> run_res tr' R0 = Some (case r of Inl e \<Rightarrow> R | Inr h \<Rightarrow> res_open h R) \<and>
     (\<forall>h. r = Inr h \<longrightarrow> handle_path tr' h = Some path)"
  using assms(2-4)
  by (auto simp: std_open_def WINDOWS_FILE_SHARE_READ_def FILE_SHARE_READ_def Let_def sys_call_def split: if_splits)

lemma std_close_res: "run_res tr R0 = Some (res_open h R) \<Longrightarrow> run_res (std_close pf env h tr) R0 = Some R"
  by (simp add: std_close_def res_defs)

lemma std_close_trace [simp]: "env_trace env (std_close pf env h tr) \<longleftrightarrow> env_trace env tr"
  by (simp add: std_close_def)

lemma pread_open_spec:
  assumes "os_contract env files" "env_trace env tr" "pread_open_path pf env path tr = (r, tr')" "run_res tr R0 = Some R"
  shows "(\<forall>e. r = Inl e \<longrightarrow> run_res tr' R0 = Some R) \<and>
     (\<forall>f. r = Inr f \<longrightarrow> pread_source_inv env R0 R files path f tr')"
proof -
  obtain v t1 where p: "probe_mmap_eligible pf env path tr = (v, t1)" by force
  have t1: "env_trace env t1" "run_res t1 R0 = Some R"
    using probe_env_trace [OF p] probe_res [OF p assms(4)] assms(2) by simp_all
  obtain ro t2 where o: "std_open pf env path t1 = (ro, t2)" by force
  note so = std_open_spec [OF assms(1) t1(1) o t1(2)]
  show ?thesis
  proof (cases v)
    case (Inl e)
    with p assms(3) t1 show ?thesis by (auto simp: pread_open_path_def)
  next
    case (Inr u)
    show ?thesis
    proof (cases ro)
      case Inl
      with p \<open>v = Inr u\<close> o so assms(3) show ?thesis by (auto simp: pread_open_path_def)
    next
      case (Inr h)
      have hp: "handle_path t2 h = Some path" "env_trace env t2" using so Inr by simp_all
      have len: "meta_len m = length (files path)" if "env_fstat env t2 h = Inr m" for m
        using os_contractD(6) [OF assms(1) hp(2)] hp(1) that by (auto simp: pread_ok_def)
      have v: "valid_slice (files path)"
        using os_contractD(1) [OF assms(1) hp(2)] hp(1) by (auto simp: sizes_ok_def valid_slice_def)
      have fs: "run_res (sys_do env (SysFstat h) t2) R0 = Some (res_open h R)"
        using so Inr by (simp add: res_defs)
      show ?thesis
        using assms(1,3) p \<open>v = Inr u\<close> o Inr hp len v fs std_close_res [OF fs, of pf env]
        by (auto simp: pread_open_path_def Let_def pread_source_inv_def pread_inv_def split: sum.splits if_splits)
    qed
  qed
qed


subsection \<open>The planner over a path\<close>

text \<open>
  What an attempt to plan ends with: an error, or the slice plan of the file's bytes; the
  resources of the process are as before.
\<close>

text \<open>The entry point, backend by backend: the plan of the slice planner or an error, and everything is released.\<close>

definition plan_or_error :: "bytes \<Rightarrow> bytes \<Rightarrow> nat \<Rightarrow> resources \<Rightarrow> resources \<Rightarrow> (brange list io \<times> trace) run \<Rightarrow> bool" where
  "plan_or_error p content n R0 R m \<longleftrightarrow>
     (\<exists>r tr'. m = Ret (r, tr') \<and> run_res tr' R0 = Some R \<and>
        (\<forall>rs. r = Inr rs \<longrightarrow> rs = plan_spec (record_cut p content) (length content) (min n (length content))))"

lemma plan_mmap_spec:
  assumes c: "os_contract env files" "env_trace env tr" and R: "run_res tr R0 = Some R" and p: "valid_slice p" "p \<noteq> []"
    and mode: "n \<noteq> 0" "po_mode opts = Mmap"
  shows "plan_or_error p (files path) n R0 R (plan_partition_ranges pf env alloc bptr path n p opts tr)"
proof -
  obtain r1 t1 where o: "mmap_source_open pf env path tr = (r1, t1)" by force
  show ?thesis
  proof (cases r1)
    case (Inl e)
    with o mode p(2) mmap_source_open_res [OF c o R] show ?thesis
      by (simp add: plan_partition_ranges_def plan_or_error_def)
  next
    case (Inr f)
    note op = mmap_source_opened [OF c o [unfolded Inr] R]
    from mmap_src.plan_partition_boundaries_run [OF conjunct1 [OF op] p, of alloc bptr n "max (po_scan_buffer_bytes opts) 1"]
    obtain r s' where "plan_partition_boundaries alloc bptr (mmap_source env f) n p (max (po_scan_buffer_bytes opts) 1) t1 = Ret (r, s')"
      "mmap_source_inv env R0 R f (files path) s'"
      "\<And>rs. r = Inr rs \<Longrightarrow> rs = plan_spec (record_cut p (files path)) (length (files path)) (min n (length (files path)))"
      by (metis surj_pair)
    with o Inr mode p(2) op drop_res show ?thesis
      by (simp add: plan_partition_ranges_def plan_or_error_def mmap_source_inv_def)
  qed
qed

lemma plan_windowed_spec:
  assumes c: "os_contract env files" "env_trace env tr" and R: "run_res tr R0 = Some R" and p: "valid_slice p" "p \<noteq> []"
    and mode: "n \<noteq> 0" "po_mode opts = Windowed"
  shows "plan_or_error p (files path) n R0 R (plan_partition_ranges pf env alloc bptr path n p opts tr)"
proof -
  obtain r1 t1 where o: "windowed_open_path pf env path (po_window_bytes opts) tr = (r1, t1)" by force
  note ores = windowed_open_res [OF o R]
  show ?thesis
  proof (cases r1)
    case (Inl e)
    with o mode p(2) ores show ?thesis by (simp add: plan_partition_ranges_def plan_or_error_def)
  next
    case (Inr w)
    have "windowed_source_inv env R0 R files path (w, t1)"
      using windowed_open_inv [OF c o [unfolded Inr]] c ores Inr by (simp add: windowed_source_inv_def)
    from windowed_src.plan_partition_boundaries_run [OF this p, of alloc bptr n "max (po_scan_buffer_bytes opts) 1"]
    obtain r w' tr' where
      "plan_partition_boundaries alloc bptr (windowed_source env) n p (max (po_scan_buffer_bytes opts) 1) (w, t1) = Ret (r, (w', tr'))"
      "windowed_source_inv env R0 R files path (w', tr')"
      "\<And>rs. r = Inr rs \<Longrightarrow> rs = plan_spec (record_cut p (files path)) (length (files path)) (min n (length (files path)))"
      by (metis surj_pair)
    with o Inr mode p(2) windowed_drop_res show ?thesis
      by (auto simp: plan_partition_ranges_def plan_or_error_def windowed_source_inv_def windowed_inv_def)
  qed
qed

lemma plan_pread_spec:
  assumes c: "os_contract env files" "env_trace env tr" and R: "run_res tr R0 = Some R" and p: "valid_slice p" "p \<noteq> []"
    and mode: "n \<noteq> 0" "po_mode opts = Pread"
  shows "plan_or_error p (files path) n R0 R (plan_partition_ranges pf env alloc bptr path n p opts tr)"
proof -
  obtain r1 t1 where o: "pread_open_path pf env path tr = (r1, t1)" by force
  note op = pread_open_spec [OF c o R]
  show ?thesis
  proof (cases r1)
    case (Inl e)
    with o mode p(2) op show ?thesis by (simp add: plan_partition_ranges_def plan_or_error_def)
  next
    case (Inr f)
    then have "pread_source_inv env R0 R files path f t1" using op by simp
    from pread_src.plan_partition_boundaries_run [OF this p, of alloc bptr n "max (po_scan_buffer_bytes opts) 1"]
    obtain r s' where "plan_partition_boundaries alloc bptr (pread_source env f) n p (max (po_scan_buffer_bytes opts) 1) t1 = Ret (r, s')"
      "pread_source_inv env R0 R files path f s'"
      "\<And>rs. r = Inr rs \<Longrightarrow> rs = plan_spec (record_cut p (files path)) (length (files path)) (min n (length (files path)))"
      by (metis surj_pair)
    with o Inr mode p(2) std_close_res show ?thesis
      by (auto simp: plan_partition_ranges_def plan_or_error_def pread_source_inv_def pread_inv_def)
  qed
qed

lemma plan_partition_ranges_spec:
  assumes c: "os_contract env files" "env_trace env tr" and R: "run_res tr R0 = Some R" and p: "valid_slice p" "p \<noteq> []"
  shows "\<exists>r tr'. plan_partition_ranges pf env alloc bptr path n p opts tr = Ret (r, tr') \<and> run_res tr' R0 = Some R \<and>
     (\<forall>rs. r = Inr rs \<longrightarrow> rs = plan_spec (record_cut p (files path)) (length (files path)) (min n (length (files path))))"
proof (cases "n = 0")
  case True
  then show ?thesis using p(2) R by (simp add: plan_partition_ranges_def plan_spec_def)
next
  case False
  note specs = plan_mmap_spec [OF assms False] plan_windowed_spec [OF assms False] plan_pread_spec [OF assms False]
  have "plan_or_error p (files path) n R0 R (plan_partition_ranges pf env alloc bptr path n p opts tr)"
    by (cases "po_mode opts") (rule specs, assumption)+
  then show ?thesis unfolding plan_or_error_def .
qed


subsection \<open>Claims\<close>

definition dribble_inv :: "dribble \<Rightarrow> unit \<Rightarrow> bool" where
  "dribble_inv d s \<longleftrightarrow> valid_slice (dr_data d) \<and> 0 < dr_max_read d"

interpretation dribble_src: byte_source "dribble_source d" "dr_data d" "dribble_inv d"
  for d
proof
  fix s out off
  assume s: "dribble_inv d s" and out: "valid_slice (out :: bytes)"
  let ?n = "if off \<ge> length (dr_data d) \<or> out = [] then 0 else min (min (length out) (dr_max_read d)) (length (dr_data d) - off)"
  have n: "?n \<le> length out" "?n \<le> length (dr_data d) - off" by auto
  have eq: "bs_read_at (dribble_source d) off out s = Ret (Inr ?n, take ?n (drop off (dr_data d)) @ drop ?n out, s)"
  proof (cases "off \<ge> length (dr_data d) \<or> out = []")
    case False
    then have "off + ?n \<le> length (dr_data d)" by auto
    with False s out show ?thesis
      by (simp add: dribble_source_def dribble_read_at_def dribble_inv_def Let_def slice_range_def)
  qed (use s in \<open>auto simp: dribble_source_def dribble_read_at_def dribble_inv_def\<close>)
  show "\<exists>r out' s'. bs_read_at (dribble_source d) off out s = Ret (r, out', s') \<and> dribble_inv d s' \<and> length out' = length out"
    using s n unfolding eq by auto
  fix n out' s'
  assume "bs_read_at (dribble_source d) off out s = Ret (Inr n, out', s')"
  then show "n \<le> length out \<and> n \<le> length (dr_data d) - off \<and> take n out' = take n (drop off (dr_data d)) \<and>
      (n = 0 \<longrightarrow> out = [] \<or> length (dr_data d) \<le> off)"
    using s n unfolding eq by (auto simp: dribble_inv_def min_def split: if_splits)
qed (auto simp: dribble_inv_def dribble_source_def)

lemma dribble_no_error: "\<not> source_error (dribble_source d) (dribble_inv d) e"
  by (auto simp: source_error_def dribble_source_def dribble_read_at_def dribble_inv_def Let_def slice_range_def
      rbind_Ret_iff split: if_splits)

text \<open>
  Claim C2: whatever backend, window, buffer size and platform are chosen, planning a path ends
  without a panic, with an error or with exactly the ranges the slice planner computes from the
  bytes of the file; and in every case all handles and mappings taken meanwhile are released.
\<close>

theorem source_plan_parity:
  assumes "os_contract env files" "env_trace env tr" "run_res tr R0 = Some R" "valid_slice delimiter" "delimiter \<noteq> []"
  shows "\<exists>r tr'. plan_partition_ranges pf env alloc bptr path num_partitions delimiter opts tr = Ret (r, tr') \<and>
     run_res tr' R0 = Some R \<and>
     (\<forall>rs ptr. r = Inr rs \<and> valid_slice (files path) \<longrightarrow>
        find_partition_boundaries_pattern ptr (files path) num_partitions delimiter = Ret rs)"
  using plan_partition_ranges_spec [OF assms, of pf alloc bptr path num_partitions opts] assms(4,5)
  by (auto simp: find_partition_boundaries_pattern_spec)

theorem source_plan_parity_witness:
  "\<exists>tr'. plan_partition_ranges Unix (sim_env (\<lambda>_. [97, 10, 98, 10])) (\<lambda>_. True) 0 ''f'' 1 [10] (planner_new Pread) [] =
       Ret (Inr [(0, 4)], tr') \<and>
     run_res tr' \<lparr>res_handles = [], res_maps = []\<rparr> = Some \<lparr>res_handles = [], res_maps = []\<rparr>"
proof -
  let ?files = "\<lambda>_ :: path. [97, 10, 98, 10] :: byte list" and ?R = "\<lparr>res_handles = [], res_maps = []\<rparr>"
  have c: "os_contract (sim_env ?files) ?files" by (rule sim_contract) (simp add: sim_unit_def)
  have v: "valid_slice [10 :: byte]" "[10 :: byte] \<noteq> []" by (simp_all add: valid_slice_def max_consts)
  have R: "run_res [] ?R = Some ?R" by simp
  from source_plan_parity [OF c env_trace_Nil R v, of Unix "\<lambda>_. True" 0 "''f''" 1 "planner_new Pread"]
  obtain r tr' where run: "plan_partition_ranges Unix (sim_env ?files) (\<lambda>_. True) 0 ''f'' 1 [10] (planner_new Pread) [] = Ret (r, tr')"
    and res: "run_res tr' ?R = Some ?R" by blast
  have "r = Inr [(0, 4)]"
    using run by (auto simp: plan_partition_ranges_def planner_new_def planner_default_def pread_open_path_def
        probe_mmap_eligible_def probe_verdict_def std_open_def Let_def sys_call_def sim_env_def sys_do_def handle_path_def
        plan_partition_boundaries_def pread_source_def max_consts)
  with run res show ?thesis by blast
qed

text \<open>
  Claim C3: the planner agrees with the slice planner over every source that meets the trait's
  documented contract, however short its reads are. It never panics, and it fails only with an
  error of the source, or because the scan buffer is beyond the addressable limit
  (\<open>InvalidInput\<close>) or cannot be allocated (\<open>OutOfMemory\<close>); the buffered search finds exactly the
  first occurrence of the delimiter at or after its start.
\<close>

theorem any_source_parity:
  assumes "byte_source src content sinv" "sinv s" "valid_slice delimiter" "delimiter \<noteq> []"
    "valid_slice buffer" "length delimiter \<le> length buffer" "from_pos \<le> length content"
  shows "(\<exists>r s'. plan_partition_boundaries alloc bptr src num_partitions delimiter scan_buffer_bytes s = Ret (r, s') \<and> sinv s' \<and>
       (case r of
          Inl e \<Rightarrow> source_error src sinv e \<or>
            max scan_buffer_bytes (length delimiter) > isize_max \<and> err_kind e = InvalidInput \<or>
            \<not> alloc (max scan_buffer_bytes (length delimiter)) \<and> err_kind e = OutOfMemory
        | Inr rs \<Rightarrow> find_partition_boundaries_pattern ptr content num_partitions delimiter = Ret rs)) \<and>
     (\<exists>r buffer' s'. find_pattern_from src bptr from_pos delimiter buffer s = Ret (r, buffer', s') \<and>
       (case r of
          Inl e \<Rightarrow> source_error src sinv e
        | Inr res \<Rightarrow> res = map_option ((+) from_pos) (first_occ delimiter (drop from_pos content))))"
proof (rule conjI)
  have slice: "find_partition_boundaries_pattern ptr content num_partitions delimiter =
      Ret (plan_spec (record_cut delimiter content) (length content) (min num_partitions (length content)))"
    using byte_source.valid_content [OF assms(1,2)] assms(3,4) by (simp add: find_partition_boundaries_pattern_spec)
  obtain r s' where run: "plan_partition_boundaries alloc bptr src num_partitions delimiter scan_buffer_bytes s = Ret (r, s')" "sinv s'"
    "case r of
       Inl e \<Rightarrow> source_error src sinv e \<or>
         max scan_buffer_bytes (length delimiter) > isize_max \<and> err_kind e = InvalidInput \<or>
         \<not> alloc (max scan_buffer_bytes (length delimiter)) \<and> err_kind e = OutOfMemory
     | Inr rs \<Rightarrow> rs = plan_spec (record_cut delimiter content) (length content) (min num_partitions (length content))"
    using byte_source.plan_partition_boundaries_spec [OF assms(1-4)] by blast
  show "\<exists>r s'. plan_partition_boundaries alloc bptr src num_partitions delimiter scan_buffer_bytes s = Ret (r, s') \<and> sinv s' \<and>
       (case r of
          Inl e \<Rightarrow> source_error src sinv e \<or>
            max scan_buffer_bytes (length delimiter) > isize_max \<and> err_kind e = InvalidInput \<or>
            \<not> alloc (max scan_buffer_bytes (length delimiter)) \<and> err_kind e = OutOfMemory
        | Inr rs \<Rightarrow> find_partition_boundaries_pattern ptr content num_partitions delimiter = Ret rs)"
    using run slice by (intro exI [of _ r] exI [of _ s']) (cases r; simp)
  show "\<exists>r buffer' s'. find_pattern_from src bptr from_pos delimiter buffer s = Ret (r, buffer', s') \<and>
       (case r of
          Inl e \<Rightarrow> source_error src sinv e
        | Inr res \<Rightarrow> res = map_option ((+) from_pos) (first_occ delimiter (drop from_pos content)))"
    using byte_source.find_pattern_from_spec [OF assms(1-7)] by blast
qed

theorem any_source_parity_witness:
  "\<exists>r s'. plan_partition_boundaries (\<lambda>_. True) 0 (dribble_source \<lparr>dr_data = [97, 13, 10, 98, 13, 10], dr_max_read = 1\<rparr>)
       2 [13, 10] 16 () = Ret (Inr r, s') \<and>
     find_partition_boundaries_pattern 0 [97, 13, 10, 98, 13, 10] 2 [13, 10] = Ret r"
proof -
  let ?d = "\<lparr>dr_data = [97, 13, 10, 98, 13, 10], dr_max_read = 1\<rparr>"
  have i: "dribble_inv ?d ()" "valid_slice [13, 10 :: byte]" "[13, 10 :: byte] \<noteq> []"
    by (simp_all add: dribble_inv_def valid_slice_def max_consts)
  from any_source_parity [OF dribble_src.byte_source_axioms i, of "[0, 0]" 0 "\<lambda>_. True" 0 2 16 0]
  obtain r s' where "plan_partition_boundaries (\<lambda>_. True) 0 (dribble_source ?d) 2 [13, 10] 16 () = Ret (r, s')"
    "case r of
       Inl e \<Rightarrow> source_error (dribble_source ?d) (dribble_inv ?d) e \<or> max 16 (length [13, 10 :: byte]) > isize_max \<and> err_kind e = InvalidInput
     | Inr rs \<Rightarrow> find_partition_boundaries_pattern 0 (dr_data ?d) 2 [13, 10] = Ret rs"
    by (auto simp: valid_slice_def max_consts split: sum.splits)
  then show ?thesis by (cases r) (auto simp: dribble_no_error max_consts)
qed

text \<open>
  The parity assertions of the test-suite hold for every content, partition count and
  delimiter, as long as the small scan buffer can be allocated.
\<close>

lemma sources_match_always:
  assumes "valid_slice content" "valid_slice delimiter" "delimiter \<noteq> []" "0 < parts \<or> content = []" "alloc (max 16 (length delimiter))"
  shows "assert_sources_match alloc bptr ptr content parts delimiter"
proof -
  let ?d = "\<lparr>dr_data = content, dr_max_read = usize_max\<rparr>"
  let ?rs = "plan_spec (record_cut delimiter content) (length content) (min parts (length content))"
  have i: "dribble_inv ?d ()" using assms(1) by (simp add: dribble_inv_def max_consts)
  have le: "max 16 (length delimiter) \<le> isize_max" using assms(2) by (simp add: valid_slice_def max_consts)
  obtain r s' where r: "plan_partition_boundaries alloc bptr (dribble_source ?d) parts delimiter 16 () = Ret (r, s')"
    "case r of
       Inl e \<Rightarrow> source_error (dribble_source ?d) (dribble_inv ?d) e \<or>
         max 16 (length delimiter) > isize_max \<and> err_kind e = InvalidInput \<or>
         \<not> alloc (max 16 (length delimiter)) \<and> err_kind e = OutOfMemory
     | Inr rs \<Rightarrow> rs = plan_spec (record_cut delimiter (dr_data ?d)) (length (dr_data ?d)) (min parts (length (dr_data ?d)))"
    using dribble_src.plan_partition_boundaries_spec [OF i assms(2,3), of alloc bptr parts 16] by blast
  then have run: "plan_partition_boundaries alloc bptr (dribble_source ?d) parts delimiter 16 () = Ret (Inr ?rs, s')"
    using le assms(5) by (cases r) (simp_all add: dribble_no_error not_less)
  have t: "tiles 0 ?rs (length content)"
    using assms(4) rec.plan_spec_tiles [of "min parts (length content)" delimiter content]
    by (cases "content = []") (auto simp: plan_spec_def)
  have "length ?rs \<le> max parts 1" using rec.plan_spec_count [of delimiter content "min parts (length content)"] by auto
  then show ?thesis
    using run assms(1-3) partition_inv_loop_tiles [OF assms(2) t plan_spec_aligned]
    by (simp add: assert_sources_match_def find_partition_boundaries_pattern_spec)
qed

end
