(* ===== verification/Ffi.thy ===== *)
theory Ffi
  imports Mmap_Chunker Source_Backends "HOL-Library.AList"
begin

unbundle bit_operations_syntax

section \<open>The C interface\<close>

text \<open>
  \<open>src/src/ffi.rs\<close>: the exported functions over opaque engine handles. The state of the calling
  thread is its error buffer, the engines allocated on the heap, and the trace of the run. A
  handle is an address; \<open>0\<close> is the null pointer. Texts are byte strings. A pointer argument is an
  option (\<open>None\<close> is null) that holds the memory it points to; a C string is its bytes before the
  terminator.

  The functions return \<open>None\<close> where the caller has broken the safety contract (a handle that is
  not live, a buffer shorter than its stated length); the behaviour is then undefined. The
  address of a new allocation, the allocation of scan buffers and their address are parameters.
\<close>

subsection \<open>Constants\<close>

definition ABI_VERSION :: "32 word" where "ABI_VERSION = 0x00010006"

definition CAP_ZERO_COPY :: "32 word" where "CAP_ZERO_COPY = push_bit 0 1"
definition CAP_CONFIGURABLE_DELIMITER :: "32 word" where "CAP_CONFIGURABLE_DELIMITER = push_bit 1 1"
definition CAP_ERROR_STRINGS :: "32 word" where "CAP_ERROR_STRINGS = push_bit 2 1"
definition CAP_FIXED_SIZE_CHUNKING :: "32 word" where "CAP_FIXED_SIZE_CHUNKING = push_bit 3 1"
definition CAP_RECORD_PARTITIONING :: "32 word" where "CAP_RECORD_PARTITIONING = push_bit 4 1"
definition CAP_MULTI_BYTE_DELIMITER :: "32 word" where "CAP_MULTI_BYTE_DELIMITER = push_bit 5 1"
definition CAP_MULTI_BYTE_PARTITIONING :: "32 word" where "CAP_MULTI_BYTE_PARTITIONING = push_bit 6 1"
definition CAP_WINDOWED_PLANNING :: "32 word" where "CAP_WINDOWED_PLANNING = push_bit 7 1"
definition CAP_FILE_PIN :: "32 word" where "CAP_FILE_PIN = push_bit 8 1"

definition SOURCE_MODE_MMAP :: "32 word" where "SOURCE_MODE_MMAP = 0"
definition SOURCE_MODE_WINDOWED :: "32 word" where "SOURCE_MODE_WINDOWED = 1"
definition SOURCE_MODE_PREAD :: "32 word" where "SOURCE_MODE_PREAD = 2"

definition MAX_ERROR_LEN :: nat where "MAX_ERROR_LEN = 256"

definition mmap_engine_abi_version :: "32 word" where
  "mmap_engine_abi_version = ABI_VERSION"

definition mmap_engine_capabilities :: "32 word" where
  "mmap_engine_capabilities =
     CAP_ZERO_COPY OR CAP_CONFIGURABLE_DELIMITER OR CAP_ERROR_STRINGS OR CAP_FIXED_SIZE_CHUNKING OR
     CAP_RECORD_PARTITIONING OR CAP_MULTI_BYTE_DELIMITER OR CAP_MULTI_BYTE_PARTITIONING OR
     CAP_WINDOWED_PLANNING OR CAP_FILE_PIN"

subsection \<open>State\<close>

record engine =
  en_mmap :: mmap_file
  en_plan :: chunk_plan
  en_pin :: "pinned_file option"

record chunk_view =
  cv_data :: nat
  cv_len :: nat

record ffi_state =
  fs_error :: string
  fs_heap :: "(nat \<times> engine) list"
  fs_trace :: trace

record ffi_env =
  fe_pf :: platform
  fe_os :: os_env
  fe_box :: "(nat \<times> engine) list \<Rightarrow> nat"
  fe_alloc :: "nat \<Rightarrow> bool"
  fe_bptr :: nat

definition ffi_init :: "trace \<Rightarrow> ffi_state" where
  "ffi_init tr = \<lparr>fs_error = replicate MAX_ERROR_LEN (CHR 0x00), fs_heap = [], fs_trace = tr\<rparr>"

subsection \<open>The error buffer\<close>

definition write_error :: "string \<Rightarrow> string \<Rightarrow> string" where
  "write_error msg buf =
     (let len = min (slen msg) (MAX_ERROR_LEN - 1);
          buf1 = take len msg @ drop len buf
      in buf1[len := CHR 0x00])"

definition set_error :: "string \<Rightarrow> ffi_state \<Rightarrow> ffi_state" where
  "set_error msg st = st\<lparr>fs_error := write_error msg (fs_error st)\<rparr>"

definition clear_error :: "ffi_state \<Rightarrow> ffi_state" where
  "clear_error st = st\<lparr>fs_error := (fs_error st)[0 := CHR 0x00]\<rparr>"

definition mmap_engine_last_error :: "ffi_state \<Rightarrow> string option" where
  "mmap_engine_last_error st =
     (if fs_error st ! 0 = CHR 0x00 then None else Some (takeWhile (\<lambda>c. c \<noteq> CHR 0x00) (fs_error st)))"

subsection \<open>Helpers\<close>

definition cstr_to_path :: "platform \<Rightarrow> os_env \<Rightarrow> path \<Rightarrow> path" where
  "cstr_to_path pf env path = (if pf = Unix then path else env_lossy env path)"

definition check_engine_pin :: "ffi_env \<Rightarrow> engine \<Rightarrow> ffi_state \<Rightarrow> (pin_mismatch + unit) \<times> ffi_state" where
  "check_engine_pin fe engine st =
     (case en_pin engine of
        None \<Rightarrow> (Inr (), st)
      | Some pinned \<Rightarrow>
          (case revalidate_at (fe_pf fe) (fe_os fe) pinned (fs_trace st) of (r, tr) \<Rightarrow> (r, st\<lparr>fs_trace := tr\<rparr>)))"

definition pin_message :: "pin_mismatch \<Rightarrow> string" where
  "pin_message m = ''file identity changed: '' @ show_mismatch m"

text \<open>
  \<open>catch_unwind\<close> around the body of an exported function: a panic of the planner, entered in
  state \<open>st\<close>, becomes an error text and the error value.
\<close>

definition catch_unwind :: "string \<Rightarrow> 'r \<Rightarrow> ffi_state \<Rightarrow> ('r \<times> ffi_state) run \<Rightarrow> 'r \<times> ffi_state" where
  "catch_unwind name err st body =
     (case body of
        Ret res \<Rightarrow> res
      | Panic _ \<Rightarrow> (err, set_error (''internal error: panic in '' @ name) st))"

text \<open>Writing the layout of the engine behind a handle.\<close>

definition put_plan :: "nat \<Rightarrow> engine \<Rightarrow> chunk_plan \<Rightarrow> ffi_state \<Rightarrow> ffi_state" where
  "put_plan handle engine p st = st\<lparr>fs_heap := AList.update handle (engine\<lparr>en_plan := p\<rparr>) (fs_heap st)\<rparr>"

definition install :: "nat \<Rightarrow> engine \<Rightarrow> ffi_state \<Rightarrow> chunk_plan \<Rightarrow> nat \<times> ffi_state" where
  "install handle engine st p = (plan_len p, put_plan handle engine p st)"

text \<open>The checks of a length-delimited delimiter argument.\<close>

definition delimiter_error :: "bytes option \<Rightarrow> nat \<Rightarrow> string option" where
  "delimiter_error delimiter delimiter_len =
     (if delimiter_len = 0 then Some ''delimiter_len must be > 0''
      else if delimiter = None then Some ''delimiter is null''
      else if delimiter_len > isize_max then Some ''delimiter_len exceeds supported range''
      else None)"

text \<open>\<open>slice::from_raw_parts\<close> on a buffer of the caller.\<close>

definition raw_parts :: "bytes option \<Rightarrow> nat \<Rightarrow> bytes option" where
  "raw_parts p n = (case p of None \<Rightarrow> None | Some buf \<Rightarrow> if n \<le> length buf then Some (take n buf) else None)"

subsection \<open>Opening\<close>

definition open_failure :: "ffi_env \<Rightarrow> path \<Rightarrow> ffi_state \<Rightarrow> nat \<times> ffi_state" where
  "open_failure fe c_str st =
     (case probe_cstr_eligible (fe_pf fe) (fe_os fe) c_str (fs_trace st) of
        (r, tr) \<Rightarrow>
          (0, set_error
                (case r of
                   Inl error \<Rightarrow>
                     if err_kind error = InvalidInput then ''failed to open or map file: '' @ err_text error
                     else ''failed to open or map file''
                 | Inr _ \<Rightarrow> ''failed to open or map file'')
                (st\<lparr>fs_trace := tr\<rparr>)))"

definition open_engine :: "ffi_env \<Rightarrow> path \<Rightarrow> pinned_file option \<Rightarrow> ffi_state \<Rightarrow> nat \<times> ffi_state" where
  "open_engine fe c_str pin st =
     (case mmap_open (fe_pf fe) (fe_os fe) c_str (fs_trace st) of
        (Some f, tr) \<Rightarrow>
          (let tr1 = advise_sequential (fe_pf fe) (fe_os fe) f tr;
               h = fe_box fe (fs_heap st)
           in (h, st\<lparr>fs_trace := tr1,
                      fs_heap := AList.update h \<lparr>en_mmap = f, en_plan = plan_empty, en_pin = pin\<rparr> (fs_heap st)\<rparr>))
      | (None, tr) \<Rightarrow> open_failure fe c_str (st\<lparr>fs_trace := tr\<rparr>))"

definition mmap_engine_open :: "ffi_env \<Rightarrow> path option \<Rightarrow> ffi_state \<Rightarrow> nat \<times> ffi_state" where
  "mmap_engine_open fe path st0 =
     (let st = clear_error st0 in
      case path of
        None \<Rightarrow> (0, set_error ''path is null'' st)
      | Some c_str \<Rightarrow> open_engine fe c_str None st)"

definition mmap_engine_open_pinned :: "ffi_env \<Rightarrow> path option \<Rightarrow> 32 word \<Rightarrow> ffi_state \<Rightarrow> nat \<times> ffi_state" where
  "mmap_engine_open_pinned fe path flags st0 =
     (let st = clear_error st0 in
      case path of
        None \<Rightarrow> (0, set_error ''path is null'' st)
      | Some c_str \<Rightarrow>
          if flags AND NOT PIN_ALL \<noteq> 0 then (0, set_error ''unknown pin flag bits'' st)
          else
            let owned = cstr_to_path (fe_pf fe) (fe_os fe) c_str in
            (case capture_at (fe_pf fe) (fe_os fe) owned flags (fs_trace st) of
               (Inl error, tr) \<Rightarrow>
                 (0, set_error (''failed to capture file identity: '' @ err_text error) (st\<lparr>fs_trace := tr\<rparr>))
             | (Inr pinned, tr) \<Rightarrow> open_engine fe c_str (Some pinned) (st\<lparr>fs_trace := tr\<rparr>)))"

subsection \<open>Scanning and partitioning\<close>

definition engine_data :: "ffi_env \<Rightarrow> engine \<Rightarrow> ffi_state \<Rightarrow> bytes" where
  "engine_data fe engine st = mmap_as_slice (fe_os fe) (fs_trace st) (en_mmap engine)"

definition mmap_engine_scan_chunks_ex :: "ffi_env \<Rightarrow> nat \<Rightarrow> nat \<Rightarrow> byte \<Rightarrow> ffi_state \<Rightarrow> (nat \<times> ffi_state) option" where
  "mmap_engine_scan_chunks_ex fe handle chunk_size_bytes delimiter st0 =
     (let st = clear_error st0 in
      if handle = 0 then Some (0, set_error ''handle is null'' st)
      else case map_of (fs_heap st) handle of
        None \<Rightarrow> None
      | Some engine \<Rightarrow>
          (case check_engine_pin fe engine st of
             (Inl mismatch, st1) \<Rightarrow> Some (0, set_error (pin_message mismatch) st1)
           | (Inr _, st1) \<Rightarrow>
               let data = engine_data fe engine st1 in
               if data = [] then Some (0, put_plan handle engine plan_empty st1)
               else Some (catch_unwind ''mmap_engine_scan_chunks'' 0 st1
                 (rmap (\<lambda>chunks. install handle engine st1 (from_ranges chunks))
                   (find_chunk_boundaries (mf_ptr (en_mmap engine)) data chunk_size_bytes delimiter)))))"

definition mmap_engine_scan_chunks :: "ffi_env \<Rightarrow> nat \<Rightarrow> nat \<Rightarrow> ffi_state \<Rightarrow> (nat \<times> ffi_state) option" where
  "mmap_engine_scan_chunks fe handle chunk_size_bytes st = mmap_engine_scan_chunks_ex fe handle chunk_size_bytes 10 st"

definition mmap_engine_scan_chunks_pattern ::
  "ffi_env \<Rightarrow> nat \<Rightarrow> nat \<Rightarrow> bytes option \<Rightarrow> nat \<Rightarrow> ffi_state \<Rightarrow> (nat \<times> ffi_state) option" where
  "mmap_engine_scan_chunks_pattern fe handle chunk_size_bytes delimiter delimiter_len st0 =
     (let st = clear_error st0 in
      if handle = 0 then Some (0, set_error ''handle is null'' st)
      else case delimiter_error delimiter delimiter_len of
        Some msg \<Rightarrow> Some (0, set_error msg st)
      | None \<Rightarrow>
          (case map_of (fs_heap st) handle of
             None \<Rightarrow> None
           | Some engine \<Rightarrow>
               (case check_engine_pin fe engine st of
                  (Inl mismatch, st1) \<Rightarrow> Some (0, set_error (pin_message mismatch) st1)
                | (Inr _, st1) \<Rightarrow>
                    let data = engine_data fe engine st1 in
                    (case raw_parts delimiter delimiter_len of
                       None \<Rightarrow> None
                     | Some delim \<Rightarrow>
                         Some (catch_unwind ''mmap_engine_scan_chunks_pattern'' 0 st1
                           (rmap (\<lambda>chunks. install handle engine st1 (from_ranges chunks))
                             (find_chunk_boundaries_pattern (mf_ptr (en_mmap engine)) data chunk_size_bytes delim)))))))"

definition mmap_engine_scan_fixed :: "ffi_env \<Rightarrow> nat \<Rightarrow> nat \<Rightarrow> ffi_state \<Rightarrow> (nat \<times> ffi_state) option" where
  "mmap_engine_scan_fixed fe handle chunk_size_bytes st0 =
     (let st = clear_error st0 in
      if handle = 0 then Some (0, set_error ''handle is null'' st)
      else case map_of (fs_heap st) handle of
        None \<Rightarrow> None
      | Some engine \<Rightarrow>
          (case check_engine_pin fe engine st of
             (Inl mismatch, st1) \<Rightarrow> Some (0, set_error (pin_message mismatch) st1)
           | (Inr _, st1) \<Rightarrow>
               Some (catch_unwind ''mmap_engine_scan_fixed'' 0 st1
                 (Ret (install handle engine st1 (plan_fixed (mmap_len (en_mmap engine)) chunk_size_bytes))))))"

definition mmap_engine_partition_records :: "ffi_env \<Rightarrow> nat \<Rightarrow> nat \<Rightarrow> byte \<Rightarrow> ffi_state \<Rightarrow> (nat \<times> ffi_state) option" where
  "mmap_engine_partition_records fe handle requested_partitions delimiter st0 =
     (let st = clear_error st0 in
      if handle = 0 then Some (0, set_error ''handle is null'' st)
      else case map_of (fs_heap st) handle of
        None \<Rightarrow> None
      | Some engine \<Rightarrow>
          (case check_engine_pin fe engine st of
             (Inl mismatch, st1) \<Rightarrow> Some (0, set_error (pin_message mismatch) st1)
           | (Inr _, st1) \<Rightarrow>
               if mmap_len (en_mmap engine) = 0 then Some (0, put_plan handle engine plan_empty st1)
               else if requested_partitions = 0 then Some (0, set_error ''requested_partitions must be > 0'' st1)
               else
                 let data = engine_data fe engine st1 in
                 Some (catch_unwind ''mmap_engine_partition_records'' 0 st1
                   (rmap (\<lambda>partitions. install handle engine st1 (from_ranges partitions))
                     (find_partition_boundaries (mf_ptr (en_mmap engine)) data requested_partitions delimiter)))))"

definition mmap_engine_partition_records_pattern ::
  "ffi_env \<Rightarrow> nat \<Rightarrow> nat \<Rightarrow> bytes option \<Rightarrow> nat \<Rightarrow> ffi_state \<Rightarrow> (nat \<times> ffi_state) option" where
  "mmap_engine_partition_records_pattern fe handle requested_partitions delimiter delimiter_len st0 =
     (let st = clear_error st0 in
      if handle = 0 then Some (0, set_error ''handle is null'' st)
      else case delimiter_error delimiter delimiter_len of
        Some msg \<Rightarrow> Some (0, set_error msg st)
      | None \<Rightarrow>
          (case map_of (fs_heap st) handle of
             None \<Rightarrow> None
           | Some engine \<Rightarrow>
               (case check_engine_pin fe engine st of
                  (Inl mismatch, st1) \<Rightarrow> Some (0, set_error (pin_message mismatch) st1)
                | (Inr _, st1) \<Rightarrow>
                    if mmap_len (en_mmap engine) = 0 then Some (0, put_plan handle engine plan_empty st1)
                    else if requested_partitions = 0 then Some (0, set_error ''requested_partitions must be > 0'' st1)
                    else
                      let data = engine_data fe engine st1 in
                      (case raw_parts delimiter delimiter_len of
                         None \<Rightarrow> None
                       | Some delim \<Rightarrow>
                           Some (catch_unwind ''mmap_engine_partition_records_pattern'' 0 st1
                             (rmap (\<lambda>partitions. install handle engine st1 (from_ranges partitions))
                               (find_partition_boundaries_pattern (mf_ptr (en_mmap engine)) data requested_partitions delim)))))))"

subsection \<open>Planning without a handle\<close>

text \<open>The result of a planning call: the status, the count written, and the caller's buffer.\<close>

record plan_result =
  pr_status :: int
  pr_count :: "nat option"
  pr_ranges :: "brange list"

fun write_ranges :: "brange list \<Rightarrow> nat \<Rightarrow> brange list \<Rightarrow> brange list option" where
  "write_ranges out index [] = Some out"
| "write_ranges out index (r # ranges) =
     (if index < length out then write_ranges (out[index := r]) (index + 1) ranges else None)"

definition plan_argument_error ::
  "path option \<Rightarrow> nat \<Rightarrow> bytes option \<Rightarrow> nat \<Rightarrow> brange list option \<Rightarrow> nat \<Rightarrow> bool \<Rightarrow> string option" where
  "plan_argument_error path requested_partitions delimiter delimiter_len out_ranges capacity out_count_null =
     (if path = None then Some ''path is null''
      else case delimiter_error delimiter delimiter_len of
        Some msg \<Rightarrow> Some msg
      | None \<Rightarrow>
          if out_count_null then Some ''out_count is null''
          else if capacity > 0 \<and> out_ranges = None then Some ''out_ranges is null with non-zero capacity''
          else if requested_partitions = 0 then Some ''requested_partitions must be > 0''
          else None)"

definition mode_of :: "32 word \<Rightarrow> source_mode option" where
  "mode_of source_mode =
     (if source_mode = SOURCE_MODE_MMAP then Some Mmap
      else if source_mode = SOURCE_MODE_WINDOWED then Some Windowed
      else if source_mode = SOURCE_MODE_PREAD then Some Pread
      else None)"

definition planning_failed :: "io_error \<Rightarrow> string" where
  "planning_failed error = ''range planning failed: '' @ err_text error"

definition finish_plan :: "brange list \<Rightarrow> brange list \<Rightarrow> nat \<Rightarrow> ffi_state \<Rightarrow> (plan_result \<times> ffi_state) option" where
  "finish_plan ranges buf capacity st =
     (if slen ranges > capacity then Some (\<lparr>pr_status = -2, pr_count = Some (slen ranges), pr_ranges = buf\<rparr>, st)
      else case write_ranges buf 0 ranges of
        None \<Rightarrow> None
      | Some buf' \<Rightarrow> Some (\<lparr>pr_status = 0, pr_count = Some (slen ranges), pr_ranges = buf'\<rparr>, st))"

definition mmap_engine_plan_partition_ranges ::
  "ffi_env \<Rightarrow> path option \<Rightarrow> nat \<Rightarrow> bytes option \<Rightarrow> nat \<Rightarrow> 32 word \<Rightarrow> nat \<Rightarrow> brange list option \<Rightarrow> nat \<Rightarrow> bool \<Rightarrow>
     ffi_state \<Rightarrow> (plan_result \<times> ffi_state) option" where
  "mmap_engine_plan_partition_ranges fe path requested_partitions delimiter delimiter_len source_mode window_bytes
       out_ranges capacity out_count_null st0 =
     (let st = clear_error st0;
          buf = (case out_ranges of None \<Rightarrow> [] | Some b \<Rightarrow> b);
          fail = (\<lambda>msg st. Some (\<lparr>pr_status = -1, pr_count = None, pr_ranges = buf\<rparr>, set_error msg st))
      in case plan_argument_error path requested_partitions delimiter delimiter_len out_ranges capacity out_count_null of
           Some msg \<Rightarrow> fail msg st
         | None \<Rightarrow>
             (case mode_of source_mode of
                None \<Rightarrow> fail ''source_mode must be 0 (mmap), 1 (windowed), or 2 (pread)'' st
              | Some mode \<Rightarrow>
                  let owned = cstr_to_path (fe_pf fe) (fe_os fe) (the path) in
                  (case raw_parts delimiter delimiter_len of
                     None \<Rightarrow> None
                   | Some delim \<Rightarrow>
                       let opts = with_window_bytes (planner_new mode) window_bytes in
                       (case plan_partition_ranges (fe_pf fe) (fe_os fe) (fe_alloc fe) (fe_bptr fe) owned requested_partitions delim
                               opts (fs_trace st) of
                          Panic _ \<Rightarrow> fail ''internal error: panic in mmap_engine_plan_partition_ranges'' st
                        | Ret (Inl error, tr) \<Rightarrow> fail (planning_failed error) (st\<lparr>fs_trace := tr\<rparr>)
                        | Ret (Inr ranges, tr) \<Rightarrow> finish_plan ranges buf capacity (st\<lparr>fs_trace := tr\<rparr>)))))"

subsection \<open>Chunk views and release\<close>

definition mmap_engine_get_chunk :: "nat \<Rightarrow> nat \<Rightarrow> bool \<Rightarrow> ffi_state \<Rightarrow> (int \<times> chunk_view option \<times> ffi_state) option" where
  "mmap_engine_get_chunk handle index out_chunk_null st0 =
     (let st = clear_error st0 in
      if handle = 0 then Some (-1, None, set_error ''handle is null'' st)
      else if out_chunk_null then Some (-1, None, set_error ''out_chunk is null'' st)
      else case map_of (fs_heap st) handle of
        None \<Rightarrow> None
      | Some engine \<Rightarrow>
          if index \<ge> plan_len (en_plan engine) then Some (-1, None, set_error ''chunk index out of bounds'' st)
          else (case range_at (en_plan engine) index (mmap_len (en_mmap engine)) of
                  None \<Rightarrow> Some (-1, None, set_error ''internal error: fixed chunk bounds overflow'' st)
                | Some (s, e) \<Rightarrow> Some (0, Some \<lparr>cv_data = mmap_as_ptr (en_mmap engine) + s, cv_len = e - s\<rparr>, st)))"

definition mmap_engine_free :: "ffi_env \<Rightarrow> nat \<Rightarrow> ffi_state \<Rightarrow> ffi_state option" where
  "mmap_engine_free fe handle st =
     (if handle = 0 then Some st
      else case map_of (fs_heap st) handle of
        None \<Rightarrow> None
      | Some engine \<Rightarrow>
          Some (st\<lparr>fs_heap := AList.delete handle (fs_heap st),
                   fs_trace := mmap_drop (fe_os fe) (en_mmap engine) (fs_trace st)\<rparr>))"

subsection \<open>The error buffer round trip\<close>

lemma write_error_length: "length buf = MAX_ERROR_LEN \<Longrightarrow> length (write_error msg buf) = MAX_ERROR_LEN"
  using slen_le_length [of msg] by (simp add: write_error_def Let_def MAX_ERROR_LEN_def)

lemma write_error_eq:
  assumes "length buf = MAX_ERROR_LEN"
  shows "\<exists>rest. write_error msg buf = take (min (slen msg) 255) msg @ CHR 0x00 # rest"
proof -
  let ?n = "min (slen msg) 255"
  have n: "?n \<le> length msg" "?n < length buf" using slen_le_length [of msg] assms by (auto simp: MAX_ERROR_LEN_def)
  have "drop ?n buf = buf ! ?n # drop (Suc ?n) buf" using n(2) by (rule Cons_nth_drop_Suc [symmetric])
  then have "write_error msg buf = (take ?n msg @ buf ! ?n # drop (Suc ?n) buf)[?n := CHR 0x00]"
    by (simp only: write_error_def Let_def MAX_ERROR_LEN_def) simp
  also have "\<dots> = take ?n msg @ CHR 0x00 # drop (Suc ?n) buf" using n(1) by (simp add: list_update_append)
  finally show ?thesis by blast
qed

definition error_ok :: "ffi_state \<Rightarrow> bool" where
  "error_ok st \<longleftrightarrow> length (fs_error st) = MAX_ERROR_LEN \<and> CHR 0x00 \<in> set (fs_error st)"

lemma set_error_ok: "error_ok st \<Longrightarrow> error_ok (set_error msg st)"
  using write_error_length [of "fs_error st" msg] write_error_eq [of "fs_error st" msg]
  by (auto simp: error_ok_def set_error_def)

lemma clear_error_ok: "error_ok st \<Longrightarrow> error_ok (clear_error st)"
  by (cases "fs_error st") (auto simp: error_ok_def clear_error_def MAX_ERROR_LEN_def)

lemma last_error_cleared: "error_ok st \<Longrightarrow> mmap_engine_last_error (clear_error st) = None"
  by (auto simp: error_ok_def clear_error_def mmap_engine_last_error_def MAX_ERROR_LEN_def)

lemma takeWhile_nul: "CHR 0x00 \<notin> set xs \<Longrightarrow> takeWhile (\<lambda>c. c \<noteq> CHR 0x00) (xs @ CHR 0x00 # ys) = xs"
  by (induction xs) auto

lemma takeWhile_shorter: "x \<in> set xs \<Longrightarrow> length (takeWhile (\<lambda>c. c \<noteq> x) xs) < length xs"
  by (induction xs) auto

lemma last_error_set:
  assumes "error_ok st" "msg \<noteq> []" "CHR 0x00 \<notin> set msg" "length msg \<le> isize_max"
  shows "mmap_engine_last_error (set_error msg st) = Some (take 255 msg)"
proof -
  have sl: "slen msg = length msg" using assms(4) by (simp add: valid_slice_def)
  obtain rest where r: "write_error msg (fs_error st) = take 255 msg @ CHR 0x00 # rest"
    using write_error_eq [of "fs_error st" msg] assms(1) by (auto simp: error_ok_def sl min_def split: if_splits)
  have nz: "CHR 0x00 \<notin> set (take 255 msg)" using assms(3) by (meson in_set_takeD)
  obtain c cs where "take 255 msg = c # cs" using assms(2) by (cases msg) auto
  with nz r takeWhile_nul [OF nz, of rest] show ?thesis
    by (auto simp: mmap_engine_last_error_def set_error_def split: if_splits)
qed

lemma error_updates [simp]:
  "fs_heap (set_error msg st) = fs_heap st" "fs_trace (set_error msg st) = fs_trace st"
  "fs_heap (clear_error st) = fs_heap st" "fs_trace (clear_error st) = fs_trace st"
  "fs_error (put_plan h e p st) = fs_error st" "fs_trace (put_plan h e p st) = fs_trace st"
  by (simp_all add: set_error_def clear_error_def put_plan_def)

lemma error_ok_cong: "fs_error st' = fs_error st \<Longrightarrow> error_ok st' = error_ok st"
  by (simp add: error_ok_def)

subsection \<open>Operations on a handle\<close>

datatype engine_op =
    EScan nat
  | EScanEx nat byte
  | EScanPattern nat "bytes option" nat
  | EFixed nat
  | EPartition nat byte
  | EPartitionPattern nat "bytes option" nat

fun engine_run :: "ffi_env \<Rightarrow> nat \<Rightarrow> engine_op \<Rightarrow> ffi_state \<Rightarrow> (nat \<times> ffi_state) option" where
  "engine_run fe h (EScan n) st = mmap_engine_scan_chunks fe h n st"
| "engine_run fe h (EScanEx n d) st = mmap_engine_scan_chunks_ex fe h n d st"
| "engine_run fe h (EScanPattern n p l) st = mmap_engine_scan_chunks_pattern fe h n p l st"
| "engine_run fe h (EFixed n) st = mmap_engine_scan_fixed fe h n st"
| "engine_run fe h (EPartition n d) st = mmap_engine_partition_records fe h n d st"
| "engine_run fe h (EPartitionPattern n p l) st = mmap_engine_partition_records_pattern fe h n p l st"

text \<open>What the safety contract asks of the arguments.\<close>

definition buffer_ok :: "bytes option \<Rightarrow> nat \<Rightarrow> bool" where
  "buffer_ok p n \<longleftrightarrow> (case p of None \<Rightarrow> True | Some buf \<Rightarrow> n \<le> length buf \<or> n > isize_max)"

fun eop_ok :: "engine_op \<Rightarrow> bool" where
  "eop_ok (EScan n) \<longleftrightarrow> n \<le> usize_max"
| "eop_ok (EScanEx n d) \<longleftrightarrow> n \<le> usize_max"
| "eop_ok (EScanPattern n p l) \<longleftrightarrow> n \<le> usize_max \<and> buffer_ok p l"
| "eop_ok (EFixed n) \<longleftrightarrow> n \<le> usize_max"
| "eop_ok (EPartition n d) \<longleftrightarrow> n \<le> usize_max"
| "eop_ok (EPartitionPattern n p l) \<longleftrightarrow> n \<le> usize_max \<and> buffer_ok p l"

text \<open>Rejected arguments, before the pin is checked and after it.\<close>

fun eop_error :: "engine_op \<Rightarrow> string option" where
  "eop_error (EScanPattern n p l) = delimiter_error p l"
| "eop_error (EPartitionPattern n p l) = delimiter_error p l"
| "eop_error op = None"

fun eop_zero :: "bytes \<Rightarrow> engine_op \<Rightarrow> bool" where
  "eop_zero content (EPartition n d) \<longleftrightarrow> content \<noteq> [] \<and> n = 0"
| "eop_zero content (EPartitionPattern n p l) \<longleftrightarrow> content \<noteq> [] \<and> n = 0"
| "eop_zero content op \<longleftrightarrow> False"

text \<open>The call of the Rust interface that an operation corresponds to.\<close>

fun eop_rust :: "engine_op \<Rightarrow> chunker_op" where
  "eop_rust (EScan n) = ScanDelimited n 10"
| "eop_rust (EScanEx n d) = ScanDelimited n d"
| "eop_rust (EScanPattern n p l) = ScanPattern n (take l (the p))"
| "eop_rust (EFixed n) = ScanFixed n"
| "eop_rust (EPartition n d) = PartitionRecords n d"
| "eop_rust (EPartitionPattern n p l) = PartitionPattern n (take l (the p))"

lemma delimiter_error_None:
  assumes "delimiter_error p l = None" "buffer_ok p l"
  obtains buf where "p = Some buf" "raw_parts p l = Some (take l buf)" "take l buf \<noteq> []" "valid_slice (take l buf)"
  using assms
  by (cases p)
    (auto simp: delimiter_error_def buffer_ok_def raw_parts_def valid_slice_def simp flip: length_greater_0_conv split: if_splits)

lemma plan_spec_empty: "from_ranges (plan_spec cutf 0 n) = PlanEmpty"
  by (simp add: plan_spec_def from_ranges_def)

lemma eop_rust_ok: "eop_ok op \<Longrightarrow> eop_error op = None \<Longrightarrow> op_ok (eop_rust op)"
  by (cases op) (auto elim: delimiter_error_None)

text \<open>The function a panic is reported under.\<close>

fun eop_name :: "engine_op \<Rightarrow> string" where
  "eop_name (EScan n) = ''mmap_engine_scan_chunks''"
| "eop_name (EScanEx n d) = ''mmap_engine_scan_chunks''"
| "eop_name (EScanPattern n p l) = ''mmap_engine_scan_chunks_pattern''"
| "eop_name (EFixed n) = ''mmap_engine_scan_fixed''"
| "eop_name (EPartition n d) = ''mmap_engine_partition_records''"
| "eop_name (EPartitionPattern n p l) = ''mmap_engine_partition_records_pattern''"

definition panic_text :: "engine_op \<Rightarrow> string" where
  "panic_text op = ''internal error: panic in '' @ eop_name op"

text \<open>
  The whole effect of an operation on a live handle. With the arguments the C interface accepts, a
  panic can only come from the allocation of a chunk scan's result vector.
\<close>

definition engine_effect :: "ffi_env \<Rightarrow> nat \<Rightarrow> engine \<Rightarrow> bytes \<Rightarrow> engine_op \<Rightarrow> ffi_state \<Rightarrow> nat \<times> ffi_state" where
  "engine_effect fe h e content op st0 =
     (let st = clear_error st0 in
      case eop_error op of
        Some msg \<Rightarrow> (0, set_error msg st)
      | None \<Rightarrow>
          (case check_engine_pin fe e st of
             (Inl m, st1) \<Rightarrow> (0, set_error (pin_message m) st1)
           | (Inr _, st1) \<Rightarrow>
               if eop_zero content op then (0, set_error ''requested_partitions must be > 0'' st1)
               else if op_panic content (eop_rust op) \<noteq> None then (0, set_error (panic_text op) st1)
               else install h e st1 (op_layout content (eop_rust op))))"

text \<open>Which of the accepted calls panic: the chunk scans whose ranges do not fit a vector.\<close>

fun eop_panics :: "bytes \<Rightarrow> engine_op \<Rightarrow> bool" where
  "eop_panics content (EScan n) \<longleftrightarrow> \<not> scan_fits content n"
| "eop_panics content (EScanEx n d) \<longleftrightarrow> \<not> scan_fits content n"
| "eop_panics content (EScanPattern n p l) \<longleftrightarrow> \<not> scan_fits content n"
| "eop_panics content op \<longleftrightarrow> False"

lemma eop_panics_iff:
  assumes "eop_ok op" "eop_error op = None"
  shows "op_panic content (eop_rust op) \<noteq> None \<longleftrightarrow> eop_panics content op"
  using assms by (cases op) (auto elim!: delimiter_error_None split: if_splits)

lemma check_engine_pin_state:
  "check_engine_pin fe e st = (r, st1) \<Longrightarrow>
     fs_heap st1 = fs_heap st \<and> fs_error st1 = fs_error st \<and>
     (fs_trace st1 = fs_trace st \<or> (\<exists>p. fs_trace st1 = sys_do (fe_os fe) (SysStat p) (fs_trace st)))"
  by (auto simp: check_engine_pin_def split: option.splits prod.splits dest!: revalidate_at_trace)

lemma check_engine_pin_quiet: "check_engine_pin fe e st = (r, st1) \<Longrightarrow> quiet (fs_trace st) (fs_trace st1)"
  using check_engine_pin_state [of fe e st r st1] quiet_do [OF quiet_refl, of "SysStat _"] by auto

lemma check_engine_pin_env:
  "check_engine_pin fe e st = (r, st1) \<Longrightarrow> env_trace (fe_os fe) (fs_trace st1) \<longleftrightarrow> env_trace (fe_os fe) (fs_trace st)"
  using check_engine_pin_state [of fe e st r st1] by auto

lemma engine_run_effect:
  assumes h: "h \<noteq> 0" "map_of (fs_heap st) h = Some e" and ok: "eop_ok op"
    and live: "file_live (fe_os fe) content (en_mmap e) (fs_trace st)" "env_trace (fe_os fe) (fs_trace st)"
  shows "engine_run fe h op st = Some (engine_effect fe h e content op st)"
proof -
  obtain r st1 where k: "check_engine_pin fe e (clear_error st) = (r, st1)" by force
  have l: "file_live (fe_os fe) content (en_mmap e) (fs_trace st1)" "env_trace (fe_os fe) (fs_trace st1)"
    using check_engine_pin_quiet [OF k] check_engine_pin_env [OF k] live quiet_live by auto
  have d: "engine_data fe e st1 = content" "mmap_len (en_mmap e) = length content" "valid_slice content"
    using file_live_bytes [OF l] l(1) by (simp_all add: engine_data_def mmap_as_slice_def mmap_len_def file_live_def)
  note defs = engine_effect_def install_def catch_unwind_def Let_def plan_empty_def panic_text_def
    mmap_engine_scan_chunks_def mmap_engine_scan_chunks_ex_def mmap_engine_scan_chunks_pattern_def mmap_engine_scan_fixed_def
    mmap_engine_partition_records_def mmap_engine_partition_records_pattern_def
  note specs = find_chunk_boundaries_spec find_chunk_boundaries_pattern_spec find_partition_boundaries_spec
    find_partition_boundaries_pattern_spec plan_spec_min
  have nil: "op_layout [] q = PlanEmpty" for q by (rule op_layout_Nil)
  show ?thesis
  proof (cases op)
    case (EScanPattern n p len)
    show ?thesis
    proof (cases "delimiter_error p len")
      case None
      then obtain buf where "p = Some buf" "raw_parts p len = Some (take len buf)" "take len buf \<noteq> []" "valid_slice (take len buf)"
        using ok EScanPattern by (auto elim: delimiter_error_None)
      with None EScanPattern h k d nil show ?thesis
        by (cases r; cases "content = []"; cases "scan_fits content n") (simp_all add: defs specs chunks_from.simps [of _ "[]"])
    qed (use EScanPattern h in \<open>simp add: defs\<close>)
  next
    case (EPartitionPattern n p len)
    show ?thesis
    proof (cases "delimiter_error p len")
      case None
      then obtain buf where "p = Some buf" "raw_parts p len = Some (take len buf)" "take len buf \<noteq> []" "valid_slice (take len buf)"
        using ok EPartitionPattern by (auto elim: delimiter_error_None)
      with None EPartitionPattern h k d show ?thesis
        by (cases r; cases "content = []") (simp_all add: defs specs plan_spec_empty)
    qed (use EPartitionPattern h in \<open>simp add: defs\<close>)
  next
    case (EPartition n dl)
    with h k d show ?thesis
      by (cases r; cases "content = []") (simp_all add: defs specs plan_spec_empty)
  next
    case (EScan n)
    with h k d nil [of "ScanDelimited n 10"] show ?thesis
      by (cases r; cases "content = []"; cases "scan_fits content n") (simp_all add: defs specs)
  next
    case (EScanEx n dl)
    with h k d nil [of "ScanDelimited n dl"] show ?thesis
      by (cases r; cases "content = []"; cases "scan_fits content n") (simp_all add: defs specs)
  next
    case (EFixed n)
    with h k d show ?thesis by (cases r) (simp_all add: defs)
  qed
qed

subsection \<open>Programs that use the interface\<close>

text \<open>The allocator returns an address that is not null and not in use.\<close>

definition box_ok :: "ffi_env \<Rightarrow> bool" where
  "box_ok fe \<longleftrightarrow> (\<forall>H. fe_box fe H \<noteq> 0 \<and> fe_box fe H \<notin> fst ` set H)"

text \<open>The file behind each live handle, after an open call that returned \<open>h\<close>.\<close>

definition owner_after :: "ffi_env \<Rightarrow> path option \<Rightarrow> nat \<Rightarrow> (nat \<rightharpoonup> path) \<Rightarrow> (nat \<rightharpoonup> path)" where
  "owner_after fe path h ow =
     (if h = 0 then ow else ow(h \<mapsto> cstr_to_path (fe_pf fe) (fe_os fe) (the path)))"

text \<open>
  The runs of a caller that keeps the safety contract: handles are null or live, buffers are as
  long as stated. Between the calls the process may do anything else that only reads and
  leaves the live mappings alone, planning without a handle included.
\<close>

inductive ffi_reach :: "ffi_env \<Rightarrow> trace \<Rightarrow> ffi_state \<Rightarrow> (nat \<rightharpoonup> path) \<Rightarrow> bool" for fe tr0 where
  start: "ffi_reach fe tr0 (ffi_init tr0) Map.empty"
| opened: "ffi_reach fe tr0 st ow \<Longrightarrow> mmap_engine_open fe path st = (h, st') \<Longrightarrow>
    ffi_reach fe tr0 st' (owner_after fe path h ow)"
| opened_pinned: "ffi_reach fe tr0 st ow \<Longrightarrow> mmap_engine_open_pinned fe path flags st = (h, st') \<Longrightarrow>
    ffi_reach fe tr0 st' (owner_after fe path h ow)"
| run: "ffi_reach fe tr0 st ow \<Longrightarrow> h = 0 \<or> h \<in> dom ow \<Longrightarrow> eop_ok op \<Longrightarrow> engine_run fe h op st = Some (n, st') \<Longrightarrow>
    ffi_reach fe tr0 st' ow"
| view: "ffi_reach fe tr0 st ow \<Longrightarrow> h = 0 \<or> h \<in> dom ow \<Longrightarrow> mmap_engine_get_chunk h i nul st = Some (r, v, st') \<Longrightarrow>
    ffi_reach fe tr0 st' ow"
| freed: "ffi_reach fe tr0 st ow \<Longrightarrow> h = 0 \<or> h \<in> dom ow \<Longrightarrow> mmap_engine_free fe h st = Some st' \<Longrightarrow>
    ffi_reach fe tr0 st' (ow(h := None))"
| other: "ffi_reach fe tr0 st ow \<Longrightarrow> fs_trace st' = fs_trace st @ evs \<Longrightarrow> env_trace (fe_os fe) (fs_trace st') \<Longrightarrow>
    \<forall>(h, e)\<in>set (fs_heap st). \<forall>x\<in>set evs. \<not> unmaps (mf_ptr (en_mmap e)) x \<Longrightarrow>
    fs_heap st' = fs_heap st \<Longrightarrow> error_ok st' \<Longrightarrow> ffi_reach fe tr0 st' ow"

definition engine_ok :: "ffi_env \<Rightarrow> bytes \<Rightarrow> engine \<Rightarrow> trace \<Rightarrow> bool" where
  "engine_ok fe content e tr \<longleftrightarrow>
     file_shape (en_mmap e) \<and> file_live (fe_os fe) content (en_mmap e) tr \<and> plan_ok (length content) (en_plan e)"

definition apart :: "(nat \<rightharpoonup> engine) \<Rightarrow> bool" where
  "apart H \<longleftrightarrow>
     (\<forall>h h' e e'. H h = Some e \<and> H h' = Some e' \<and> h \<noteq> h' \<and> mf_size (en_mmap e) \<noteq> 0 \<and> mf_size (en_mmap e') \<noteq> 0 \<longrightarrow>
        mf_ptr (en_mmap e) \<noteq> mf_ptr (en_mmap e'))"

definition ffi_inv :: "ffi_env \<Rightarrow> (path \<Rightarrow> bytes) \<Rightarrow> (nat \<rightharpoonup> path) \<Rightarrow> ffi_state \<Rightarrow> bool" where
  "ffi_inv fe files ow st \<longleftrightarrow>
     env_trace (fe_os fe) (fs_trace st) \<and> error_ok st \<and> dom ow = dom (map_of (fs_heap st)) \<and> 0 \<notin> dom ow \<and>
     (\<forall>h e p. map_of (fs_heap st) h = Some e \<and> ow h = Some p \<longrightarrow> engine_ok fe (files p) e (fs_trace st)) \<and>
     apart (map_of (fs_heap st))"

lemma ffi_invD:
  assumes "ffi_inv fe files ow st"
  shows "env_trace (fe_os fe) (fs_trace st)" "error_ok st" "dom ow = dom (map_of (fs_heap st))" "0 \<notin> dom ow"
    "\<And>h e p. map_of (fs_heap st) h = Some e \<Longrightarrow> ow h = Some p \<Longrightarrow> engine_ok fe (files p) e (fs_trace st)"
    "apart (map_of (fs_heap st))"
  using assms by (auto simp: ffi_inv_def)

lemma file_live_empty: "mf_size f = 0 \<Longrightarrow> file_live env content f tr \<Longrightarrow> file_live env content f tr'"
  by (simp add: file_live_def)

text \<open>A state change that leaves the heap and the live mappings alone keeps the invariant.\<close>

lemma ffi_inv_later:
  assumes inv: "ffi_inv fe files ow st" and st': "fs_trace st' = fs_trace st @ evs" "env_trace (fe_os fe) (fs_trace st')"
    and q: "\<And>h e x. map_of (fs_heap st) h = Some e \<Longrightarrow> x \<in> set evs \<Longrightarrow> \<not> unmaps (mf_ptr (en_mmap e)) x"
    and s: "fs_heap st' = fs_heap st" "error_ok st'"
  shows "ffi_inv fe files ow st'"
proof -
  have "engine_ok fe (files p) e (fs_trace st')" if "map_of (fs_heap st) h = Some e" "ow h = Some p" for h e p
    using ffi_invD(5) [OF inv that] file_live_later [of _ _ _ _ evs] q [OF that(1)] st'(1)
    by (simp add: engine_ok_def)
  with ffi_invD [OF inv] st'(2) s show ?thesis by (auto simp: ffi_inv_def)
qed

lemma ffi_inv_quiet:
  "ffi_inv fe files ow st \<Longrightarrow> quiet (fs_trace st) (fs_trace st') \<Longrightarrow> env_trace (fe_os fe) (fs_trace st') \<Longrightarrow>
     fs_heap st' = fs_heap st \<Longrightarrow> error_ok st' \<Longrightarrow> ffi_inv fe files ow st'"
  unfolding quiet_def using ffi_inv_later by blast

lemma ffi_inv_set_error: "ffi_inv fe files ow st \<Longrightarrow> ffi_inv fe files ow (set_error msg st)"
  by (rule ffi_inv_quiet) (auto simp: set_error_ok dest: ffi_invD)

lemma ffi_inv_clear_error: "ffi_inv fe files ow st \<Longrightarrow> ffi_inv fe files ow (clear_error st)"
  by (rule ffi_inv_quiet) (auto simp: clear_error_ok dest: ffi_invD)

lemma ffi_inv_put_plan:
  assumes "ffi_inv fe files ow st" "map_of (fs_heap st) h = Some e" "ow h = Some p" "plan_ok (length (files p)) pl"
  shows "ffi_inv fe files ow (put_plan h e pl st)"
proof -
  have m: "map_of (fs_heap (put_plan h e pl st)) = (map_of (fs_heap st))(h \<mapsto> e\<lparr>en_plan := pl\<rparr>)"
    by (simp add: put_plan_def update_conv')
  have "engine_ok fe (files p) (e\<lparr>en_plan := pl\<rparr>) (fs_trace st)"
    using ffi_invD(5) [OF assms(1-3)] assms(4) by (simp add: engine_ok_def)
  moreover have "apart ((map_of (fs_heap st))(h \<mapsto> e\<lparr>en_plan := pl\<rparr>))"
    using ffi_invD(6) [OF assms(1)] assms(2) unfolding apart_def by (auto split: if_splits)
  ultimately show ?thesis
    using ffi_invD [OF assms(1)] assms(2,3) unfolding ffi_inv_def m
    by (auto simp: error_ok_def split: if_splits)
qed

lemma check_engine_pin_inv:
  assumes "ffi_inv fe files ow st" "check_engine_pin fe e st = (r, st1)"
  shows "ffi_inv fe files ow st1"
  using check_engine_pin_state [OF assms(2)] check_engine_pin_quiet [OF assms(2)] check_engine_pin_env [OF assms(2)]
    ffi_invD(1,2) [OF assms(1)] error_ok_cong [of st1 st]
  by (intro ffi_inv_quiet [OF assms(1)]) auto

lemma engine_effect_inv:
  assumes inv: "ffi_inv fe files ow st" and h: "map_of (fs_heap st) h = Some e" "ow h = Some p" and ok: "eop_ok op"
  shows "ffi_inv fe files ow (snd (engine_effect fe h e (files p) op st))"
proof -
  obtain r st1 where k: "check_engine_pin fe e (clear_error st) = (r, st1)" by force
  have i1: "ffi_inv fe files ow st1" "map_of (fs_heap st1) h = Some e"
    using check_engine_pin_inv [OF ffi_inv_clear_error [OF inv] k] check_engine_pin_state [OF k] h(1) by auto
  have "ffi_inv fe files ow (put_plan h e (op_layout (files p) (eop_rust op)) st1)" if "eop_error op = None"
    using ffi_inv_put_plan [OF i1 h(2)] op_layout_ok [OF eop_rust_ok [OF ok that]] by blast
  with i1 k show ?thesis
    by (auto simp: engine_effect_def Let_def install_def ffi_inv_set_error ffi_inv_clear_error [OF inv]
        split: option.split sum.split)
qed

lemma engine_run_live:
  assumes inv: "ffi_inv fe files ow st" and h: "ow h = Some p" and ok: "eop_ok op"
  obtains e where "map_of (fs_heap st) h = Some e" "h \<noteq> 0" "engine_ok fe (files p) e (fs_trace st)"
    "engine_run fe h op st = Some (engine_effect fe h e (files p) op st)"
proof -
  obtain e where e: "map_of (fs_heap st) h = Some e" using ffi_invD(3) [OF inv] h by blast
  moreover have h0: "h \<noteq> 0" using ffi_invD(4) [OF inv] h by auto
  moreover note eo = ffi_invD(5) [OF inv e h]
  moreover have "engine_run fe h op st = Some (engine_effect fe h e (files p) op st)"
    using engine_run_effect [OF h0 e ok] eo ffi_invD(1) [OF inv] by (simp add: engine_ok_def)
  ultimately show thesis by (rule that)
qed

lemma engine_run_null:
  "engine_run fe 0 op st = Some (0, set_error ''handle is null'' (clear_error st))"
  by (cases op)
    (simp_all add: mmap_engine_scan_chunks_def mmap_engine_scan_chunks_ex_def mmap_engine_scan_chunks_pattern_def
      mmap_engine_scan_fixed_def mmap_engine_partition_records_def mmap_engine_partition_records_pattern_def Let_def)

subsection \<open>Opening and releasing keep the invariant\<close>

lemma open_failure_inv:
  assumes "ffi_inv fe files ow st" "open_failure fe c_str st = (h, st')"
  shows "h = 0 \<and> ffi_inv fe files ow st'"
proof -
  obtain r tr where p: "probe_cstr_eligible (fe_pf fe) (fe_os fe) c_str (fs_trace st) = (r, tr)" by force
  have "quiet (fs_trace st) tr" "env_trace (fe_os fe) tr"
    using p probe_quiet probe_env_trace ffi_invD(1) [OF assms(1)] by (auto simp: probe_cstr_eligible_def Let_def)
  then have "ffi_inv fe files ow (st\<lparr>fs_trace := tr\<rparr>)"
    using ffi_invD(2) [OF assms(1)] by (intro ffi_inv_quiet [OF assms(1)]) (simp_all add: error_ok_def)
  with assms(2) p show ?thesis by (auto simp: open_failure_def ffi_inv_set_error)
qed

lemma advise_quiet: "quiet tr (advise_sequential pf env f tr)" "env_trace env (advise_sequential pf env f tr) \<longleftrightarrow> env_trace env tr"
  by (simp_all add: advise_sequential_def quiet_do)

lemma mmap_open_env_trace: "mmap_open pf env path tr = (r, tr') \<Longrightarrow> env_trace env tr' \<longleftrightarrow> env_trace env tr"
  by (cases pf)
    (auto simp: mmap_open_def probe_cstr_eligible_def probe_mmap_eligible_def Let_def
      open_unix_def open_windows_def open_windows_wide_def sys_call_def
      split: prod.splits sum.splits if_splits option.splits)

lemma apart_update:
  assumes "apart H"
    "\<And>k e'. H k = Some e' \<Longrightarrow> mf_size (en_mmap e) \<noteq> 0 \<Longrightarrow> mf_size (en_mmap e') \<noteq> 0 \<Longrightarrow> mf_ptr (en_mmap e) \<noteq> mf_ptr (en_mmap e')"
  shows "apart (H(h \<mapsto> e))"
  unfolding apart_def
proof (intro allI impI, elim conjE)
  fix a b x y
  assume *: "(H(h \<mapsto> e)) a = Some x" "(H(h \<mapsto> e)) b = Some y" "a \<noteq> b" "mf_size (en_mmap x) \<noteq> 0" "mf_size (en_mmap y) \<noteq> 0"
  consider "a = h" "x = e" "H b = Some y" | "b = h" "y = e" "H a = Some x" | "H a = Some x" "H b = Some y"
    using *(1-3) by (metis fun_upd_apply option.inject)
  then show "mf_ptr (en_mmap x) \<noteq> mf_ptr (en_mmap y)"
  proof cases
    case 1
    with assms(2) [OF 1(3)] *(4,5) show ?thesis by simp
  next
    case 2
    with assms(2) [OF 2(3)] *(4,5) show ?thesis by metis
  next
    case 3
    with * assms(1) show ?thesis unfolding apart_def by blast
  qed
qed

lemma open_engine_inv:
  assumes c: "os_contract (fe_os fe) files" "box_ok fe" and inv: "ffi_inv fe files ow st"
    and o: "open_engine fe c_str pin st = (h, st')"
  shows "ffi_inv fe files (owner_after fe (Some c_str) h ow) st'"
proof -
  obtain r tr where m: "mmap_open (fe_pf fe) (fe_os fe) c_str (fs_trace st) = (r, tr)" by force
  note last = mmap_open_last [OF m]
  have t: "env_trace (fe_os fe) tr" using mmap_open_env_trace [OF m] ffi_invD(1) [OF inv] by simp
  have q: "quiet (fs_trace st) tr" using last by (simp add: maps_last_def)
  show ?thesis
  proof (cases r)
    case None
    have "ffi_inv fe files ow (st\<lparr>fs_trace := tr\<rparr>)"
      using q t ffi_invD(2) [OF inv] by (intro ffi_inv_quiet [OF inv]) (simp_all add: error_ok_def)
    from open_failure_inv [OF this] None m o show ?thesis by (auto simp: open_engine_def owner_after_def)
  next
    case (Some f)
    let ?p = "cstr_to_path (fe_pf fe) (fe_os fe) c_str" and ?tr = "advise_sequential (fe_pf fe) (fe_os fe) f tr"
    let ?e = "\<lparr>en_mmap = f, en_plan = plan_empty, en_pin = pin\<rparr>" and ?h = "fe_box fe (fs_heap st)"
    have h: "h = ?h" "h \<noteq> 0" "map_of (fs_heap st) h = None" and st': "st' = st\<lparr>fs_trace := ?tr, fs_heap := AList.update h ?e (fs_heap st)\<rparr>"
      using o m Some c(2) by (auto simp: open_engine_def Let_def box_ok_def map_of_eq_None_iff)
    have f: "file_shape f" "file_live (fe_os fe) (files ?p) f tr"
      using mmap_open_live [OF c(1) ffi_invD(1) [OF inv] m [unfolded Some]] by (simp_all add: owned_path_def cstr_to_path_def)
    have new: "engine_ok fe (files ?p) ?e ?tr"
      using f quiet_live [OF advise_quiet(1)] by (simp add: engine_ok_def)
    have old: "engine_ok fe (files p) e ?tr" if "map_of (fs_heap st) k = Some e" "ow k = Some p" for k e p
      using ffi_invD(5) [OF inv that] quiet_live [OF quiet_trans [OF q advise_quiet(1)]] by (simp add: engine_ok_def)
    have fresh: "mf_ptr f \<noteq> mf_ptr (en_mmap e)"
      if k: "map_of (fs_heap st) k = Some e" "mf_size f \<noteq> 0" "mf_size (en_mmap e) \<noteq> 0" for k e
    proof -
      obtain p where "ow k = Some p" using k(1) ffi_invD(3) [OF inv] by blast
      then have l: "file_live (fe_os fe) (files p) (en_mmap e) (fs_trace st)"
        using ffi_invD(5) [OF inv k(1)] by (simp add: engine_ok_def)
      have nz: "mf_ptr f \<noteq> 0" using f(1) k(2) by (auto simp: file_shape_def)
      show ?thesis by (rule fresh_pointer [OF c(1) t last [unfolded Some] k(2) nz l k(3)])
    qed
    have "apart ((map_of (fs_heap st))(h \<mapsto> ?e))"
      using fresh by (intro apart_update [OF ffi_invD(6) [OF inv]]) auto
    moreover have "env_trace (fe_os fe) ?tr" using t by (simp add: advise_quiet)
    ultimately show ?thesis
      using new old h ffi_invD(2-4) [OF inv]
      by (auto simp: ffi_inv_def st' update_conv' owner_after_def error_ok_def split: if_splits)
  qed
qed

lemma capture_at_state:
  "capture_at pf env path flags tr = (r, tr') \<Longrightarrow> quiet tr tr' \<and> (env_trace env tr' \<longleftrightarrow> env_trace env tr)"
  using capture_at_trace [of pf env path flags tr r tr'] by (auto simp: quiet_do)

lemma engine_open_inv:
  assumes "os_contract (fe_os fe) files" "box_ok fe" "ffi_inv fe files ow st"
  shows "mmap_engine_open fe path st = (h, st') \<Longrightarrow> ffi_inv fe files (owner_after fe path h ow) st'"
    and "mmap_engine_open_pinned fe path flags st = (h, st') \<Longrightarrow> ffi_inv fe files (owner_after fe path h ow) st'"
proof -
  note clr = ffi_inv_clear_error [OF assms(3)]
  show "mmap_engine_open fe path st = (h, st') \<Longrightarrow> ffi_inv fe files (owner_after fe path h ow) st'"
    using open_engine_inv [OF assms(1,2) clr] ffi_inv_set_error [OF clr]
    by (cases path) (auto simp: mmap_engine_open_def owner_after_def Let_def)
  assume o: "mmap_engine_open_pinned fe path flags st = (h, st')"
  show "ffi_inv fe files (owner_after fe path h ow) st'"
  proof (cases "path = None \<or> flags AND NOT PIN_ALL \<noteq> 0")
    case True
    with o ffi_inv_set_error [OF clr] show ?thesis
      by (cases path) (auto simp: mmap_engine_open_pinned_def owner_after_def Let_def)
  next
    case False
    then obtain c_str where p: "path = Some c_str" by auto
    obtain r tr where k: "capture_at (fe_pf fe) (fe_os fe) (cstr_to_path (fe_pf fe) (fe_os fe) c_str) flags (fs_trace (clear_error st)) = (r, tr)"
      by force
    have "ffi_inv fe files ow ((clear_error st)\<lparr>fs_trace := tr\<rparr>)"
      using capture_at_state [OF k] ffi_invD(1,2) [OF clr] by (intro ffi_inv_quiet [OF clr]) (simp_all add: error_ok_def)
    with o p k False open_engine_inv [OF assms(1,2) this] show ?thesis
      by (cases r) (auto simp: mmap_engine_open_pinned_def owner_after_def Let_def ffi_inv_set_error)
  qed
qed

definition releases :: "nat \<Rightarrow> trace \<Rightarrow> trace \<Rightarrow> bool" where
  "releases p tr tr' \<longleftrightarrow> (\<exists>evs. tr' = tr @ evs \<and> (\<forall>e\<in>set evs. \<forall>q. unmaps q e \<longrightarrow> q = p))"

lemma releases_refl: "releases p tr tr"
  by (simp add: releases_def)

lemma releases_do:
  "releases p tr tr' \<Longrightarrow> (\<And>q. unmaps q (c, env_sys env tr' c) \<Longrightarrow> q = p) \<Longrightarrow> releases p tr (sys_do env c tr')"
  unfolding releases_def sys_do_def
  by (elim exE conjE, rule_tac x = "evs @ [(c, env_sys env tr' c)]" in exI) auto

lemma mmap_drop_releases:
  "releases (mf_ptr f) tr (mmap_drop env f tr)" "env_trace env (mmap_drop env f tr) \<longleftrightarrow> env_trace env tr"
  by (auto simp: mmap_drop_def close_fd_def close_win_file_def close_win_mapping_def releases_refl
      intro!: releases_do split: os_handles.split)

lemma engine_free_inv:
  assumes inv: "ffi_inv fe files ow st" and o: "mmap_engine_free fe h st = Some st'"
  shows "ffi_inv fe files (ow(h := None)) st'"
proof (cases "h = 0")
  case True
  with o inv ffi_invD(4) [OF inv] show ?thesis by (simp add: mmap_engine_free_def domIff fun_upd_idem)
next
  case False
  then obtain e where e: "map_of (fs_heap st) h = Some e"
    and st': "st' = st\<lparr>fs_heap := AList.delete h (fs_heap st), fs_trace := mmap_drop (fe_os fe) (en_mmap e) (fs_trace st)\<rparr>"
    using o by (auto simp: mmap_engine_free_def split: option.splits)
  obtain evs where ev: "mmap_drop (fe_os fe) (en_mmap e) (fs_trace st) = fs_trace st @ evs"
    "\<forall>x\<in>set evs. \<forall>q. unmaps q x \<longrightarrow> q = mf_ptr (en_mmap e)" "env_trace (fe_os fe) (fs_trace st @ evs)"
    using mmap_drop_releases [where env = "fe_os fe" and f = "en_mmap e" and tr = "fs_trace st"] ffi_invD(1) [OF inv] unfolding releases_def by metis
  have "engine_ok fe (files p) e' (fs_trace st @ evs)"
    if k: "map_of (fs_heap st) k = Some e'" "ow k = Some p" "k \<noteq> h" for k e' p
  proof (cases "mf_size (en_mmap e') = 0 \<or> mf_ptr (en_mmap e') \<noteq> mf_ptr (en_mmap e)")
    case True
    with ffi_invD(5) [OF inv k(1,2)] ev(2) show ?thesis
      using file_live_empty file_live_later unfolding engine_ok_def by blast
  next
    case False
    then have "mf_size (en_mmap e) = 0" using ffi_invD(6) [OF inv] e k unfolding apart_def by metis
    obtain q where "ow h = Some q" using e ffi_invD(3) [OF inv] by (metis domD domI)
    then have "file_shape (en_mmap e)" "file_shape (en_mmap e')"
      using ffi_invD(5) [OF inv e] ffi_invD(5) [OF inv k(1,2)] by (simp_all add: engine_ok_def)
    with \<open>mf_size (en_mmap e) = 0\<close> False show ?thesis by (auto simp: file_shape_def)
  qed
  with ffi_invD [OF inv] ev e show ?thesis
    unfolding ffi_inv_def st' by (auto simp: delete_conv' apart_def error_ok_def split: if_splits)
qed

lemma get_chunk_state:
  "mmap_engine_get_chunk h i nul st = Some (r, v, st') \<Longrightarrow> st' = clear_error st \<or> (\<exists>msg. st' = set_error msg (clear_error st))"
  by (auto simp: mmap_engine_get_chunk_def Let_def split: option.splits if_splits)

lemma ffi_init_inv: "env_trace (fe_os fe) tr0 \<Longrightarrow> ffi_inv fe files Map.empty (ffi_init tr0)"
  by (simp add: ffi_inv_def ffi_init_def error_ok_def apart_def MAX_ERROR_LEN_def)

lemma ffi_reach_inv:
  assumes "os_contract (fe_os fe) files" "box_ok fe" "env_trace (fe_os fe) tr0" "ffi_reach fe tr0 st ow"
  shows "ffi_inv fe files ow st"
  using assms(4)
proof induction
  case start
  show ?case by (rule ffi_init_inv [OF assms(3)])
next
  case (opened st ow path h st')
  then show ?case using engine_open_inv(1) [OF assms(1,2)] by blast
next
  case (opened_pinned st ow path flags h st')
  then show ?case using engine_open_inv(2) [OF assms(1,2)] by blast
next
  case (run st ow h op n st')
  show ?case
  proof (cases "h = 0")
    case True
    with run show ?thesis by (auto simp: engine_run_null ffi_inv_set_error ffi_inv_clear_error)
  next
    case False
    then obtain p where p: "ow h = Some p" using run.hyps by blast
    from engine_run_live [OF run.IH p run.hyps(3)] obtain e where
      "map_of (fs_heap st) h = Some e" "engine_run fe h op st = Some (engine_effect fe h e (files p) op st)" by metis
    with engine_effect_inv [OF run.IH _ p run.hyps(3)] run.hyps(4) show ?thesis by (metis option.inject snd_conv)
  qed
next
  case (view st ow h i nul r v st')
  then show ?case using get_chunk_state ffi_inv_set_error ffi_inv_clear_error by metis
next
  case (freed st ow h st')
  then show ?case using engine_free_inv by blast
next
  case (other st ow st' evs)
  show ?case
    using other by (intro ffi_inv_later [OF other.IH other.hyps(2)]) (auto dest: map_of_SomeD)
qed

subsection \<open>Views and planning calls\<close>

lemma engine_bytes:
  assumes "ffi_inv fe files ow st" "map_of (fs_heap st) h = Some e" "ow h = Some p"
  shows "engine_data fe e st = files p" "mmap_len (en_mmap e) = length (files p)" "valid_slice (files p)"
    "plan_ok (length (files p)) (en_plan e)" "length (files p) \<le> usize_max"
proof -
  have l: "file_live (fe_os fe) (files p) (en_mmap e) (fs_trace st)" "plan_ok (length (files p)) (en_plan e)"
    using ffi_invD(5) [OF assms] by (simp_all add: engine_ok_def)
  show "engine_data fe e st = files p" using file_live_bytes [OF l(1) ffi_invD(1) [OF assms(1)]]
    by (simp add: engine_data_def mmap_as_slice_def)
  show "mmap_len (en_mmap e) = length (files p)" "valid_slice (files p)" using l(1) by (simp_all add: file_live_def mmap_len_def)
  then show "length (files p) \<le> usize_max" using valid_slice_usize less_imp_le by blast
qed (use assms in \<open>auto dest: ffi_invD(5) simp: engine_ok_def\<close>)

lemma read_mem_sub:
  assumes "mmap_as_bytes env tr f = content" "a < b" "b \<le> length content"
  shows "read_mem env tr (mf_ptr f + a) (b - a) = subslice content (a, b)"
proof -
  have "content = read_mem env tr (mf_ptr f) (mf_size f)" using assms by (auto simp: mmap_as_bytes_def split: if_splits)
  then have "\<And>i. i < length content \<Longrightarrow> content ! i = env_mem env tr (mf_ptr f + i)"
    by (simp add: read_mem_def nth_map_upt)
  with assms(2,3) show ?thesis
    by (auto simp: read_mem_def subslice_def add.assoc intro!: nth_equalityI)
qed

lemma view_spec:
  assumes inv: "ffi_inv fe files ow st" and e: "map_of (fs_heap st) h = Some e" and p: "ow h = Some p"
    and i: "i < plan_len (en_plan e)"
  obtains a b where "range_at (en_plan e) i (length (files p)) = Some (a, b)" "a < b" "b \<le> length (files p)"
    "mmap_engine_get_chunk h i False st =
       Some (0, Some \<lparr>cv_data = mf_ptr (en_mmap e) + a, cv_len = b - a\<rparr>, clear_error st)"
    "read_mem (fe_os fe) (fs_trace st) (mf_ptr (en_mmap e) + a) (b - a) = subslice (files p) (a, b)"
proof -
  note eb = engine_bytes [OF inv e p]
  obtain a b where ab: "range_at (en_plan e) i (length (files p)) = Some (a, b)"
    using range_at_Some_iff [OF eb(4,5), of i] i by auto
  have lt: "a < b" "b \<le> length (files p)" using range_at_in_bounds [OF eb(4,5) ab] by simp_all
  have "h \<noteq> 0" using ffi_invD(4) [OF inv] p by auto
  then have "mmap_engine_get_chunk h i False st =
      Some (0, Some \<lparr>cv_data = mf_ptr (en_mmap e) + a, cv_len = b - a\<rparr>, clear_error st)"
    using e i ab eb(2) by (simp add: mmap_engine_get_chunk_def mmap_as_ptr_def Let_def)
  moreover have "read_mem (fe_os fe) (fs_trace st) (mf_ptr (en_mmap e) + a) (b - a) = subslice (files p) (a, b)"
    using eb(1) lt by (intro read_mem_sub) (simp_all add: engine_data_def mmap_as_slice_def)
  ultimately show thesis using ab lt by (intro that)
qed

lemma write_ranges_spec:
  "i + length rs \<le> length buf \<Longrightarrow> write_ranges buf i rs = Some (take i buf @ rs @ drop (i + length rs) buf)"
proof (induction rs arbitrary: buf i)
  case (Cons r rs)
  then have "write_ranges buf i (r # rs) = Some (take (i + 1) (buf[i := r]) @ rs @ drop (i + 1 + length rs) (buf[i := r]))"
    by simp
  moreover have "take (i + 1) (buf[i := r]) = take i buf @ [r]" using Cons.prems by (simp add: take_Suc_conv_app_nth)
  ultimately show ?case using Cons.prems by simp
qed simp

lemma write_ranges_start:
  "length rs \<le> length buf \<Longrightarrow> write_ranges buf 0 rs = Some (rs @ drop (length rs) buf)"
  using write_ranges_spec [of 0 rs buf] by simp

text \<open>One planning call, whatever the state it starts in.\<close>

lemma plan_call_spec:
  assumes c: "os_contract (fe_os fe) files" "env_trace (fe_os fe) (fs_trace st)" and R: "run_res (fs_trace st) R0 = Some R"
    and args: "plan_argument_error (Some path) n delimiter dlen out_ranges capacity False = None" "mode_of mode = Some m"
    and safe: "buffer_ok delimiter dlen" "case out_ranges of None \<Rightarrow> True | Some buf \<Rightarrow> capacity \<le> length buf" "n \<le> usize_max"
  shows "\<exists>r st'. mmap_engine_plan_partition_ranges fe (Some path) n delimiter dlen mode window_bytes out_ranges capacity False st = Some (r, st') \<and>
     run_res (fs_trace st') R0 = Some R \<and> fs_heap st' = fs_heap st \<and>
     (let buf = (case out_ranges of None \<Rightarrow> [] | Some b \<Rightarrow> b); content = files (cstr_to_path (fe_pf fe) (fe_os fe) path);
          rs = plan_spec (record_cut (take dlen (the delimiter)) content) (length content) (min n (length content))
      in r = \<lparr>pr_status = -1, pr_count = None, pr_ranges = buf\<rparr> \<and>
           (\<exists>error st1. st' = set_error (planning_failed error) st1) \<or>
         r = (if length rs > capacity then \<lparr>pr_status = -2, pr_count = Some (length rs), pr_ranges = buf\<rparr>
              else \<lparr>pr_status = 0, pr_count = Some (length rs), pr_ranges = rs @ drop (length rs) buf\<rparr>) \<and>
           fs_error st' = fs_error (clear_error st))"
proof -
  let ?buf = "case out_ranges of None \<Rightarrow> [] | Some b \<Rightarrow> b" and ?owned = "cstr_to_path (fe_pf fe) (fe_os fe) path"
  let ?rs = "plan_spec (record_cut (take dlen (the delimiter)) (files ?owned)) (length (files ?owned)) (min n (length (files ?owned)))"
  have "delimiter_error delimiter dlen = None" using args(1) by (auto simp: plan_argument_error_def split: option.splits)
  then obtain d where d: "delimiter = Some d" "raw_parts delimiter dlen = Some (take dlen d)" "take dlen d \<noteq> []" "valid_slice (take dlen d)"
    using safe(1) by (rule delimiter_error_None)
  have "capacity = 0 \<or> out_ranges \<noteq> None" using args(1) by (auto simp: plan_argument_error_def split: option.splits if_splits)
  then have cap: "capacity \<le> length ?buf" using safe(2) by (auto split: option.splits)
  have "length ?rs \<le> n" by (rule order_trans [OF rec.plan_spec_count]) simp
  then have sl: "slen ?rs = length ?rs" using safe(3) by (simp add: slen_def)
  let ?opts = "with_window_bytes (planner_new m) window_bytes"
  obtain r tr' where run: "plan_partition_ranges (fe_pf fe) (fe_os fe) (fe_alloc fe) (fe_bptr fe) ?owned n (take dlen d) ?opts (fs_trace st) = Ret (r, tr')"
    "run_res tr' R0 = Some R" "\<And>rs. r = Inr rs \<Longrightarrow> rs = ?rs"
    using plan_partition_ranges_spec [OF c R d(4,3)] d(1) by (metis option.sel)
  have eq: "mmap_engine_plan_partition_ranges fe (Some path) n delimiter dlen mode window_bytes out_ranges capacity False st =
      (case r of
         Inl error \<Rightarrow> Some (\<lparr>pr_status = -1, pr_count = None, pr_ranges = ?buf\<rparr>,
           set_error (planning_failed error) ((clear_error st)\<lparr>fs_trace := tr'\<rparr>))
       | Inr ranges \<Rightarrow> finish_plan ranges ?buf capacity ((clear_error st)\<lparr>fs_trace := tr'\<rparr>))"
    using args d(2) run(1) by (simp add: mmap_engine_plan_partition_ranges_def Let_def split: sum.split)
  show ?thesis
  proof (cases r)
    case (Inl error)
    with eq run(2) show ?thesis by auto
  next
    case (Inr rs)
    have "finish_plan ?rs ?buf capacity st1 =
        Some (if length ?rs > capacity then \<lparr>pr_status = -2, pr_count = Some (length ?rs), pr_ranges = ?buf\<rparr>
              else \<lparr>pr_status = 0, pr_count = Some (length ?rs), pr_ranges = ?rs @ drop (length ?rs) ?buf\<rparr>, st1)" for st1
      using cap sl write_ranges_start [of ?rs ?buf] by (auto simp: finish_plan_def)
    with eq Inr run(2) run(3) [OF Inr] show ?thesis by (simp add: Let_def)
  qed
qed

text \<open>The state after reporting some error.\<close>

definition error_set :: "ffi_state \<Rightarrow> bool" where
  "error_set st' \<longleftrightarrow> (\<exists>msg st1. msg \<noteq> [] \<and> st' = set_error msg st1)"

lemma error_setI: "msg \<noteq> [] \<Longrightarrow> error_set (set_error msg st1)"
  by (auto simp: error_set_def)

lemma open_engine_outcome:
  assumes c: "os_contract (fe_os fe) files" "box_ok fe"
    and o: "open_engine fe path pin s = (h, st')" and r: "run_res (fs_trace s) R0 = Some R" "env_trace (fe_os fe) (fs_trace s)"
  shows "(h = 0 \<longrightarrow> fs_heap st' = fs_heap s \<and> run_res (fs_trace st') R0 = Some R \<and> error_set st') \<and>
     (h \<noteq> 0 \<longrightarrow> (\<exists>e. map_of (fs_heap s) h = None \<and> fs_heap st' = AList.update h e (fs_heap s) \<and>
          map_of (fs_heap st') = (map_of (fs_heap s))(h \<mapsto> e) \<and> en_plan e = PlanEmpty \<and>
          run_res (fs_trace st') R0 = Some (file_res (en_mmap e) R) \<and> en_pin e = pin \<and>
          fst (mmap_open (fe_pf fe) (fe_os fe) path (fs_trace s)) = Some (en_mmap e))) \<and>
     (h = 0 \<longleftrightarrow> fst (mmap_open (fe_pf fe) (fe_os fe) path (fs_trace s)) = None)"
proof -
  obtain q tr where m: "mmap_open (fe_pf fe) (fe_os fe) path (fs_trace s) = (q, tr)" by force
  note res = mmap_open_res [OF m r(1)]
  show ?thesis
  proof (cases q)
    case None
    obtain v t1 where p: "probe_cstr_eligible (fe_pf fe) (fe_os fe) path tr = (v, t1)" by force
    then have "run_res t1 R0 = Some R" using probe_res res None by (auto simp: probe_cstr_eligible_def Let_def)
    with o m None p show ?thesis
      by (auto simp: open_engine_def open_failure_def split: sum.splits if_splits intro!: error_setI)
  next
    case (Some f)
    have "file_shape f \<and> (fe_pf fe = Unix \<longrightarrow> (\<exists>fd. mf_handles f = UnixFd fd))"
      using mmap_open_live [OF c(1) r(2) m [unfolded Some]] by blast
    then have "run_res (advise_sequential (fe_pf fe) (fe_os fe) f tr) R0 = Some (file_res f R)"
      using res Some by (intro advise_res) auto
    moreover have "map_of (fs_heap s) (fe_box fe (fs_heap s)) = None" "fe_box fe (fs_heap s) \<noteq> 0"
      using c(2) by (auto simp: box_ok_def map_of_eq_None_iff)
    ultimately show ?thesis
      using o m Some by (auto simp: open_engine_def Let_def update_conv' plan_empty_def)
  qed
qed

subsection \<open>Accounting for the resources of all live handles\<close>

text \<open>
  What the live handles own together, on top of what the rest of the process owns; and the state of
  the accounts: the open operating-system handles and the live mappings after the whole run of
  the process are those of the rest and of each live handle, as multisets.
\<close>

definition heap_res :: "(nat \<times> engine) list \<Rightarrow> resources \<Rightarrow> resources" where
  "heap_res H R = foldr (\<lambda>(h, e). file_res (en_mmap e)) H R"

definition accounted :: "ffi_state \<Rightarrow> resources \<Rightarrow> bool" where
  "accounted st R \<longleftrightarrow>
     (\<exists>S. run_res (fs_trace st) no_resources = Some S \<and> res_same S (heap_res (fs_heap st) R))"

lemma heap_res_simps [simp]:
  "heap_res [] R = R" "heap_res ((h, e) # H) R = file_res (en_mmap e) (heap_res H R)"
  by (simp_all add: heap_res_def)

lemma res_same_sym: "res_same R S \<Longrightarrow> res_same S R"
  by (simp add: res_same_def)

lemma heap_res_new:
  "map_of H h = None \<Longrightarrow> res_same (heap_res (AList.update h e H) R) (file_res (en_mmap e) (heap_res H R))"
proof (induction H)
  case (Cons x H)
  obtain k y where x: "x = (k, y)" by (cases x)
  have "res_same (heap_res (AList.update h e H) R) (file_res (en_mmap e) (heap_res H R))"
    using Cons x by (auto split: if_splits)
  from res_same_trans [OF file_res_same [OF this] file_res_swap] Cons.prems x show ?case by (auto split: if_splits)
qed simp

lemma heap_res_plan:
  "map_of H h = Some e \<Longrightarrow> heap_res (AList.update h (e\<lparr>en_plan := pl\<rparr>) H) R = heap_res H R"
  by (induction H) (auto split: if_splits)

lemma heap_res_without:
  assumes "distinct (map fst H)" "map_of H h = Some e"
  shows "res_same (heap_res H R) (file_res (en_mmap e) (heap_res (AList.delete h H) R))"
  using assms
proof (induction H)
  case (Cons x H)
  obtain k y where x: "x = (k, y)" by (cases x)
  show ?case
  proof (cases "k = h")
    case True
    with Cons.prems x have "AList.delete h (x # H) = H" "y = e"
      by (auto simp: delete_id image_iff)
    with x show ?thesis by simp
  next
    case False
    with Cons x have "res_same (heap_res H R) (file_res (en_mmap e) (heap_res (AList.delete h H) R))" by simp
    from res_same_trans [OF file_res_same [OF this] file_res_swap] False x show ?thesis by simp
  qed
qed simp

text \<open>
  The runs of \<open>ffi_reach\<close>, with the resources \<open>R\<close> of the rest of the process: they are those held
  before the first call, and whatever the process does between the calls changes only them.
\<close>

inductive ffi_use :: "ffi_env \<Rightarrow> trace \<Rightarrow> ffi_state \<Rightarrow> (nat \<rightharpoonup> path) \<Rightarrow> resources \<Rightarrow> bool" for fe tr0 where
  start: "run_res tr0 no_resources = Some R \<Longrightarrow> ffi_use fe tr0 (ffi_init tr0) Map.empty R"
| opened: "ffi_use fe tr0 st ow R \<Longrightarrow> mmap_engine_open fe path st = (h, st') \<Longrightarrow>
    ffi_use fe tr0 st' (owner_after fe path h ow) R"
| opened_pinned: "ffi_use fe tr0 st ow R \<Longrightarrow> mmap_engine_open_pinned fe path flags st = (h, st') \<Longrightarrow>
    ffi_use fe tr0 st' (owner_after fe path h ow) R"
| run: "ffi_use fe tr0 st ow R \<Longrightarrow> h = 0 \<or> h \<in> dom ow \<Longrightarrow> eop_ok op \<Longrightarrow> engine_run fe h op st = Some (n, st') \<Longrightarrow>
    ffi_use fe tr0 st' ow R"
| view: "ffi_use fe tr0 st ow R \<Longrightarrow> h = 0 \<or> h \<in> dom ow \<Longrightarrow> mmap_engine_get_chunk h i nul st = Some (r, v, st') \<Longrightarrow>
    ffi_use fe tr0 st' ow R"
| freed: "ffi_use fe tr0 st ow R \<Longrightarrow> h = 0 \<or> h \<in> dom ow \<Longrightarrow> mmap_engine_free fe h st = Some st' \<Longrightarrow>
    ffi_use fe tr0 st' (ow(h := None)) R"
| other: "ffi_use fe tr0 st ow R \<Longrightarrow> fs_trace st' = fs_trace st @ evs \<Longrightarrow> env_trace (fe_os fe) (fs_trace st') \<Longrightarrow>
    \<forall>(h, e)\<in>set (fs_heap st). \<forall>x\<in>set evs. \<not> unmaps (mf_ptr (en_mmap e)) x \<Longrightarrow>
    fs_heap st' = fs_heap st \<Longrightarrow> error_ok st' \<Longrightarrow> accounted st' R' \<Longrightarrow> ffi_use fe tr0 st' ow R'"

lemma ffi_use_reach: "ffi_use fe tr0 st ow R \<Longrightarrow> ffi_reach fe tr0 st ow"
  by (induction rule: ffi_use.induct) (blast intro: ffi_reach.intros)+

text \<open>Planning without a handle leaves the accounts as they are.\<close>

lemma plan_call_accounted:
  assumes "os_contract (fe_os fe) files" "env_trace (fe_os fe) (fs_trace st)" "accounted st R"
    "plan_argument_error (Some path) n delimiter dlen out_ranges capacity False = None" "mode_of mode = Some m"
    "buffer_ok delimiter dlen" "case out_ranges of None \<Rightarrow> True | Some buf \<Rightarrow> capacity \<le> length buf" "n \<le> usize_max"
    "mmap_engine_plan_partition_ranges fe (Some path) n delimiter dlen mode w out_ranges capacity False st = Some (r, st')"
  shows "accounted st' R"
proof -
  obtain S where S: "run_res (fs_trace st) no_resources = Some S" "res_same S (heap_res (fs_heap st) R)"
    using assms(3) by (auto simp: accounted_def)
  from plan_call_spec [OF assms(1,2) S(1) assms(4-8), of w] assms(9) S(2) show ?thesis
    by (auto simp: accounted_def)
qed

lemma open_accounted:
  assumes "res_same S (heap_res H R)" "map_of H h = None"
  shows "res_same (file_res (en_mmap e) S) (heap_res (AList.update h e H) R)"
  using res_same_trans [OF file_res_same [OF assms(1)] res_same_sym [OF heap_res_new [OF assms(2)]]] .

lemma engine_open_account:
  assumes c: "os_contract (fe_os fe) files" "box_ok fe" and inv: "ffi_inv fe files ow st"
    and S: "run_res (fs_trace st) R0 = Some S"
    and o: "mmap_engine_open fe path st = (h, st') \<or> mmap_engine_open_pinned fe path flags st = (h, st')"
  shows "fs_heap st' = fs_heap st \<and> run_res (fs_trace st') R0 = Some S \<or>
     (\<exists>e. map_of (fs_heap st) h = None \<and> fs_heap st' = AList.update h e (fs_heap st) \<and>
        run_res (fs_trace st') R0 = Some (file_res (en_mmap e) S))"
proof -
  have eng: ?thesis if "open_engine fe c_str pin st1 = (h, st')" "fs_heap st1 = fs_heap st"
    "run_res (fs_trace st1) R0 = Some S" "env_trace (fe_os fe) (fs_trace st1)" for c_str pin st1
    using open_engine_outcome [OF c that(1,3,4)] that(2) by (cases "h = 0") auto
  from o show ?thesis
  proof
    assume "mmap_engine_open fe path st = (h, st')"
    with eng [of _ None "clear_error st"] S ffi_invD(1) [OF inv] show ?thesis
      by (cases path) (auto simp: mmap_engine_open_def Let_def)
  next
    assume p: "mmap_engine_open_pinned fe path flags st = (h, st')"
    show ?thesis
    proof (cases "path = None \<or> flags AND NOT PIN_ALL \<noteq> 0")
      case True
      with p S show ?thesis by (cases path) (auto simp: mmap_engine_open_pinned_def Let_def)
    next
      case False
      then obtain c_str where path: "path = Some c_str" by auto
      obtain q tr where k: "capture_at (fe_pf fe) (fe_os fe) (cstr_to_path (fe_pf fe) (fe_os fe) c_str) flags (fs_trace st) = (q, tr)"
        by force
      have t: "run_res tr R0 = Some S" "env_trace (fe_os fe) tr"
        using capture_at_trace [OF k] S ffi_invD(1) [OF inv] by auto
      show ?thesis
      proof (cases q)
        case (Inl error)
        with p path k False t show ?thesis by (auto simp: mmap_engine_open_pinned_def Let_def)
      next
        case (Inr pin)
        with p path k False have "open_engine fe c_str (Some pin) ((clear_error st)\<lparr>fs_trace := tr\<rparr>) = (h, st')"
          by (simp add: mmap_engine_open_pinned_def Let_def)
        from eng [OF this] t show ?thesis by simp
      qed
    qed
  qed
qed

lemma engine_effect_account:
  assumes "map_of (fs_heap st) h = Some e" "engine_effect fe h e content op st = (n, st')"
  shows "run_res (fs_trace st') R0 = run_res (fs_trace st) R0 \<and>
     (fs_heap st' = fs_heap st \<or> (\<exists>pl. fs_heap st' = AList.update h (e\<lparr>en_plan := pl\<rparr>) (fs_heap st)))"
proof -
  obtain r st1 where k: "check_engine_pin fe e (clear_error st) = (r, st1)" by force
  have "run_res (sys_do (fe_os fe) (SysStat p) tr) R0 = run_res tr R0" for p tr
    by (cases "run_res tr R0") simp_all
  then have "run_res (fs_trace st1) R0 = run_res (fs_trace st) R0" "fs_heap st1 = fs_heap st"
    using check_engine_pin_state [OF k] by auto
  with assms(2) k show ?thesis
    by (auto simp: engine_effect_def Let_def install_def put_plan_def split: option.splits sum.splits if_splits)
qed

lemma free_account:
  assumes c: "os_contract (fe_os fe) files" and inv: "ffi_inv fe files ow st"
    and acc: "accounted st R" "distinct (map fst (fs_heap st))"
    and f: "mmap_engine_free fe h st = Some st'" and e: "map_of (fs_heap st) h = Some e" "h \<noteq> 0"
  shows "\<exists>S S'. run_res (fs_trace st) no_resources = Some S \<and> res_same S (heap_res (fs_heap st) R) \<and>
     run_res (fs_trace st') no_resources = Some S' \<and> res_same S' (heap_res (fs_heap st') R) \<and>
     res_same S (file_res (en_mmap e) S') \<and> fs_heap st' = AList.delete h (fs_heap st)"
proof -
  obtain S where S: "run_res (fs_trace st) no_resources = Some S" "res_same S (heap_res (fs_heap st) R)"
    using acc(1) by (auto simp: accounted_def)
  let ?rest = "heap_res (AList.delete h (fs_heap st)) R"
  have same: "res_same S (file_res (en_mmap e) ?rest)"
    by (rule res_same_trans [OF S(2) heap_res_without [OF acc(2) e(1)]])
  have shape: "file_shape (en_mmap e)"
  proof -
    obtain p where "ow h = Some p" using e(1) ffi_invD(3) [OF inv] by blast
    from ffi_invD(5) [OF inv e(1) this] show ?thesis by (simp add: engine_ok_def)
  qed
  have "mf_size (en_mmap e) \<noteq> 0 \<Longrightarrow> mf_ptr (en_mmap e) \<notin> fst ` set (res_maps ?rest)"
    using held_file_apart [OF held_maps_once [OF c ffi_invD(1) [OF inv] S(1)] same shape] .
  from drop_any_res [OF shape S(1) same this] obtain S' where
    S': "run_res (mmap_drop (fe_os fe) (en_mmap e) (fs_trace st)) no_resources = Some S'" "res_same S' ?rest"
    by auto
  have "res_same S (file_res (en_mmap e) S')"
    using res_same_trans [OF same] file_res_same [OF res_same_sym [OF S'(2)]] by blast
  with S S' f e show ?thesis by (auto simp: mmap_engine_free_def)
qed

lemma ffi_use_accounts:
  assumes c: "os_contract (fe_os fe) files" "box_ok fe" "env_trace (fe_os fe) tr0" and u: "ffi_use fe tr0 st ow R"
  shows "accounted st R \<and> distinct (map fst (fs_heap st))"
  using u
proof induction
  case (start R)
  then show ?case by (simp add: accounted_def ffi_init_def)
next
  case (opened st ow R path h st')
  have inv: "ffi_inv fe files ow st" by (rule ffi_reach_inv [OF c ffi_use_reach [OF opened.hyps(1)]])
  from opened.IH obtain S where "run_res (fs_trace st) no_resources = Some S" "res_same S (heap_res (fs_heap st) R)"
    by (auto simp: accounted_def)
  with engine_open_account [OF c(1,2) inv _ disjI1 [OF opened.hyps(2)], of no_resources S] opened.IH show ?case
    by (auto simp: accounted_def distinct_update intro: open_accounted)
next
  case (opened_pinned st ow R path flags h st')
  have inv: "ffi_inv fe files ow st" by (rule ffi_reach_inv [OF c ffi_use_reach [OF opened_pinned.hyps(1)]])
  from opened_pinned.IH obtain S where "run_res (fs_trace st) no_resources = Some S" "res_same S (heap_res (fs_heap st) R)"
    by (auto simp: accounted_def)
  with engine_open_account [OF c(1,2) inv _ disjI2 [OF opened_pinned.hyps(2)], of no_resources S] opened_pinned.IH show ?case
    by (auto simp: accounted_def distinct_update intro: open_accounted)
next
  case (run st ow R h op n st')
  have inv: "ffi_inv fe files ow st" by (rule ffi_reach_inv [OF c ffi_use_reach [OF run.hyps(1)]])
  show ?case
  proof (cases "h = 0")
    case True
    with run show ?thesis by (auto simp: engine_run_null accounted_def)
  next
    case False
    then obtain p where p: "ow h = Some p" using run.hyps by blast
    from engine_run_live [OF inv p run.hyps(3)] obtain e where
      e: "map_of (fs_heap st) h = Some e" "engine_run fe h op st = Some (engine_effect fe h e (files p) op st)" by metis
    with run.hyps(4) have "engine_effect fe h e (files p) op st = (n, st')" by simp
    from engine_effect_account [OF e(1) this, of no_resources] run.IH heap_res_plan [OF e(1)] show ?thesis
      by (auto simp: accounted_def distinct_update)
  qed
next
  case (view st ow R h i nul r v st')
  then show ?case using get_chunk_state [OF view.hyps(3)] by (auto simp: accounted_def)
next
  case (freed st ow R h st')
  have inv: "ffi_inv fe files ow st" by (rule ffi_reach_inv [OF c ffi_use_reach [OF freed.hyps(1)]])
  show ?case
  proof (cases "h = 0")
    case True
    with freed show ?thesis by (simp add: mmap_engine_free_def)
  next
    case False
    then obtain e where e: "map_of (fs_heap st) h = Some e"
      using freed.hyps(3) by (auto simp: mmap_engine_free_def split: option.splits)
    from free_account [OF c(1) inv _ _ freed.hyps(3) e False, of R] freed.IH show ?thesis
      by (auto simp: accounted_def distinct_delete)
  qed
next
  case (other st ow R st' evs R')
  then show ?case by simp
qed

subsection \<open>Claims\<close>

text \<open>
  Claim C36: the error buffer of a thread round-trips. In every reachable state, a text that is set
  is read back up to 255 bytes, clearing it leaves no error, and what \<open>last_error\<close> returns is
  always a non-empty, terminated text of at most 255 bytes.
\<close>

theorem ffi_error_roundtrip:
  assumes "os_contract (fe_os fe) files" "box_ok fe" "env_trace (fe_os fe) tr0" "ffi_reach fe tr0 st ow"
  shows "(\<forall>msg. msg \<noteq> [] \<and> CHR 0x00 \<notin> set msg \<and> length msg \<le> isize_max \<longrightarrow>
       mmap_engine_last_error (set_error msg st) = Some (take 255 msg)) \<and>
     mmap_engine_last_error (clear_error st) = None \<and>
     (\<forall>t. mmap_engine_last_error st = Some t \<longrightarrow> t \<noteq> [] \<and> length t \<le> 255 \<and> CHR 0x00 \<notin> set t)"
proof -
  have ok: "error_ok st" by (rule ffi_invD(2) [OF ffi_reach_inv [OF assms]])
  then have l: "length (fs_error st) = 256" "CHR 0x00 \<in> set (fs_error st)"
    by (simp_all add: error_ok_def MAX_ERROR_LEN_def)
  have "length (takeWhile (\<lambda>c. c \<noteq> CHR 0x00) (fs_error st)) < length (fs_error st)"
    using l(2) by (rule takeWhile_shorter)
  moreover have "takeWhile (\<lambda>c. c \<noteq> CHR 0x00) (fs_error st) \<noteq> []" if "fs_error st ! 0 \<noteq> CHR 0x00"
    using that l(1) by (cases "fs_error st") auto
  moreover have "CHR 0x00 \<notin> set (takeWhile (\<lambda>c. c \<noteq> CHR 0x00) (fs_error st))" by (auto dest: set_takeWhileD)
  ultimately have "\<forall>t. mmap_engine_last_error st = Some t \<longrightarrow> t \<noteq> [] \<and> length t \<le> 255 \<and> CHR 0x00 \<notin> set t"
    using l(1) by (simp add: mmap_engine_last_error_def)
  with last_error_set [OF ok] last_error_cleared [OF ok] show ?thesis by blast
qed

text \<open>A concrete environment for the witnesses.\<close>

definition sim_ffi :: ffi_env where
  "sim_ffi = \<lparr>fe_pf = Unix, fe_os = sim_env (\<lambda>_. [97, 10, 98]), fe_box = (\<lambda>H. Suc (sum_list (map fst H))),
     fe_alloc = (\<lambda>_. True), fe_bptr = 0\<rparr>"

lemma sim_ffi_ok: "os_contract (fe_os sim_ffi) (\<lambda>_. [97, 10, 98])" "box_ok sim_ffi" "env_trace (fe_os sim_ffi) []"
proof -
  have "k \<noteq> Suc (sum_list (map fst H))" if "(k, e) \<in> set H" for k e and H :: "(nat \<times> engine) list"
    using member_le_sum_list [of k "map fst H"] that by force
  then show "box_ok sim_ffi" by (force simp: box_ok_def sim_ffi_def)
qed (simp_all add: sim_ffi_def sim_chunker_contract)

lemma sim_mmap_open: "fst (mmap_open Unix (sim_env (\<lambda>_. [97, 10, 98])) ''f'' tr) \<noteq> None"
  by (auto simp: mmap_open_def probe_cstr_eligible_def probe_mmap_eligible_def probe_verdict_def open_unix_def Let_def
      sys_call_def usize_try_from_def sim_unit_def sim_addr_def MAP_FAILED_def split: prod.splits)

lemma sim_ffi_open:
  obtains h st where "mmap_engine_open sim_ffi (Some ''f'') (ffi_init []) = (h, st)" "h \<noteq> 0"
    "ffi_reach sim_ffi [] st [h \<mapsto> ''f'']"
    "run_res (fs_trace (ffi_init [])) \<lparr>res_handles = [], res_maps = []\<rparr> = Some \<lparr>res_handles = [], res_maps = []\<rparr>"
proof -
  obtain r tr where o: "mmap_open Unix (sim_env (\<lambda>_. [97, 10, 98])) ''f'' [] = (r, tr)" by force
  moreover have "\<exists>f. r = Some f"
    using o by (auto simp: mmap_open_def probe_cstr_eligible_def probe_mmap_eligible_def
        probe_verdict_def open_unix_def Let_def sys_call_def usize_try_from_def sim_unit_def sim_addr_def MAP_FAILED_def)
  ultimately obtain h st where hs: "mmap_engine_open sim_ffi (Some ''f'') (ffi_init []) = (h, st)" "h \<noteq> 0"
    by (auto simp: mmap_engine_open_def open_engine_def sim_ffi_def ffi_init_def clear_error_def Let_def)
  have "ffi_reach sim_ffi [] st (owner_after sim_ffi (Some ''f'') h Map.empty)"
    by (rule ffi_reach.opened [OF ffi_reach.start hs(1)])
  with hs show thesis by (intro that) (simp_all add: owner_after_def cstr_to_path_def sim_ffi_def ffi_init_def)
qed

theorem ffi_error_roundtrip_witness:
  "ffi_reach sim_ffi [] (ffi_init []) Map.empty \<and>
   mmap_engine_last_error (set_error ''handle is null'' (ffi_init [])) = Some (take 255 ''handle is null'')"
proof -
  have r: "ffi_reach sim_ffi [] (ffi_init []) Map.empty" by (rule ffi_reach.start)
  have "''handle is null'' \<noteq> [] \<and> CHR 0x00 \<notin> set ''handle is null'' \<and> length ''handle is null'' \<le> isize_max"
    by (simp add: max_consts)
  with r ffi_error_roundtrip [OF sim_ffi_ok r] show ?thesis by blast
qed

text \<open>
  Claim C33: a scan or partition call on a live handle always returns. Rejected arguments, a
  changed pinned file and a caught panic give zero and an error text and leave the layout of the
  handle untouched; otherwise the call installs exactly the layout of the reference definitions
  for the bytes of the file, returns its length and leaves no error. Other handles are not
  affected. The text for a panic is produced exactly when a chunk scan cannot allocate its result
  vector, which takes a file of more than \<open>2 ^ 58\<close> bytes and a chunk size below 32.
\<close>

theorem ffi_ops_refine:
  assumes "os_contract (fe_os fe) files" "box_ok fe" "env_trace (fe_os fe) tr0" "ffi_reach fe tr0 st ow"
    "ow h = Some p" "eop_ok op"
  shows "\<exists>e n st'. map_of (fs_heap st) h = Some e \<and> engine_run fe h op st = Some (n, st') \<and>
     (\<forall>k. k \<noteq> h \<longrightarrow> map_of (fs_heap st') k = map_of (fs_heap st) k) \<and>
     (case eop_error op of
        Some msg \<Rightarrow> n = 0 \<and> map_of (fs_heap st') h = Some e \<and> mmap_engine_last_error st' = Some msg
      | None \<Rightarrow>
          (case check_engine_pin fe e (clear_error st) of
             (Inl m, st1) \<Rightarrow> n = 0 \<and> map_of (fs_heap st') h = Some e \<and> st' = set_error (pin_message m) st1
           | (Inr _, _) \<Rightarrow>
               if eop_zero (files p) op
               then n = 0 \<and> map_of (fs_heap st') h = Some e \<and>
                 mmap_engine_last_error st' = Some ''requested_partitions must be > 0''
               else if eop_panics (files p) op
               then n = 0 \<and> map_of (fs_heap st') h = Some e \<and> mmap_engine_last_error st' = Some (panic_text op)
               else n = plan_len (op_layout (files p) (eop_rust op)) \<and>
                 map_of (fs_heap st') h = Some (e\<lparr>en_plan := op_layout (files p) (eop_rust op)\<rparr>) \<and>
                 mmap_engine_last_error st' = None)) \<and>
     (length (files p) \<le> 2 ^ 58 \<or> 32 \<le> chunk_size \<longrightarrow> scan_fits (files p) chunk_size)"
proof -
  have inv: "ffi_inv fe files ow st" by (rule ffi_reach_inv [OF assms(1-4)])
  obtain e where e: "map_of (fs_heap st) h = Some e"
    "engine_run fe h op st = Some (engine_effect fe h e (files p) op st)"
    using engine_run_live [OF inv assms(5,6)] by metis
  obtain r st1 where k: "check_engine_pin fe e (clear_error st) = (r, st1)" by force
  note ks = check_engine_pin_state [OF k]
  have ok: "error_ok (clear_error st)" "error_ok st1"
    using clear_error_ok [OF ffi_invD(2) [OF inv]] ks by (simp_all add: error_ok_cong [of st1 "clear_error st"])
  have clr: "mmap_engine_last_error st' = None" if "fs_error st' = fs_error (clear_error st)" for st'
    using last_error_cleared [OF ffi_invD(2) [OF inv]] that by (simp add: mmap_engine_last_error_def split: if_splits)
  have msgs: "mmap_engine_last_error (set_error msg (clear_error st)) = Some msg" if m: "eop_error op = Some msg" for msg
  proof -
    have "msg \<noteq> [] \<and> CHR 0x00 \<notin> set msg \<and> length msg \<le> 255"
      using m by (cases op) (auto simp: delimiter_error_def split: if_splits)
    then show ?thesis using last_error_set [OF ok(1), of msg] by (simp add: max_consts)
  qed
  have zero: "mmap_engine_last_error (set_error ''requested_partitions must be > 0'' st1) = Some ''requested_partitions must be > 0''"
    using last_error_set [OF ok(2), of "''requested_partitions must be > 0''"] by (simp add: max_consts)
  have panic: "mmap_engine_last_error (set_error (panic_text op) st1) = Some (panic_text op)"
  proof -
    have "panic_text op \<noteq> [] \<and> CHR 0x00 \<notin> set (panic_text op) \<and> length (panic_text op) \<le> 255"
      by (cases op) (simp_all add: panic_text_def)
    then show ?thesis using last_error_set [OF ok(2), of "panic_text op"] by (simp add: max_consts)
  qed
  have fits: "length (files p) \<le> 2 ^ 58 \<or> 32 \<le> chunk_size \<longrightarrow> scan_fits (files p) chunk_size"
    using engine_bytes(3) [OF inv e(1) assms(5)] by (blast intro: scan_fits_small scan_fits_large_size)
  show ?thesis
  proof (cases "eop_error op")
    case (Some msg)
    with e msgs fits show ?thesis by (simp add: engine_effect_def Let_def)
  next
    case None
    note pan = eop_panics_iff [OF assms(6) None, of "files p"]
    show ?thesis
      using None e k ks zero panic pan fits clr [of "put_plan h e (op_layout (files p) (eop_rust op)) st1"]
      by (cases r; cases "eop_zero (files p) op"; cases "eop_panics (files p) op")
        (simp_all add: engine_effect_def Let_def install_def put_plan_def update_conv')
  qed
qed

theorem ffi_ops_refine_witness:
  "\<exists>h st st'. ffi_reach sim_ffi [] st [h \<mapsto> ''f''] \<and>
     engine_run sim_ffi h (EPartition 0 10) st = Some (0, st') \<and>
     mmap_engine_last_error st' = Some ''requested_partitions must be > 0''"
proof -
  obtain h st where o: "mmap_engine_open sim_ffi (Some ''f'') (ffi_init []) = (h, st)" "ffi_reach sim_ffi [] st [h \<mapsto> ''f'']"
    by (rule sim_ffi_open)
  then have pin: "map_of (fs_heap st) h = Some e \<Longrightarrow> en_pin e = None" for e
    by (auto simp: mmap_engine_open_def open_engine_def open_failure_def Let_def update_conv' clear_error_def ffi_init_def
        split: prod.splits option.splits)
  from ffi_ops_refine [OF sim_ffi_ok o(2), where h = h and p = "''f''" and op = "EPartition 0 10" and chunk_size = 32]
  obtain e n st' where "map_of (fs_heap st) h = Some e" "engine_run sim_ffi h (EPartition 0 10) st = Some (n, st')"
    "n = 0" "mmap_engine_last_error st' = Some ''requested_partitions must be > 0''"
    using pin by (auto simp: check_engine_pin_def)
  with o(2) show ?thesis by blast
qed

text \<open>
  Claim C5: in every reachable state, a view of a live handle points inside its mapping and shows
  the bytes of the chunk; the chunks of a layout are the file in order; an index at or past the
  count is refused with an error, and the overflow error is never reported. Since this holds in
  every later state too, views stay valid until their handle is freed, whatever is done to other
  handles.
\<close>

theorem ffi_views_correct:
  assumes "os_contract (fe_os fe) files" "box_ok fe" "env_trace (fe_os fe) tr0" "ffi_reach fe tr0 st ow" "ow h = Some p"
  shows "\<exists>e chunks. map_of (fs_heap st) h = Some e \<and> engine_data fe e st = files p \<and>
     length chunks = plan_len (en_plan e) \<and> (plan_len (en_plan e) \<noteq> 0 \<longrightarrow> concat chunks = files p) \<and>
     (\<forall>i<plan_len (en_plan e). \<exists>v. mmap_engine_get_chunk h i False st = Some (0, Some v, clear_error st) \<and>
        read_mem (fe_os fe) (fs_trace st) (cv_data v) (cv_len v) = chunks ! i \<and> 0 < cv_len v \<and>
        mf_ptr (en_mmap e) \<le> cv_data v \<and> cv_data v + cv_len v \<le> mf_ptr (en_mmap e) + mf_size (en_mmap e)) \<and>
     (\<forall>i\<ge>plan_len (en_plan e). \<exists>st'. mmap_engine_get_chunk h i False st = Some (-1, None, st') \<and>
        mmap_engine_last_error st' = Some ''chunk index out of bounds'')"
proof -
  have inv: "ffi_inv fe files ow st" by (rule ffi_reach_inv [OF assms(1-4)])
  obtain e where e: "map_of (fs_heap st) h = Some e" using ffi_invD(3) [OF inv] assms(5) by blast
  note eb = engine_bytes [OF inv e assms(5)]
  have h0: "h \<noteq> 0" using ffi_invD(4) [OF inv] assms(5) by auto
  let ?chunks = "map (subslice (files p)) (plan_ranges (en_plan e) (length (files p)))"
  have "concat ?chunks = files p" if "plan_len (en_plan e) \<noteq> 0"
    using plan_ranges_tile [OF eb(4,5)] that by (intro concat_tiles) (cases "en_plan e = PlanEmpty", auto)
  moreover have "\<exists>v. mmap_engine_get_chunk h i False st = Some (0, Some v, clear_error st) \<and>
        read_mem (fe_os fe) (fs_trace st) (cv_data v) (cv_len v) = ?chunks ! i \<and> 0 < cv_len v \<and>
        mf_ptr (en_mmap e) \<le> cv_data v \<and> cv_data v + cv_len v \<le> mf_ptr (en_mmap e) + mf_size (en_mmap e)"
    if i: "i < plan_len (en_plan e)" for i
  proof -
    obtain a b where ab: "range_at (en_plan e) i (length (files p)) = Some (a, b)" "a < b" "b \<le> length (files p)"
      "mmap_engine_get_chunk h i False st = Some (0, Some \<lparr>cv_data = mf_ptr (en_mmap e) + a, cv_len = b - a\<rparr>, clear_error st)"
      "read_mem (fe_os fe) (fs_trace st) (mf_ptr (en_mmap e) + a) (b - a) = subslice (files p) (a, b)"
      using view_spec [OF inv e assms(5) i] by blast
    then show ?thesis using i eb(2) by (simp add: plan_ranges_def mmap_len_def)
  qed
  moreover have "\<exists>st'. mmap_engine_get_chunk h i False st = Some (-1, None, st') \<and>
        mmap_engine_last_error st' = Some ''chunk index out of bounds''" if "i \<ge> plan_len (en_plan e)" for i
    using last_error_set [OF clear_error_ok [OF ffi_invD(2) [OF inv]], of "''chunk index out of bounds''"] e h0 that
    by (simp add: mmap_engine_get_chunk_def Let_def max_consts)
  ultimately show ?thesis
    using e eb(1) by (intro exI [of _ e] exI [of _ ?chunks]) (simp add: plan_ranges_def)
qed

theorem ffi_views_correct_witness:
  "\<exists>h st st'. ffi_reach sim_ffi [] st [h \<mapsto> ''f''] \<and>
     (\<exists>e. map_of (fs_heap st) h = Some e \<and> engine_data sim_ffi e st = [97, 10, 98])"
proof -
  obtain h st where o: "ffi_reach sim_ffi [] st [h \<mapsto> ''f'']" by (rule sim_ffi_open)
  with ffi_views_correct [OF sim_ffi_ok o, of h "''f''"] show ?thesis by auto
qed

text \<open>
  Claim C34: opening, with or without a pin, returns null or a fresh handle. A null path and unknown
  flag bits are refused with their own error texts; otherwise the call succeeds exactly when the
  pin, if one is asked for, can be captured and the file can be opened and mapped. Null leaves the
  heap, the open operating-system handles and the live mappings as they were and sets an error; a
  handle is not null and not in use, has an empty layout, owns exactly its mapping, and has
  exactly the requested pin: none for a plain open, and for a pinned one the pin captured from
  the path at the start of the call, with the requested flags.
\<close>

theorem ffi_open_outcomes:
  assumes "os_contract (fe_os fe) files" "box_ok fe" "env_trace (fe_os fe) tr0" "ffi_reach fe tr0 st ow"
    "run_res (fs_trace st) R0 = Some R"
    "(case pin_request of
        None \<Rightarrow> mmap_engine_open fe path st
      | Some flags \<Rightarrow> mmap_engine_open_pinned fe path flags st) = (h, st')"
  shows "(path = None \<longrightarrow> h = 0 \<and> mmap_engine_last_error st' = Some ''path is null'') \<and>
     (\<forall>c_str flags. path = Some c_str \<and> pin_request = Some flags \<and> flags AND NOT PIN_ALL \<noteq> 0 \<longrightarrow>
        h = 0 \<and> mmap_engine_last_error st' = Some ''unknown pin flag bits'') \<and>
     (\<forall>c_str. path = Some c_str \<longrightarrow>
        (h \<noteq> 0 \<longleftrightarrow>
           (case pin_request of
              None \<Rightarrow> fst (mmap_open (fe_pf fe) (fe_os fe) c_str (fs_trace st)) \<noteq> None
            | Some flags \<Rightarrow>
                flags AND NOT PIN_ALL = 0 \<and>
                (let (r, tr) = capture_at (fe_pf fe) (fe_os fe) (cstr_to_path (fe_pf fe) (fe_os fe) c_str) flags (fs_trace st)
                 in \<not> isl r \<and> fst (mmap_open (fe_pf fe) (fe_os fe) c_str tr) \<noteq> None)))) \<and>
     (h = 0 \<longrightarrow> fs_heap st' = fs_heap st \<and> run_res (fs_trace st') R0 = Some R \<and> error_set st') \<and>
     (h \<noteq> 0 \<longrightarrow> h \<notin> dom ow \<and>
       (\<exists>e. map_of (fs_heap st') = (map_of (fs_heap st))(h \<mapsto> e) \<and> en_plan e = PlanEmpty \<and>
          run_res (fs_trace st') R0 = Some (file_res (en_mmap e) R) \<and>
          (case pin_request of
             None \<Rightarrow> en_pin e = None
           | Some flags \<Rightarrow> \<exists>pin. en_pin e = Some pin \<and> pin_flags pin = flags \<and>
               pin_path pin = cstr_to_path (fe_pf fe) (fe_os fe) (the path) \<and>
               pin_capture (fe_pf fe) (env_stat (fe_os fe) (fs_trace st)) (pin_path pin) flags = Inr pin)))"
proof -
  have inv: "ffi_inv fe files ow st" by (rule ffi_reach_inv [OF assms(1-4)])
  note eng = open_engine_outcome [OF assms(1,2)]
  have dom: "map_of (fs_heap st) h = None \<Longrightarrow> h \<notin> dom ow" using ffi_invD(3) [OF inv] by (simp add: domIff)
  have null: "mmap_engine_last_error (set_error msg (clear_error st)) = Some msg"
    if "msg \<noteq> []" "CHR 0x00 \<notin> set msg" "length msg \<le> 255" for msg
    using last_error_set [OF clear_error_ok [OF ffi_invD(2) [OF inv]] that(1,2)] that(3) by (simp add: max_consts)
  consider (no_path) "path = None" | (plain) c_str where "path = Some c_str" "pin_request = None"
    | (pinned) c_str flags where "path = Some c_str" "pin_request = Some flags" by (cases path; cases pin_request) auto
  then show ?thesis
  proof cases
    case no_path
    with assms(5,6) null [of "''path is null''"] show ?thesis
      by (cases pin_request)
        (auto simp: mmap_engine_open_def mmap_engine_open_pinned_def Let_def intro!: error_setI)
  next
    case plain
    with assms(6) have "open_engine fe c_str None (clear_error st) = (h, st')" by (simp add: mmap_engine_open_def)
    from eng [OF this, of R0 R] plain assms(5) ffi_invD(1) [OF inv] dom show ?thesis by auto
  next
    case pinned
    let ?owned = "cstr_to_path (fe_pf fe) (fe_os fe) c_str"
    have o: "mmap_engine_open_pinned fe (Some c_str) flags st = (h, st')" using assms(6) pinned by simp
    obtain q tr where k: "capture_at (fe_pf fe) (fe_os fe) ?owned flags (fs_trace st) = (q, tr)" by force
    have t: "run_res tr R0 = Some R" "env_trace (fe_os fe) tr"
      using capture_at_trace [OF k] assms(5) ffi_invD(1) [OF inv] by auto
    consider (bad) "flags AND NOT PIN_ALL \<noteq> 0" | (err) error where "flags AND NOT PIN_ALL = 0" "q = Inl error"
      | (pin) pin where "flags AND NOT PIN_ALL = 0" "q = Inr pin" by (cases q) auto
    then show ?thesis
    proof cases
      case bad
      with o have "h = 0" "st' = set_error ''unknown pin flag bits'' (clear_error st)"
        by (simp_all add: mmap_engine_open_pinned_def Let_def)
      with bad pinned assms(5) null [of "''unknown pin flag bits''"] show ?thesis by (auto intro!: error_setI)
    next
      case err
      with o k have "h = 0" "st' = set_error (''failed to capture file identity: '' @ err_text error) ((clear_error st)\<lparr>fs_trace := tr\<rparr>)"
        by (simp_all add: mmap_engine_open_pinned_def Let_def)
      with err pinned k t show ?thesis by (auto intro!: error_setI)
    next
      case pin
      then have cap: "pin_capture (fe_pf fe) (env_stat (fe_os fe) (fs_trace st)) ?owned flags = Inr pin"
        using k by (auto simp: capture_at_def)
      then have p: "pin_path pin = ?owned" "pin_flags pin = flags" by (auto simp: pin_capture_Inr)
      have "open_engine fe c_str (Some pin) ((clear_error st)\<lparr>fs_trace := tr\<rparr>) = (h, st')"
        using o pin k by (simp add: mmap_engine_open_pinned_def Let_def)
      from eng [OF this, of R0 R] pin pinned k t p cap dom show ?thesis by auto
    qed
  qed
qed

theorem ffi_open_outcomes_witness:
  "\<exists>h st e pin. mmap_engine_open_pinned sim_ffi (Some ''f'') PIN_SIZE (ffi_init []) = (h, st) \<and> h \<noteq> 0 \<and>
     map_of (fs_heap st) = [h \<mapsto> e] \<and> en_plan e = PlanEmpty \<and> en_pin e = Some pin \<and> pin_flags pin = PIN_SIZE"
proof -
  let ?R = "\<lparr>res_handles = [], res_maps = []\<rparr>"
  obtain h st where o: "mmap_engine_open_pinned sim_ffi (Some ''f'') PIN_SIZE (ffi_init []) = (h, st)" by force
  have R: "run_res (fs_trace (ffi_init [])) ?R = Some ?R" by (simp add: ffi_init_def)
  have ok: "PIN_SIZE AND NOT PIN_ALL = 0" by (simp add: pin_consts)
  obtain q tr where k: "capture_at Unix (sim_env (\<lambda>_. [97, 10, 98])) ''f'' PIN_SIZE [] = (q, tr)" by force
  have "\<not> isl q" using k by (auto simp: capture_at_def pin_capture_def effective_flags_def pin_consts split: sum.splits)
  moreover have "fst (mmap_open Unix (sim_env (\<lambda>_. [97, 10, 98])) ''f'' tr) \<noteq> None" by (rule sim_mmap_open)
  moreover note res = ffi_open_outcomes [OF sim_ffi_ok ffi_reach.start R, where pin_request = "Some PIN_SIZE"
      and path = "Some ''f''" and h = h and st' = st, simplified, OF o]
  ultimately have "h \<noteq> 0" using k ok by (simp add: sim_ffi_def cstr_to_path_def ffi_init_def)
  with res o show ?thesis by (auto simp: ffi_init_def)
qed

text \<open>
  Claim C35: null handles are refused with an error and freeing null does nothing. In every run of a
  caller that keeps the contract, with any number of handles opened and freed in any order, the
  open operating-system handles and the live mappings are those of the rest of the process
  together with one file for each live handle. Freeing any live handle, not only the last one
  opened, always succeeds, removes exactly that handle, and gives back exactly the resources of its
  own file, so that the accounts are again those of the handles that are left; afterwards no call
  of the contract can use it.
\<close>

theorem ffi_release_correct:
  assumes "os_contract (fe_os fe) files" "box_ok fe" "env_trace (fe_os fe) tr0" "ffi_use fe tr0 st ow R" "h \<in> dom ow"
  shows "(\<exists>e st' S S'. map_of (fs_heap st) h = Some e \<and> mmap_engine_free fe h st = Some st' \<and>
       fs_heap st' = AList.delete h (fs_heap st) \<and> map_of (fs_heap st') = (map_of (fs_heap st))(h := None) \<and>
       run_res (fs_trace st) no_resources = Some S \<and> res_same S (heap_res (fs_heap st) R) \<and>
       run_res (fs_trace st') no_resources = Some S' \<and> res_same S' (heap_res (fs_heap st') R) \<and>
       res_same S (file_res (en_mmap e) S') \<and>
       mmap_engine_free fe h st' = None \<and> mmap_engine_get_chunk h i False st' = None) \<and>
     mmap_engine_free fe 0 st = Some st \<and>
     (\<forall>op. \<exists>st'. engine_run fe 0 op st = Some (0, st') \<and> mmap_engine_last_error st' = Some ''handle is null'' \<and>
        fs_heap st' = fs_heap st \<and> fs_trace st' = fs_trace st) \<and>
     (\<exists>st'. mmap_engine_get_chunk 0 i nul st = Some (-1, None, st') \<and> mmap_engine_last_error st' = Some ''handle is null'')"
proof -
  have inv: "ffi_inv fe files ow st" by (rule ffi_reach_inv [OF assms(1-3) ffi_use_reach [OF assms(4)]])
  note acc = ffi_use_accounts [OF assms(1-4)]
  obtain p where p: "ow h = Some p" using assms(5) by blast
  obtain e where e: "map_of (fs_heap st) h = Some e" using ffi_invD(3) [OF inv] p by blast
  have h0: "h \<noteq> 0" using ffi_invD(4) [OF inv] p by auto
  let ?st = "st\<lparr>fs_heap := AList.delete h (fs_heap st), fs_trace := mmap_drop (fe_os fe) (en_mmap e) (fs_trace st)\<rparr>"
  have f: "mmap_engine_free fe h st = Some ?st" "map_of (fs_heap ?st) = (map_of (fs_heap st))(h := None)"
    using h0 e by (simp_all add: mmap_engine_free_def delete_conv')
  from free_account [OF assms(1) inv _ _ f(1) e h0, of R] acc obtain S S' where
    S: "run_res (fs_trace st) no_resources = Some S" "res_same S (heap_res (fs_heap st) R)"
    "run_res (fs_trace ?st) no_resources = Some S'" "res_same S' (heap_res (fs_heap ?st) R)"
    "res_same S (file_res (en_mmap e) S')" by blast
  have gone: "mmap_engine_free fe h ?st = None" "mmap_engine_get_chunk h i False ?st = None"
    using h0 by (simp_all add: mmap_engine_free_def mmap_engine_get_chunk_def Let_def delete_conv')
  have null: "mmap_engine_last_error (set_error ''handle is null'' (clear_error st)) = Some ''handle is null''"
    using last_error_set [OF clear_error_ok [OF ffi_invD(2) [OF inv]], of "''handle is null''"] by (simp add: max_consts)
  moreover have "mmap_engine_get_chunk 0 i nul st = Some (-1, None, set_error ''handle is null'' (clear_error st))"
    by (simp add: mmap_engine_get_chunk_def Let_def)
  moreover have "mmap_engine_free fe 0 st = Some st" by (simp add: mmap_engine_free_def)
  moreover have "\<exists>e st' S S'. map_of (fs_heap st) h = Some e \<and> mmap_engine_free fe h st = Some st' \<and>
       fs_heap st' = AList.delete h (fs_heap st) \<and> map_of (fs_heap st') = (map_of (fs_heap st))(h := None) \<and>
       run_res (fs_trace st) no_resources = Some S \<and> res_same S (heap_res (fs_heap st) R) \<and>
       run_res (fs_trace st') no_resources = Some S' \<and> res_same S' (heap_res (fs_heap st') R) \<and>
       res_same S (file_res (en_mmap e) S') \<and>
       mmap_engine_free fe h st' = None \<and> mmap_engine_get_chunk h i False st' = None"
    using e f S gone by (intro exI [of _ e] exI [of _ ?st] exI [of _ S] exI [of _ S']) simp
  ultimately show ?thesis using engine_run_null [of fe _ st] by (intro conjI) (assumption, simp, simp, blast)
qed

lemma sim_open_any:
  obtains h st' e where "mmap_engine_open sim_ffi (Some ''f'') st = (h, st')" "h \<noteq> 0" "h \<notin> fst ` set (fs_heap st)"
    "fs_heap st' = AList.update h e (fs_heap st)"
proof -
  obtain f tr where m: "mmap_open Unix (sim_env (\<lambda>_. [97, 10, 98])) ''f'' (fs_trace st) = (Some f, tr)"
    using sim_mmap_open [of "fs_trace st"] by (metis option.collapse prod.collapse)
  obtain h st' where o: "mmap_engine_open sim_ffi (Some ''f'') st = (h, st')" by force
  then have "h = fe_box sim_ffi (fs_heap st) \<and> (\<exists>e. fs_heap st' = AList.update h e (fs_heap st))"
    using m by (auto simp: mmap_engine_open_def open_engine_def Let_def sim_ffi_def)
  then show thesis using o that sim_ffi_ok(2) unfolding box_ok_def by metis
qed

theorem ffi_release_correct_witness:
  "\<exists>h1 h2 st st' e S'. ffi_use sim_ffi [] st [h1 \<mapsto> ''f'', h2 \<mapsto> ''f''] no_resources \<and> h1 \<noteq> h2 \<and>
     mmap_engine_free sim_ffi h1 st = Some st' \<and> fs_heap st' = [(h2, e)] \<and>
     run_res (fs_trace st') no_resources = Some S' \<and> res_same S' (file_res (en_mmap e) no_resources) \<and>
     mmap_engine_free sim_ffi h1 st' = None"
proof -
  have path: "owner_after sim_ffi (Some ''f'') h ow = ow(h \<mapsto> ''f'')" if "h \<noteq> 0" for h ow
    using that by (simp add: owner_after_def cstr_to_path_def sim_ffi_def)
  obtain h1 s1 e1 where o1: "mmap_engine_open sim_ffi (Some ''f'') (ffi_init []) = (h1, s1)" "h1 \<noteq> 0"
    "fs_heap s1 = AList.update h1 e1 (fs_heap (ffi_init []))" by (rule sim_open_any)
  obtain h2 s2 e2 where o2: "mmap_engine_open sim_ffi (Some ''f'') s1 = (h2, s2)" "h2 \<noteq> 0" "h2 \<notin> fst ` set (fs_heap s1)"
    "fs_heap s2 = AList.update h2 e2 (fs_heap s1)" by (rule sim_open_any)
  have ne: "h1 \<noteq> h2" using o1(3) o2(3) by (auto simp: ffi_init_def)
  have u0: "ffi_use sim_ffi [] (ffi_init []) Map.empty no_resources" by (rule ffi_use.start) simp
  have u1: "ffi_use sim_ffi [] s1 [h1 \<mapsto> ''f''] no_resources"
    using ffi_use.opened [OF u0 o1(1)] path [OF o1(2)] by metis
  have u: "ffi_use sim_ffi [] s2 [h1 \<mapsto> ''f'', h2 \<mapsto> ''f''] no_resources"
    using ffi_use.opened [OF u1 o2(1)] path [OF o2(2)] by metis
  have "h1 \<in> dom [h1 \<mapsto> ''f'', h2 \<mapsto> ''f'']" by simp
  from conjunct1 [OF ffi_release_correct [OF sim_ffi_ok u this, where i = 0 and nul = True]]
  obtain st' S' where r: "mmap_engine_free sim_ffi h1 s2 = Some st'" "fs_heap st' = AList.delete h1 (fs_heap s2)"
    "run_res (fs_trace st') no_resources = Some S'" "res_same S' (heap_res (fs_heap st') no_resources)"
    "mmap_engine_free sim_ffi h1 st' = None" by blast
  have heap: "fs_heap st' = [(h2, e2)]" using r(2) o1(3) o2(4) ne by (simp add: ffi_init_def)
  have "res_same S' (file_res (en_mmap e2) no_resources)" using r(4) unfolding heap by (simp add: heap_res_def)
  then show ?thesis using u ne r(1,3,5) heap by blast
qed

text \<open>
  Claim C12: planning without a handle, for valid arguments, always returns. It fails with status
  -1, leaving the caller's buffer alone, or plans exactly the ranges of the slice planner: when
  they exceed the capacity it returns -2 with the required count and writes nothing, otherwise it
  returns 0 with the count and the ranges, and writes nothing beyond them. The two-phase protocol
  therefore works: a later call with the reported capacity does not return -2 again. Every call
  leaves the resources as they were.
\<close>

theorem ffi_plan_two_phase:
  assumes "os_contract (fe_os fe) files" "env_trace (fe_os fe) (fs_trace st)" "run_res (fs_trace st) R0 = Some R"
    "delimiter_error (Some d) dlen = None" "dlen \<le> length d" "0 < n" "n \<le> usize_max" "mode_of mode = Some m"
    "valid_slice (files (cstr_to_path (fe_pf fe) (fe_os fe) path))"
    "find_partition_boundaries_pattern ptr (files (cstr_to_path (fe_pf fe) (fe_os fe) path)) n (take dlen d) = Ret rs"
    "capacity \<le> length buf"
  shows "(\<exists>r st1. mmap_engine_plan_partition_ranges fe (Some path) n (Some d) dlen mode w None 0 False st = Some (r, st1) \<and>
        run_res (fs_trace st1) R0 = Some R \<and>
        (r = \<lparr>pr_status = -1, pr_count = None, pr_ranges = []\<rparr> \<or>
         r = (if rs = [] then \<lparr>pr_status = 0, pr_count = Some 0, pr_ranges = []\<rparr>
              else \<lparr>pr_status = -2, pr_count = Some (length rs), pr_ranges = []\<rparr>))) \<and>
     (\<exists>r st2. mmap_engine_plan_partition_ranges fe (Some path) n (Some d) dlen mode w (Some buf) capacity False st = Some (r, st2) \<and>
        run_res (fs_trace st2) R0 = Some R \<and>
        (r = \<lparr>pr_status = -1, pr_count = None, pr_ranges = buf\<rparr> \<or>
         r = (if length rs \<le> capacity then \<lparr>pr_status = 0, pr_count = Some (length rs), pr_ranges = rs @ drop (length rs) buf\<rparr>
              else \<lparr>pr_status = -2, pr_count = Some (length rs), pr_ranges = buf\<rparr>)))"
proof -
  let ?content = "files (cstr_to_path (fe_pf fe) (fe_os fe) path)"
  have b: "buffer_ok (Some d) dlen" using assms(5) by (simp add: buffer_ok_def)
  from delimiter_error_None [OF assms(4) b] have "take dlen d \<noteq> []" "valid_slice (take dlen d)" by (metis option.inject)+
  then have rs: "rs = plan_spec (record_cut (take dlen d) ?content) (length ?content) (min n (length ?content))"
    using assms(9,10) by (simp add: find_partition_boundaries_pattern_spec)
  have a1: "plan_argument_error (Some path) n (Some d) dlen None 0 False = None"
    and a2: "plan_argument_error (Some path) n (Some d) dlen (Some buf) capacity False = None"
    using assms(4,6) by (simp_all add: plan_argument_error_def)
  note call1 = plan_call_spec [OF assms(1-3) a1 assms(8) b _ assms(7), of w, unfolded Let_def option.sel rs [symmetric]]
  note call2 = plan_call_spec [OF assms(1-3) a2 assms(8) b _ assms(7), of w, unfolded Let_def option.sel rs [symmetric]]
  have "\<exists>r st1. mmap_engine_plan_partition_ranges fe (Some path) n (Some d) dlen mode w None 0 False st = Some (r, st1) \<and>
        run_res (fs_trace st1) R0 = Some R \<and>
        (r = \<lparr>pr_status = -1, pr_count = None, pr_ranges = []\<rparr> \<or>
         r = (if rs = [] then \<lparr>pr_status = 0, pr_count = Some 0, pr_ranges = []\<rparr>
              else \<lparr>pr_status = -2, pr_count = Some (length rs), pr_ranges = []\<rparr>))"
    using call1 by (cases "rs = []") (auto split del: if_split)
  moreover have "\<exists>r st2. mmap_engine_plan_partition_ranges fe (Some path) n (Some d) dlen mode w (Some buf) capacity False st = Some (r, st2) \<and>
        run_res (fs_trace st2) R0 = Some R \<and>
        (r = \<lparr>pr_status = -1, pr_count = None, pr_ranges = buf\<rparr> \<or>
         r = (if length rs \<le> capacity then \<lparr>pr_status = 0, pr_count = Some (length rs), pr_ranges = rs @ drop (length rs) buf\<rparr>
              else \<lparr>pr_status = -2, pr_count = Some (length rs), pr_ranges = buf\<rparr>))"
    using call2 assms(11) by (cases "length rs \<le> capacity") (auto simp: not_less [symmetric] split del: if_split)
  ultimately show ?thesis by blast
qed

theorem ffi_plan_two_phase_witness:
  "\<exists>r st2. mmap_engine_plan_partition_ranges sim_ffi (Some ''f'') 1 (Some [10]) 1 2 0 (Some [(7, 7), (8, 8)]) 2 False (ffi_init []) = Some (r, st2) \<and>
     pr_status r \<noteq> -2"
proof -
  let ?files = "\<lambda>_ :: path. [97, 10, 98] :: bytes" and ?R = "\<lparr>res_handles = [], res_maps = []\<rparr>"
  have v: "valid_slice (?files (cstr_to_path (fe_pf sim_ffi) (fe_os sim_ffi) ''f''))" by (simp add: valid_slice_def max_consts)
  have f: "find_partition_boundaries_pattern 0 (?files (cstr_to_path (fe_pf sim_ffi) (fe_os sim_ffi) ''f'')) 1 (take 1 [10]) = Ret [(0, 3)]"
    by (simp add: find_partition_boundaries_pattern_def find_partition_boundaries_def slen_def as_usize_def)
  have t: "env_trace (fe_os sim_ffi) (fs_trace (ffi_init []))" "run_res (fs_trace (ffi_init [])) ?R = Some ?R"
    by (simp_all add: ffi_init_def)
  have d: "delimiter_error (Some [10]) 1 = None" "1 \<le> length [10 :: byte]" "0 < (1 :: nat)" "1 \<le> usize_max" "mode_of 2 = Some Pread"
    "2 \<le> length [(7 :: nat, 7 :: nat), (8, 8)]"
    by (simp_all add: delimiter_error_def max_consts mode_of_def SOURCE_MODE_MMAP_def SOURCE_MODE_WINDOWED_def SOURCE_MODE_PREAD_def)
  from ffi_plan_two_phase [OF sim_ffi_ok(1) t d(1-5) v f d(6), where w = 0 and path = "''f''"] show ?thesis by auto
qed

end
