(* ===== verification/Cli_Logical.thy ===== *)
theory Cli_Logical
  imports Mmap_Chunker
begin

section \<open>Logical partitions over several files\<close>

text \<open>
  The planner behind \<open>partition-files\<close> in \<open>src/src/bin/mmap-chunker.rs\<close> for mapped sources: the
  files form one logical byte sequence in argument order, ideal targets are computed on it in 128
  bits, each target is projected to a record boundary of its source, and each worker gets the
  ranges of the sources that its interval covers. Errors are texts; a panic is \<open>Panic\<close>.

  \<open>slice::binary_search\<close> and \<open>slice::partition_point\<close> are modelled by what they are documented to
  return on sorted slices; the prefix sums are sorted.
\<close>

type_synonym 'a cli = "string + 'a"

fun ebind :: "'a cli \<Rightarrow> ('a \<Rightarrow> 'b cli) \<Rightarrow> 'b cli" where
  "ebind (Inl e) f = Inl e"
| "ebind (Inr x) f = f x"

definition rcbind :: "'a cli run \<Rightarrow> ('a \<Rightarrow> 'b cli run) \<Rightarrow> 'b cli run" where
  "rcbind r f = rbind r (\<lambda>v. case v of Inl e \<Rightarrow> Ret (Inl e) | Inr x \<Rightarrow> f x)"

lemma rcbind_simps [simp]:
  "rcbind (Ret (Inr x)) f = f x" "rcbind (Ret (Inl e)) f = Ret (Inl e)" "rcbind (Panic m) f = Panic m"
  by (simp_all add: rcbind_def)

lemma rcbind_cong [fundef_cong]:
  "r = r' \<Longrightarrow> (\<And>x. r' = Ret (Inr x) \<Longrightarrow> f x = g x) \<Longrightarrow> rcbind r f = rcbind r' g"
  by (cases r') (auto simp: rcbind_def split: sum.split)

subsection \<open>Ranges, assignments and search states\<close>

record source_range =
  sr_source :: nat
  sr_start :: nat
  sr_end_exclusive :: nat
  sr_length :: nat

record worker_assignment =
  wa_worker :: nat
  wa_ranges :: "source_range list"

record boundary_state =
  st_scan_from :: nat
  st_cached :: "nat option"

definition boundary_default :: boundary_state where
  "boundary_default = \<lparr>st_scan_from = 0, st_cached = None\<rparr>"

subsection \<open>Record boundaries of one source\<close>

definition usize_to_u128 :: "nat \<Rightarrow> nat cli" where
  "usize_to_u128 v = (if v < 2 ^ 64 then Inr v else Inl ''usize value does not fit in the logical offset type'')"

definition find_first_pattern_from :: "bytes \<Rightarrow> bytes \<Rightarrow> nat option" where
  "find_first_pattern_from haystack pat =
     (if pat = [] \<or> slen haystack < slen pat then None
      else find (\<lambda>offset. starts_with (drop offset haystack) pat) [0..<Suc (slen haystack - slen pat)])"

definition boundary_found :: "nat \<Rightarrow> boundary_state \<Rightarrow> nat \<times> boundary_state" where
  "boundary_found boundary st = (boundary, st\<lparr>st_scan_from := boundary, st_cached := Some boundary\<rparr>)"

definition boundary_exact :: "nat \<Rightarrow> boundary_state \<Rightarrow> nat \<times> boundary_state" where
  "boundary_exact target st = (target, st\<lparr>st_scan_from := max target (st_scan_from st), st_cached := Some target\<rparr>)"

definition cached_after :: "nat \<Rightarrow> boundary_state \<Rightarrow> nat option" where
  "cached_after target st =
     (case st_cached st of Some cached \<Rightarrow> (if target < cached then Some cached else None) | None \<Rightarrow> None)"

definition next_record_boundary :: "bytes \<Rightarrow> nat \<Rightarrow> byte \<Rightarrow> boundary_state \<Rightarrow> (nat \<times> boundary_state) run" where
  "next_record_boundary data target delimiter st =
     (case cached_after target st of
        Some cached \<Rightarrow> Ret (cached, st)
      | None \<Rightarrow>
          rbind (if target \<ge> 1 \<and> target \<le> slen data
                 then rmap (\<lambda>b. b = delimiter) (index_at data (target - 1)) else Ret False)
            (\<lambda>exact.
              if exact then Ret (boundary_exact target st)
              else
                let scan_from = max target (st_scan_from st) in
                rbind (slice_from data scan_from) (\<lambda>rest.
                  Ret (boundary_found
                    (case position (\<lambda>byte. byte = delimiter) rest of
                       Some relative \<Rightarrow> min (sat_add (sat_add scan_from relative) 1) (slen data)
                     | None \<Rightarrow> slen data) st))))"

definition next_record_boundary_pattern :: "bytes \<Rightarrow> nat \<Rightarrow> bytes \<Rightarrow> boundary_state \<Rightarrow> (nat \<times> boundary_state) run" where
  "next_record_boundary_pattern data target delimiter st =
     (if \<not> slen delimiter > 1 then Panic ''assertion failed: delimiter.len() > 1''
      else case cached_after target st of
        Some cached \<Rightarrow> Ret (cached, st)
      | None \<Rightarrow>
          rbind (if target \<ge> slen delimiter \<and> target \<le> slen data
                 then rmap (\<lambda>w. w = delimiter) (slice_range data (target - slen delimiter) target) else Ret False)
            (\<lambda>exact.
              if exact then Ret (boundary_exact target st)
              else
                let scan_from = max target (st_scan_from st) in
                if scan_from \<ge> slen data then Ret (boundary_found (slen data) st)
                else
                  rbind (slice_from data scan_from) (\<lambda>rest.
                    Ret (boundary_found
                      (case find_first_pattern_from rest delimiter of
                         Some relative \<Rightarrow> min (sat_add (sat_add scan_from relative) (slen delimiter)) (slen data)
                       | None \<Rightarrow> slen data) st))))"

subsection \<open>Projection of a logical target\<close>

definition binary_search_ok :: "nat list \<Rightarrow> nat \<Rightarrow> bool" where
  "binary_search_ok xs t \<longleftrightarrow> t \<in> set xs"

definition partition_point :: "(nat \<Rightarrow> bool) \<Rightarrow> nat list \<Rightarrow> nat" where
  "partition_point P xs = length (takeWhile P xs)"

definition usize_from_u128 :: "string \<Rightarrow> nat \<Rightarrow> nat cli" where
  "usize_from_u128 msg v = (if v \<le> usize_max then Inr v else Inl msg)"

definition project_logical_target ::
  "os_env \<Rightarrow> trace \<Rightarrow> nat \<Rightarrow> nat list \<Rightarrow> mmap_chunker list \<Rightarrow> bytes \<Rightarrow> boundary_state list \<Rightarrow> (nat \<times> boundary_state list) cli run" where
  "project_logical_target env tr target prefixes sources delimiter states =
     (if binary_search_ok prefixes target then Ret (Inr (target, states))
      else
        let upper = partition_point (\<lambda>prefix. prefix \<le> target) prefixes in
        if upper = 0 then Ret (Inl ''internal error: target before first source'')
        else
          let source_index = upper - 1 in
          rbind (index_at prefixes source_index) (\<lambda>source_start.
            rcbind (Ret (usize_from_u128 ''logical target does not fit source offset'' (target - source_start))) (\<lambda>local_target.
              if source_index \<ge> length sources then Ret (Inl ''internal error: target source out of bounds'')
              else
                let data = chunker_as_bytes env (sources ! source_index) tr in
                if source_index \<ge> length states then Ret (Inl ''internal error: boundary state out of bounds'')
                else
                  rbind (if slen delimiter = 1
                         then rbind (index_at delimiter 0) (\<lambda>d.
                                next_record_boundary data local_target d (states ! source_index))
                         else next_record_boundary_pattern data local_target delimiter (states ! source_index))
                    (\<lambda>(local_boundary, st').
                      Ret (ebind (usize_to_u128 local_boundary) (\<lambda>b.
                        Inr (source_start + b, states[source_index := st'])))))))"

subsection \<open>Planning\<close>

fun prefix_sums :: "nat list \<Rightarrow> nat \<Rightarrow> nat list cli" where
  "prefix_sums [] previous = Inr [previous]"
| "prefix_sums (len # lens) previous =
     ebind (usize_to_u128 len) (\<lambda>l.
       if previous + l < 2 ^ 128 then ebind (prefix_sums lens (previous + l)) (\<lambda>rest. Inr (previous # rest))
       else Inl ''logical dataset is too large'')"

function logical_cuts ::
  "(nat \<Rightarrow> 's \<Rightarrow> (nat \<times> 's) cli run) \<Rightarrow> nat \<Rightarrow> nat \<Rightarrow> nat \<Rightarrow> nat \<Rightarrow> 's \<Rightarrow> (nat list \<times> 's) cli run" where
  "logical_cuts project total_len effective_parts part_no last_cut s =
     (if part_no < effective_parts then
        rcbind (Ret (ebind (usize_to_u128 part_no) (\<lambda>k.
            if total_len * k < 2 ^ 128
            then ebind (usize_to_u128 effective_parts) (\<lambda>n. Inr (total_len * k div n))
            else Inl ''logical target arithmetic overflow'')))
          (\<lambda>target.
            if target \<le> last_cut then logical_cuts project total_len effective_parts (part_no + 1) last_cut s
            else rcbind (project target s) (\<lambda>(projected, s').
              if projected \<le> last_cut then logical_cuts project total_len effective_parts (part_no + 1) last_cut s'
              else if projected = total_len then Ret (Inr ([], s'))
              else rcbind (logical_cuts project total_len effective_parts (part_no + 1) projected s')
                (\<lambda>(cuts, s''). Ret (Inr (projected # cuts, s'')))))
      else Ret (Inr ([], s)))"
  by pat_completeness auto
termination
  by (relation "measure (\<lambda>(project, total_len, n, part_no, last_cut, s). n - part_no)") auto

declare logical_cuts.simps [simp del]

fun interval_loop :: "nat \<Rightarrow> nat \<Rightarrow> nat list \<Rightarrow> nat list \<Rightarrow> source_range list cli run" where
  "interval_loop s e prefixes [] = Ret (Inr [])"
| "interval_loop s e prefixes (source_index # indices) =
     rbind (index_at prefixes source_index) (\<lambda>source_start.
     rbind (index_at prefixes (source_index + 1)) (\<lambda>source_end.
       let range_start = max s source_start; range_end = min e source_end in
       if range_start \<ge> range_end then interval_loop s e prefixes indices
       else
         rcbind (Ret (usize_from_u128 ''source range start does not fit usize'' (range_start - source_start))) (\<lambda>local_start.
         rcbind (Ret (usize_from_u128 ''source range end does not fit usize'' (range_end - source_start))) (\<lambda>local_end.
           if local_end < local_start then Ret (Inl ''source range length underflow'')
           else rcbind (interval_loop s e prefixes indices) (\<lambda>ranges.
             Ret (Inr (\<lparr>sr_source = source_index, sr_start = local_start, sr_end_exclusive = local_end,
                        sr_length = local_end - local_start\<rparr> # ranges)))))))"

definition ranges_for_interval :: "nat \<Rightarrow> nat \<Rightarrow> nat list \<Rightarrow> nat \<Rightarrow> source_range list cli run" where
  "ranges_for_interval s e prefixes source_count =
     (if s \<ge> e then Ret (Inr []) else interval_loop s e prefixes [0..<source_count])"

fun assign_loop :: "nat list \<Rightarrow> nat \<Rightarrow> nat \<Rightarrow> nat \<Rightarrow> nat list \<Rightarrow> worker_assignment list cli run" where
  "assign_loop prefixes source_count s worker [] = Ret (Inr [])"
| "assign_loop prefixes source_count s worker (e # ends) =
     rcbind (ranges_for_interval s e prefixes source_count) (\<lambda>ranges.
       if ranges = [] then assign_loop prefixes source_count e worker ends
       else rcbind (assign_loop prefixes source_count e (worker + 1) ends) (\<lambda>rest.
         Ret (Inr (\<lparr>wa_worker = worker, wa_ranges = ranges\<rparr> # rest))))"

definition effective_parts_of :: "nat \<Rightarrow> nat \<Rightarrow> nat" where
  "effective_parts_of requested_parts total_len = min requested_parts (if total_len \<le> usize_max then total_len else usize_max)"

definition plan_logical_partitions ::
  "os_env \<Rightarrow> trace \<Rightarrow> mmap_chunker list \<Rightarrow> nat \<Rightarrow> bytes \<Rightarrow> worker_assignment list cli run" where
  "plan_logical_partitions env tr sources requested_parts delimiter =
     (if requested_parts = 0 then Ret (Inr [])
      else
        rcbind (Ret (prefix_sums (map chunker_len sources) 0)) (\<lambda>prefixes.
          let total_len = last prefixes in
          if total_len = 0 then Ret (Inr [])
          else
            let effective_parts = effective_parts_of requested_parts total_len;
                states = replicate (length sources) boundary_default
            in rcbind (logical_cuts (\<lambda>target states. project_logical_target env tr target prefixes sources delimiter states)
                 total_len effective_parts 1 0 states) (\<lambda>(cut_points, _).
                   assign_loop prefixes (length sources) 0 0 (cut_points @ [total_len]))))"

subsection \<open>The planning loop over any projection\<close>

fun pairs :: "nat \<Rightarrow> nat list \<Rightarrow> nat \<Rightarrow> brange list" where
  "pairs s [] e = [(s, e)]"
| "pairs s (c # cs) e = (s, c) # pairs c cs e"

text \<open>For addressable lengths and counts the 128-bit target arithmetic does not fail.\<close>

lemma logical_cuts_step:
  assumes "len \<le> usize_max" "n \<le> usize_max" "i < n"
  shows "logical_cuts project len n i l s =
    (if len * i div n \<le> l then logical_cuts project len n (i + 1) l s
     else rcbind (project (len * i div n) s) (\<lambda>(projected, s').
       if projected \<le> l then logical_cuts project len n (i + 1) l s'
       else if projected = len then Ret (Inr ([], s'))
       else rcbind (logical_cuts project len n (i + 1) projected s') (\<lambda>(cuts, s''). Ret (Inr (projected # cuts, s'')))))"
proof -
  have "len * i \<le> usize_max * usize_max" using assms by (intro mult_le_mono) auto
  also have "\<dots> < 2 ^ 128" by (simp add: max_consts)
  finally have "len * i < 2 ^ 128" .
  moreover have "i < 2 ^ 64" "n < 2 ^ 64" using assms(2,3) by (simp_all add: max_consts)
  ultimately show ?thesis using assms(3) by (subst logical_cuts.simps) (simp add: usize_to_u128_def)
qed

text \<open>
  The interface between the loop and the projection of a target: the projection moves a target
  as a boundary oracle does, from any state that goes with the last cut, or fails.
\<close>

locale projection = boundary_oracle cutf len is_boundary
  for cutf :: "nat \<Rightarrow> nat" and len :: nat and is_boundary :: "nat \<Rightarrow> bool" +
  fixes project :: "nat \<Rightarrow> 's \<Rightarrow> (nat \<times> 's) cli run" and sinv :: "nat \<Rightarrow> 's \<Rightarrow> bool" and may_fail :: bool
  assumes project_step: "sinv l s \<Longrightarrow> l < t \<Longrightarrow> t < len \<Longrightarrow>
      (may_fail \<and> (\<exists>e. project t s = Ret (Inl e))) \<or> (\<exists>s'. project t s = Ret (Inr (cutf t, s')) \<and> sinv (cutf t) s')"
begin

lemma logical_cuts_spec:
  assumes "len \<le> usize_max" "n \<le> usize_max" "sinv l s" "l < len"
  shows "(may_fail \<and> (\<exists>e. logical_cuts project len n i l s = Ret (Inl e))) \<or>
     (\<exists>cuts s'. logical_cuts project len n i l s = Ret (Inr (cuts, s')) \<and>
        pairs l cuts len = ranges_loop len l (plan_cuts cutf (map (\<lambda>k. len * k div n) [i..<n]) l))"
  using assms(3,4)
proof (induction "n - i" arbitrary: i l s rule: less_induct)
  case less
  show ?case
  proof (cases "i < n")
    case False
    with less.prems show ?thesis by (subst logical_cuts.simps) simp
  next
    case True
    define t where "t = len * i div n"
    have t: "t < len" using target_less [OF True] less.prems by (simp add: t_def)
    note step = logical_cuts_step [OF assms(1,2) True, of project l s, folded t_def]
    have ts: "map (\<lambda>k. len * k div n) [i..<n] = t # map (\<lambda>k. len * k div n) [i + 1..<n]"
      using True by (simp add: upt_conv_Cons t_def)
    note IH = less.hyps [of "i + 1"]
    show ?thesis
    proof (cases "t \<le> l")
      case le: True
      then show ?thesis using IH [OF _ less.prems] True by (simp add: step ts)
    next
      case gt: False
      from project_step [OF less.prems(1) _ t] gt consider (fail) e where "may_fail" "project t s = Ret (Inl e)"
        | (ok) s' where "project t s = Ret (Inr (cutf t, s'))" "sinv (cutf t) s'" by auto
      then show ?thesis
      proof cases
        case fail
        with gt show ?thesis by (simp add: step)
      next
        case ok
        have c: "l < cutf t" "cutf t \<le> len" using cut_ge [of t] cut_le [of t] gt t by auto
        show ?thesis
        proof (cases "cutf t = len")
          case True
          have "plan_cuts cutf (map (\<lambda>k. len * k div n) [i + 1..<n]) len = []"
            using target_less [of _ n len] less.prems by (intro plan_cuts_done) (auto simp: less_imp_le)
          with True ok gt c less.prems show ?thesis by (simp add: step ts)
        next
          case False
          then have lt: "cutf t < len" "n - (i + 1) < n - i" using c \<open>i < n\<close> by auto
          from IH [OF lt(2) ok(2) lt(1)] consider (f) e where "may_fail" "logical_cuts project len n (i + 1) (cutf t) s' = Ret (Inl e)"
            | (g) cuts s2 where "logical_cuts project len n (i + 1) (cutf t) s' = Ret (Inr (cuts, s2))"
              "pairs (cutf t) cuts len = ranges_loop len (cutf t) (plan_cuts cutf (map (\<lambda>k. len * k div n) [i + 1..<n]) (cutf t))"
            by blast
          then show ?thesis using ok gt c False by cases (simp_all add: step ts)
        qed
      qed
    qed
  qed
qed

end

subsection \<open>Prefix sums\<close>

definition psum :: "bytes list \<Rightarrow> nat \<Rightarrow> nat" where
  "psum cs k = sum_list (map length (take k cs))"

definition logical_len :: "bytes list \<Rightarrow> nat" where
  "logical_len cs = sum_list (map length cs)"

definition prefixes_of :: "bytes list \<Rightarrow> nat list" where
  "prefixes_of cs = map (psum cs) [0..<Suc (length cs)]"

lemma psum_simps [simp]:
  "psum cs 0 = 0" "psum (c # cs) (Suc k) = length c + psum cs k"
  by (simp_all add: psum_def)

lemma psum_all: "psum cs (length cs) = logical_len cs"
  by (simp add: psum_def logical_len_def)

lemma psum_Suc: "k < length cs \<Longrightarrow> psum cs (Suc k) = psum cs k + length (cs ! k)"
  by (simp add: psum_def take_Suc_conv_app_nth)

lemma psum_mono: "j \<le> k \<Longrightarrow> psum cs j \<le> psum cs k"
proof -
  assume "j \<le> k"
  then have "take k cs = take j cs @ take (k - j) (drop j cs)" using take_add [of j "k - j" cs] by simp
  then show ?thesis by (simp add: psum_def)
qed

lemma psum_le: "psum cs k \<le> logical_len cs"
  unfolding psum_def logical_len_def
  by (metis append_take_drop_id le_add1 map_append sum_list_append)

lemma prefixes_nth: "k \<le> length cs \<Longrightarrow> prefixes_of cs ! k = psum cs k"
  unfolding prefixes_of_def by (simp add: less_Suc_eq_le del: upt_Suc)

lemma prefixes_length [simp]: "length (prefixes_of cs) = Suc (length cs)"
  by (simp add: prefixes_of_def)

lemma prefix_sums_gen:
  assumes "b + logical_len cs < 2 ^ 128" "\<forall>c\<in>set cs. length c < 2 ^ 64"
  shows "prefix_sums (map length cs) b = Inr (map (\<lambda>k. b + psum cs k) [0..<Suc (length cs)])"
  using assms
proof (induction cs arbitrary: b)
  case (Cons c cs)
  have "prefix_sums (map length cs) (b + length c) = Inr (map (\<lambda>k. b + length c + psum cs k) [0..<Suc (length cs)])"
    using Cons by (simp add: logical_len_def add.assoc)
  moreover have "[0..<Suc (length (c # cs))] = 0 # map Suc [0..<Suc (length cs)]"
    by (simp add: upt_conv_Cons map_Suc_upt del: upt_Suc)
  moreover have "b + length c < 2 ^ 128" using Cons.prems(1) by (simp add: logical_len_def)
  ultimately show ?case using Cons.prems(2) by (simp add: usize_to_u128_def add.assoc comp_def del: upt_Suc)
qed simp

lemma prefix_sums_spec:
  "logical_len cs \<le> usize_max \<Longrightarrow> \<forall>c\<in>set cs. length c < 2 ^ 64 \<Longrightarrow> prefix_sums (map length cs) 0 = Inr (prefixes_of cs)"
  using prefix_sums_gen [of 0 cs] by (simp add: prefixes_of_def max_consts)

lemma last_prefixes: "last (prefixes_of cs) = logical_len cs"
  by (simp add: prefixes_of_def psum_all)

subsection \<open>The logical boundary oracle\<close>

text \<open>
  The reference for a logical target: a target at a source boundary stays, any other moves to the
  first record boundary of its own source.
\<close>

fun lcut :: "bytes \<Rightarrow> bytes list \<Rightarrow> nat \<Rightarrow> nat" where
  "lcut p [] t = 0"
| "lcut p (c # cs) t =
     (if t = 0 then 0
      else if t < length c then record_cut p c t
      else length c + lcut p cs (t - length c))"

text \<open>A logical offset between two records, or between two sources.\<close>

fun lboundary :: "bytes \<Rightarrow> bytes list \<Rightarrow> nat \<Rightarrow> bool" where
  "lboundary p [] e \<longleftrightarrow> e = 0"
| "lboundary p (c # cs) e \<longleftrightarrow>
     e = 0 \<or> (e \<le> length c \<and> ends_after p c e) \<or> (length c \<le> e \<and> lboundary p cs (e - length c))"

lemma logical_len_simps [simp]: "logical_len [] = 0" "logical_len (c # cs) = length c + logical_len cs"
  by (simp_all add: logical_len_def)

lemma lboundary_zero: "lboundary p cs 0"
  by (cases cs) simp_all

lemma lcut_ge: "t \<le> logical_len cs \<Longrightarrow> t \<le> lcut p cs t"
proof (induction p cs t rule: lcut.induct)
  case (2 p c cs t)
  show ?case
  proof (cases "t < length c")
    case True
    then show ?thesis using record_cut_ge [of t c p] by simp
  next
    case False
    moreover have "t - length c \<le> logical_len cs" using 2(2) by simp
    ultimately show ?thesis using 2(1) by (cases "t = 0") auto
  qed
qed simp

lemma lcut_le: "lcut p cs t \<le> logical_len cs"
proof (induction p cs t rule: lcut.induct)
  case (2 p c cs t)
  then show ?case using record_cut_le [of p c t] by auto
qed simp

lemma lcut_boundary: "lcut p cs t = logical_len cs \<or> lboundary p cs (lcut p cs t)"
proof (induction p cs t rule: lcut.induct)
  case (2 p c cs t)
  show ?case
  proof (cases "0 < t \<and> t < length c")
    case True
    then show ?thesis
      using record_cut_boundary [of p c t] record_cut_le [of p c t] lboundary_zero [of p cs] by (auto simp: ends_after_def)
  next
    case False
    with 2 show ?thesis by auto
  qed
qed simp

interpretation logical: boundary_oracle "lcut p cs" "logical_len cs" "lboundary p cs" for p cs
  by unfold_locales (use lcut_ge lcut_le lcut_boundary in auto)

lemma lcut_prefix: "k \<le> length cs \<Longrightarrow> lcut p cs (psum cs k) = psum cs k"
proof (induction cs arbitrary: k)
  case (Cons c cs)
  then show ?case by (cases k) auto
qed (simp add: psum_def)

lemma lcut_at:
  "i < length cs \<Longrightarrow> psum cs i < t \<Longrightarrow> t < psum cs (Suc i) \<Longrightarrow>
     lcut p cs t = psum cs i + record_cut p (cs ! i) (t - psum cs i)"
proof (induction cs arbitrary: i t)
  case (Cons c cs)
  then show ?case by (cases i) (auto simp: diff_diff_add)
qed simp

subsection \<open>Boundaries of one source\<close>

lemma find_first_pattern_spec:
  assumes "valid_slice haystack" "valid_slice pat" "pat \<noteq> []"
  shows "find_first_pattern_from haystack pat = first_occ pat haystack"
proof (cases "length haystack < length pat")
  case True
  with assms show ?thesis by (simp add: find_first_pattern_from_def first_occ_short)
next
  case False
  let ?P = "\<lambda>i. starts_with (drop i haystack) pat" and ?is = "[0..<Suc (length haystack - length pat)]"
  have eq: "find_first_pattern_from haystack pat = find ?P ?is" using assms False by (simp add: find_first_pattern_from_def)
  show ?thesis
  proof (cases "first_occ pat haystack")
    case None
    then have "\<forall>i\<in>set ?is. \<not> ?P i" by (auto simp: first_occ_None_iff)
    with None eq show ?thesis by (simp add: find_None_iff del: upt_Suc)
  next
    case (Some k)
    then have k: "k + length pat \<le> length haystack" "?P k" "\<forall>j<k. \<not> ?P j"
      using first_occ_bound [OF Some] by (auto simp: first_occ_Some_iff)
    then have "find ?P ?is = Some k"
      by (auto simp: find_Some_iff nth_append less_Suc_eq_le simp del: upt_Suc intro!: exI [of _ k])
    with Some eq show ?thesis by simp
  qed
qed

text \<open>A search state whose last boundary is not past the target.\<close>

definition state_before :: "boundary_state \<Rightarrow> nat \<Rightarrow> bool" where
  "state_before st t \<longleftrightarrow> st_scan_from st \<le> t \<and> (case st_cached st of None \<Rightarrow> True | Some b \<Rightarrow> b \<le> t)"

lemma cached_after_None: "state_before st t \<Longrightarrow> cached_after t st = None"
  by (auto simp: state_before_def cached_after_def split: option.split)

lemma state_before_found: "b \<le> t \<Longrightarrow> state_before (snd (boundary_found b st)) t"
  by (simp add: state_before_def boundary_found_def)

lemma state_before_exact: "state_before st t \<Longrightarrow> t \<le> u \<Longrightarrow> state_before (snd (boundary_exact t st)) u"
  by (simp add: state_before_def boundary_exact_def)

lemma next_record_boundary_spec:
  assumes v: "valid_slice data" and t: "0 < t" "t \<le> length data" and st: "state_before st t"
  shows "\<exists>st'. next_record_boundary data t d st = Ret (record_cut [d] data t, st') \<and> (\<forall>u\<ge>record_cut [d] data t. state_before st' u)"
proof (cases "ends_after [d] data t")
  case True
  then have "data ! (t - 1) = d" "record_cut [d] data t = t" using t by (simp_all add: ends_after_single record_cut_def)
  with t v show ?thesis
    using state_before_exact [OF st]
    by (auto simp: next_record_boundary_def cached_after_None [OF st] index_at_def boundary_exact_def)
next
  case False
  then have "data ! (t - 1) \<noteq> d" using t by (simp add: ends_after_single)
  moreover have m: "max t (st_scan_from st) = t" using st by (simp add: state_before_def)
  ultimately have eq: "next_record_boundary data t d st = Ret (boundary_found
      (case position (\<lambda>b. b = d) (drop t data) of
         Some r \<Rightarrow> min (sat_add (sat_add t r) 1) (slen data) | None \<Rightarrow> slen data) st)"
    using t v by (simp add: next_record_boundary_def cached_after_None [OF st] index_at_def slice_from_def)
  have "(case position (\<lambda>b. b = d) (drop t data) of
         Some r \<Rightarrow> min (sat_add (sat_add t r) 1) (slen data) | None \<Rightarrow> slen data) = record_cut [d] data t"
  proof (cases "first_occ [d] (drop t data)")
    case None
    with False v show ?thesis using record_cut_none [OF False None] by (simp add: first_occ_single)
  next
    case (Some r)
    then have "t + r + 1 \<le> length data" using first_occ_bound [OF Some] t by simp
    moreover have "record_cut [d] data t = t + r + 1" using record_cut_found [OF t(2) False Some] by simp
    ultimately show ?thesis
      using Some v valid_slice_usize [OF v] by (simp add: first_occ_single sat_add_def)
  qed
  with eq state_before_found show ?thesis by (simp add: boundary_found_def)
qed

lemma next_record_boundary_pattern_spec:
  assumes v: "valid_slice data" "valid_slice p" "p \<noteq> []" and two: "slen p \<noteq> 1" and t: "t \<le> length data" and st: "state_before st t"
  shows "\<exists>st'. next_record_boundary_pattern data t p st = Ret (record_cut p data t, st') \<and> (\<forall>u\<ge>record_cut p data t. state_before st' u)"
proof -
  have ex: "(if t \<ge> slen p \<and> t \<le> slen data then rmap (\<lambda>w. w = p) (slice_range data (t - slen p) t) else Ret False) =
      Ret (ends_after p data t)"
    using exact_target_check [OF t, of p] t v by (auto split: if_splits)
  have m: "max t (st_scan_from st) = t" using st by (simp add: state_before_def)
  have l: "slen p > 1" using two v(2,3) by (cases p) auto
  have base: "next_record_boundary_pattern data t p st =
      (if ends_after p data t then Ret (boundary_exact t st)
       else if length data \<le> t then Ret (boundary_found (length data) st)
       else Ret (boundary_found
          (case first_occ p (drop t data) of
             Some r \<Rightarrow> min (sat_add (sat_add t r) (length p)) (length data) | None \<Rightarrow> length data) st))"
    unfolding next_record_boundary_pattern_def cached_after_None [OF st] ex m option.case Let_def
    using t v l by (simp add: slice_from_def find_first_pattern_spec cong: option.case_cong)
  show ?thesis
  proof (cases "ends_after p data t")
    case True
    then show ?thesis
      using state_before_exact [OF st] by (auto simp: base record_cut_def boundary_exact_def)
  next
    case False
    have "next_record_boundary_pattern data t p st = Ret (boundary_found (record_cut p data t) st)"
    proof (cases "t = length data")
      case True
      then have "record_cut p data t = length data" using record_cut_le [of p data t] record_cut_ge [of t data p] t by simp
      with base True False show ?thesis by simp
    next
      case lt: False
      show ?thesis
      proof (cases "first_occ p (drop t data)")
        case None
        with base lt t False show ?thesis using record_cut_none [OF False None] by simp
      next
        case (Some r)
        then have "t + r + length p \<le> length data" using first_occ_bound [OF Some] t by simp
        moreover have "record_cut p data t = t + r + length p" using record_cut_found [OF t False Some v(3)] by simp
        ultimately show ?thesis using Some base lt t False valid_slice_usize [OF v(1)] by (simp add: sat_add_def)
      qed
    qed
    with state_before_found show ?thesis by (simp add: boundary_found_def)
  qed
qed

subsection \<open>Projection of a target\<close>

text \<open>The search states that go with the last cut \<open>l\<close>.\<close>

definition states_ok :: "bytes list \<Rightarrow> nat \<Rightarrow> boundary_state list \<Rightarrow> bool" where
  "states_ok cs l states \<longleftrightarrow>
     length states = length cs \<and> (\<forall>i<length cs. \<forall>t. l < t \<and> psum cs i \<le> t \<longrightarrow> state_before (states ! i) (t - psum cs i))"

lemma partition_point_prefixes:
  assumes "t < logical_len cs"
  obtains i where "partition_point (\<lambda>x. x \<le> t) (prefixes_of cs) = Suc i" "i < length cs" "psum cs i \<le> t" "t < psum cs (Suc i)"
proof -
  let ?w = "takeWhile (\<lambda>x. x \<le> t) (prefixes_of cs)"
  have lw: "length ?w < Suc (length cs)"
  proof (rule ccontr)
    assume "\<not> length ?w < Suc (length cs)"
    then have "?w = prefixes_of cs" using length_takeWhile_le [of "\<lambda>x. x \<le> t" "prefixes_of cs"] by (metis le_antisym not_less prefixes_length takeWhile_eq_take take_all_iff)
    then have "last (prefixes_of cs) \<le> t" by (metis last_in_set length_0_conv nat.simps(3) prefixes_length set_takeWhileD)
    with assms show False by (simp add: last_prefixes)
  qed
  have "prefixes_of cs ! 0 \<le> t" by (simp add: prefixes_nth)
  then have "?w \<noteq> []" by (cases "prefixes_of cs") (auto simp: prefixes_of_def)
  then obtain i where i: "length ?w = Suc i" by (cases "length ?w") auto
  have "psum cs i \<le> t"
    using set_takeWhileD [of "?w ! i" "\<lambda>x. x \<le> t" "prefixes_of cs"] i lw takeWhile_nth [of i "\<lambda>x. x \<le> t" "prefixes_of cs"]
    by (metis less_Suc_eq_le lessI nth_mem prefixes_nth less_imp_le Suc_less_eq)
  moreover have "t < psum cs (Suc i)"
    using nth_length_takeWhile [of "\<lambda>x. x \<le> t" "prefixes_of cs"] lw i by (simp add: prefixes_nth not_le)
  ultimately show thesis using that i lw by (simp add: partition_point_def)
qed

lemma states_ok_mono: "states_ok cs l states \<Longrightarrow> l \<le> l' \<Longrightarrow> states_ok cs l' states"
  by (auto simp: states_ok_def)

lemma states_ok_initial: "states_ok cs 0 (replicate (length cs) boundary_default)"
  by (simp add: states_ok_def state_before_def boundary_default_def)

lemma states_ok_update:
  assumes "states_ok cs l states" "l \<le> psum cs i + b" "i < length cs" "\<forall>u\<ge>b. state_before st u"
  shows "states_ok cs (psum cs i + b) (states[i := st])"
  unfolding states_ok_def
proof (intro conjI allI impI)
  fix j t
  assume j: "j < length cs" and t: "psum cs i + b < t \<and> psum cs j \<le> t"
  show "state_before (states[i := st] ! j) (t - psum cs j)"
  proof (cases "j = i")
    case True
    moreover have "b \<le> t - psum cs i" using t by linarith
    ultimately show ?thesis using assms(1,3,4) by (simp add: states_ok_def)
  next
    case False
    with t j assms(1,2) show ?thesis by (simp add: states_ok_def)
  qed
qed (use assms(1) in \<open>simp add: states_ok_def\<close>)

text \<open>What the planner needs to know of the open sources.\<close>

definition sources_show :: "os_env \<Rightarrow> trace \<Rightarrow> mmap_chunker list \<Rightarrow> bytes list \<Rightarrow> bool" where
  "sources_show env tr sources cs \<longleftrightarrow>
     map (\<lambda>c. chunker_as_bytes env c tr) sources = cs \<and> map chunker_len sources = map length cs \<and>
     (\<forall>c\<in>set cs. valid_slice c) \<and> logical_len cs \<le> usize_max"

lemma sources_showD:
  assumes "sources_show env tr sources cs"
  shows "length sources = length cs" "\<And>i. i < length cs \<Longrightarrow> chunker_as_bytes env (sources ! i) tr = cs ! i"
    "map chunker_len sources = map length cs" "\<And>i. i < length cs \<Longrightarrow> valid_slice (cs ! i)" "logical_len cs \<le> usize_max"
  using assms by (auto simp: sources_show_def)

text \<open>
  A target is the end of a source, where it stays, or lies inside a source, where it becomes a local
  target.
\<close>

lemma lcut_exact: "t \<in> set (prefixes_of cs) \<Longrightarrow> lcut p cs t = t"
  by (auto simp: prefixes_of_def less_Suc_eq_le lcut_prefix simp del: upt_Suc)

lemma target_source:
  assumes "t < logical_len cs" "t \<notin> set (prefixes_of cs)"
  obtains i where "partition_point (\<lambda>x. x \<le> t) (prefixes_of cs) = Suc i" "i < length cs" "psum cs i < t" "t < psum cs (Suc i)"
    "psum cs (Suc i) = psum cs i + length (cs ! i)" "\<And>p. lcut p cs t = psum cs i + record_cut p (cs ! i) (t - psum cs i)"
    "index_at (prefixes_of cs) i = Ret (psum cs i)" "index_at (prefixes_of cs) (Suc i) = Ret (psum cs (Suc i))"
proof -
  obtain i where i: "partition_point (\<lambda>x. x \<le> t) (prefixes_of cs) = Suc i" "i < length cs" "psum cs i \<le> t" "t < psum cs (Suc i)"
    using partition_point_prefixes [OF assms(1)] by blast
  have "psum cs i \<in> set (prefixes_of cs)" using i(2) by (simp add: prefixes_of_def)
  with assms(2) i(3) have "psum cs i < t" by (cases "psum cs i = t") auto
  with that i show thesis by (simp add: lcut_at psum_Suc index_at_def prefixes_nth)
qed

lemma project_logical_target_spec:
  assumes src: "sources_show env tr sources cs" and p: "valid_slice p" "p \<noteq> []"
    and st: "states_ok cs l states" and t: "l < t" "t < logical_len cs"
  shows "\<exists>states'. project_logical_target env tr t (prefixes_of cs) sources p states = Ret (Inr (lcut p cs t, states')) \<and>
     states_ok cs (lcut p cs t) states'"
proof (cases "t \<in> set (prefixes_of cs)")
  case True
  with st t states_ok_mono lcut_exact show ?thesis by (simp add: project_logical_target_def binary_search_ok_def)
next
  case False
  obtain i where i: "partition_point (\<lambda>x. x \<le> t) (prefixes_of cs) = Suc i" "i < length cs" "psum cs i < t" "t < psum cs (Suc i)"
    "psum cs (Suc i) = psum cs i + length (cs ! i)" "lcut p cs t = psum cs i + record_cut p (cs ! i) (t - psum cs i)"
    using target_source [OF t(2) False] by metis
  let ?t = "t - psum cs i" and ?d = "cs ! i"
  note sd = sources_showD [OF src]
  have v: "valid_slice ?d" "0 < ?t" "?t \<le> length ?d" using sd(4) i by auto
  have sb: "state_before (states ! i) ?t" "length states = length cs" using st t(1) i(2,3) by (simp_all add: states_ok_def)
  note cut = i(6)
  obtain st' where r: "(if slen p = 1 then rbind (index_at p 0) (\<lambda>d. next_record_boundary ?d ?t d (states ! i))
        else next_record_boundary_pattern ?d ?t p (states ! i)) = Ret (record_cut p ?d ?t, st')"
    "\<forall>u\<ge>record_cut p ?d ?t. state_before st' u"
  proof (cases "slen p = 1")
    case True
    then obtain x where "p = [x]" using p(1) by (auto simp: length_Suc_conv)
    with that next_record_boundary_spec [OF v sb(1), of x] True show thesis by (auto simp: index_at_def)
  next
    case False
    with that next_record_boundary_pattern_spec [OF v(1) p _ v(3) sb(1)] show thesis by auto
  qed
  have "record_cut p ?d ?t < 2 ^ 64" "?t \<le> usize_max"
    using record_cut_le [of p ?d ?t] valid_slice_usize [OF v(1)] v(3) by (simp_all add: max_consts)
  then have "project_logical_target env tr t (prefixes_of cs) sources p states = Ret (Inr (lcut p cs t, states[i := st']))"
    using False i(1,2) sd(1,2) sb(2) r(1) cut
    by (simp add: project_logical_target_def binary_search_ok_def index_at_def prefixes_nth usize_from_u128_def usize_to_u128_def)
  moreover have "states_ok cs (lcut p cs t) (states[i := st'])"
    using states_ok_update [OF st _ i(2) r(2)] lcut_ge [of t cs p] t cut by simp
  ultimately show ?thesis by blast
qed

subsection \<open>Intervals as source ranges\<close>

text \<open>The ranges of an interval, relative to the sources that remain.\<close>

fun rel_ranges :: "nat \<Rightarrow> bytes list \<Rightarrow> nat \<Rightarrow> nat \<Rightarrow> source_range list" where
  "rel_ranges i [] s e = []"
| "rel_ranges i (c # cs) s e =
     (if min s (length c) < min e (length c)
      then [\<lparr>sr_source = i, sr_start = min s (length c), sr_end_exclusive = min e (length c),
             sr_length = min e (length c) - min s (length c)\<rparr>]
      else []) @ rel_ranges (Suc i) cs (s - length c) (e - length c)"

lemma interval_loop_spec:
  assumes "j \<le> length cs" "\<forall>c\<in>set cs. length c \<le> usize_max"
  shows "interval_loop s e (prefixes_of cs) [j..<length cs] =
     Ret (Inr (rel_ranges j (drop j cs) (s - psum cs j) (e - psum cs j)))"
  using assms(1)
proof (induction "length cs - j" arbitrary: j)
  case 0
  then show ?case by simp
next
  case (Suc k)
  then have j: "j < length cs" by simp
  let ?c = "cs ! j" and ?a = "psum cs j"
  have up: "[j..<length cs] = j # [Suc j..<length cs]" "drop j cs = ?c # drop (Suc j) cs"
    using j by (simp_all add: upt_conv_Cons Cons_nth_drop_Suc)
  have ps: "psum cs (Suc j) = ?a + length ?c" using psum_Suc [OF j] .
  have IH: "interval_loop s e (prefixes_of cs) [Suc j..<length cs] =
      Ret (Inr (rel_ranges (Suc j) (drop (Suc j) cs) (s - ?a - length ?c) (e - ?a - length ?c)))"
    using Suc.hyps(1) [of "Suc j"] Suc.hyps(2) j ps by (simp add: diff_diff_add)
  have lc: "length ?c \<le> usize_max" using assms(2) j by simp
  have ix: "index_at (prefixes_of cs) j = Ret ?a" "index_at (prefixes_of cs) (j + 1) = Ret (?a + length ?c)"
    using j ps by (simp_all add: index_at_def prefixes_nth)
  show ?case
  proof (cases "max s ?a < min e (?a + length ?c)")
    case True
    define ls le where "ls = min (s - ?a) (length ?c)" and "le = min (e - ?a) (length ?c)"
    have r: "max s ?a - ?a = ls" "min e (?a + length ?c) - ?a = le" "ls < le" using True unfolding ls_def le_def by linarith+
    have nc: "\<not> min e (?a + length ?c) \<le> max s ?a" using True by linarith
    have "ls \<le> usize_max" "le \<le> usize_max" using lc by (simp_all add: ls_def le_def)
    then show ?thesis
      unfolding up interval_loop.simps rel_ranges.simps ix rbind.simps Let_def r(1,2) if_not_P [OF nc] ls_def [symmetric] le_def [symmetric]
      using r(3) IH by (simp add: usize_from_u128_def)
  next
    case False
    then have n: "min e (?a + length ?c) \<le> max s ?a" "\<not> min (s - ?a) (length ?c) < min (e - ?a) (length ?c)"
      by linarith+
    show ?thesis
      unfolding up interval_loop.simps rel_ranges.simps ix rbind.simps Let_def if_P [OF n(1)] if_not_P [OF n(2)]
      using IH by simp
  qed
qed

lemma ranges_for_interval_spec:
  assumes "\<forall>c\<in>set cs. length c \<le> usize_max" "s < e"
  shows "ranges_for_interval s e (prefixes_of cs) (length cs) = Ret (Inr (rel_ranges 0 cs s e))"
  using interval_loop_spec [OF _ assms(1), of 0 s e] assms(2) by (simp add: ranges_for_interval_def)

text \<open>The bytes a list of source ranges stands for.\<close>

definition range_bytes :: "bytes list \<Rightarrow> source_range \<Rightarrow> bytes" where
  "range_bytes cs r = subslice (cs ! sr_source r) (sr_start r, sr_end_exclusive r)"

lemma rel_ranges_source: "r \<in> set (rel_ranges i cs s e) \<Longrightarrow> i \<le> sr_source r \<and> sr_source r < i + length cs"
  by (induction i cs s e rule: rel_ranges.induct) (fastforce split: if_splits)+

lemma subslice_nil: "b \<le> a \<Longrightarrow> subslice xs (a, b) = []"
  by (simp add: subslice_def)

lemma subslice_append:
  "subslice (xs @ ys) (s, e) = subslice xs (min s (length xs), min e (length xs)) @ subslice ys (s - length xs, e - length xs)"
proof (cases "s \<le> length xs")
  case True
  then show ?thesis by (simp add: subslice_def min_def)
next
  case False
  then show ?thesis by (simp add: subslice_def diff_diff_add)
qed

lemma rel_ranges_bytes:
  "concat (map (\<lambda>r. subslice (cs ! (sr_source r - i)) (sr_start r, sr_end_exclusive r)) (rel_ranges i cs s e)) = subslice (concat cs) (s, e)"
proof (induction i cs s e rule: rel_ranges.induct)
  case (2 i c cs s e)
  have eqm: "map (\<lambda>r. subslice ((c # cs) ! (sr_source r - i)) (sr_start r, sr_end_exclusive r)) (rel_ranges (Suc i) cs (s - length c) (e - length c)) =
      map (\<lambda>r. subslice (cs ! (sr_source r - Suc i)) (sr_start r, sr_end_exclusive r)) (rel_ranges (Suc i) cs (s - length c) (e - length c))"
  proof (rule map_cong [OF refl])
    fix r
    assume "r \<in> set (rel_ranges (Suc i) cs (s - length c) (e - length c))"
    then have "sr_source r - i = Suc (sr_source r - Suc i)" using rel_ranges_source by fastforce
    then show "subslice ((c # cs) ! (sr_source r - i)) (sr_start r, sr_end_exclusive r) =
        subslice (cs ! (sr_source r - Suc i)) (sr_start r, sr_end_exclusive r)" by simp
  qed
  have nil: "subslice c (min s (length c), min e (length c)) = []" if "\<not> min s (length c) < min e (length c)"
    using that by (intro subslice_nil) linarith
  show ?case
    unfolding rel_ranges.simps map_append concat_append eqm 2 concat.simps subslice_append [of c "concat cs" s e]
    using nil by simp
qed (simp add: subslice_def)

text \<open>Every range is a non-empty piece of its source that starts and ends between records.\<close>

definition range_ok :: "bytes \<Rightarrow> bytes list \<Rightarrow> source_range \<Rightarrow> bool" where
  "range_ok p cs r \<longleftrightarrow>
     sr_source r < length cs \<and> sr_start r < sr_end_exclusive r \<and> sr_end_exclusive r \<le> length (cs ! sr_source r) \<and>
     sr_length r = sr_end_exclusive r - sr_start r \<and>
     (sr_start r = 0 \<or> ends_after p (cs ! sr_source r) (sr_start r)) \<and>
     (sr_end_exclusive r = length (cs ! sr_source r) \<or> ends_after p (cs ! sr_source r) (sr_end_exclusive r))"

lemma lboundary_tail: "lboundary p (c # cs) e \<Longrightarrow> lboundary p cs (e - length c)"
  using lboundary_zero [of p cs] by (auto simp: le_antisym)

lemma rel_ranges_ok:
  "lboundary p cs s \<Longrightarrow> lboundary p cs e \<Longrightarrow> r \<in> set (rel_ranges i cs s e) \<Longrightarrow>
     range_ok p cs (r\<lparr>sr_source := sr_source r - i\<rparr>)"
proof (induction i cs s e arbitrary: r rule: rel_ranges.induct)
  case (2 i c cs s e)
  show ?case
  proof (cases "r \<in> set (rel_ranges (Suc i) cs (s - length c) (e - length c))")
    case True
    then have "range_ok p cs (r\<lparr>sr_source := sr_source r - Suc i\<rparr>)" using 2 lboundary_tail by blast
    moreover have "sr_source r - i = Suc (sr_source r - Suc i)" using rel_ranges_source [OF True] by linarith
    ultimately show ?thesis by (simp add: range_ok_def)
  next
    case False
    with 2(4) have lt: "min s (length c) < min e (length c)" and r: "r = \<lparr>sr_source = i, sr_start = min s (length c),
        sr_end_exclusive = min e (length c), sr_length = min e (length c) - min s (length c)\<rparr>"
      by (auto split: if_splits)
    have "s < length c" "s < e" using lt by auto
    with 2(2,3) lt show ?thesis by (auto simp: r range_ok_def min_def)
  qed
qed simp

subsection \<open>Assignments\<close>

text \<open>Workers numbered from \<open>k\<close>, one for each interval.\<close>

fun workers :: "bytes list \<Rightarrow> nat \<Rightarrow> brange list \<Rightarrow> worker_assignment list" where
  "workers cs k [] = []"
| "workers cs k ((s, e) # rs) = \<lparr>wa_worker = k, wa_ranges = rel_ranges 0 cs s e\<rparr> # workers cs (Suc k) rs"

lemma rel_ranges_nonempty:
  assumes "s < e" "e \<le> logical_len cs"
  shows "rel_ranges i cs s e \<noteq> []"
proof
  assume "rel_ranges i cs s e = []"
  then have "subslice (concat cs) (s, e) = []" using rel_ranges_bytes [of cs i s e] by simp
  moreover have "length (concat cs) = logical_len cs" by (simp add: length_concat logical_len_def)
  ultimately show False using assms length_subslice [of e "concat cs" s] by simp
qed

lemma assign_loop_spec:
  assumes "\<forall>c\<in>set cs. length c \<le> usize_max"
  shows "tiles s (pairs s cuts (logical_len cs)) (logical_len cs) \<Longrightarrow>
     assign_loop (prefixes_of cs) (length cs) s k (cuts @ [logical_len cs]) = Ret (Inr (workers cs k (pairs s cuts (logical_len cs))))"
proof (induction cuts arbitrary: s k)
  case Nil
  then show ?case using ranges_for_interval_spec [OF assms] rel_ranges_nonempty by simp
next
  case (Cons c cuts)
  then have "s < c" "c \<le> logical_len cs" using tiles_le by auto
  with Cons show ?case using ranges_for_interval_spec [OF assms, of s c] rel_ranges_nonempty [of s c cs 0] by simp
qed

lemma workers_ranges:
  "length (workers cs k rs) = length rs"
  "map wa_worker (workers cs k rs) = [k..<k + length rs]"
  "concat (map (\<lambda>w. concat (map (range_bytes cs) (wa_ranges w))) (workers cs k rs)) = concat (map (subslice (concat cs)) rs)"
proof -
  have b: "concat (map (range_bytes cs) (rel_ranges 0 cs s e)) = subslice (concat cs) (s, e)" for cs s e
    using rel_ranges_bytes [of cs 0 s e] unfolding range_bytes_def by simp
  show "length (workers cs k rs) = length rs" by (induction cs k rs rule: workers.induct) auto
  show "map wa_worker (workers cs k rs) = [k..<k + length rs]"
    by (induction cs k rs rule: workers.induct) (simp_all add: upt_conv_Cons del: upt_Suc)
  show "concat (map (\<lambda>w. concat (map (range_bytes cs) (wa_ranges w))) (workers cs k rs)) = concat (map (subslice (concat cs)) rs)"
    by (induction cs k rs rule: workers.induct) (simp_all add: b)
qed

lemma workers_ok:
  assumes "w \<in> set (workers cs k rs)" "\<And>s e. (s, e) \<in> set rs \<Longrightarrow> s < e \<and> e \<le> logical_len cs \<and> lboundary p cs s \<and> lboundary p cs e"
  shows "wa_ranges w \<noteq> [] \<and> (\<forall>r\<in>set (wa_ranges w). range_ok p cs r)"
  using assms
proof (induction cs k rs rule: workers.induct)
  case (2 cs k s e rs)
  have se: "s < e" "e \<le> logical_len cs" "lboundary p cs s" "lboundary p cs e" using 2(3) [of s e] by simp_all
  show ?case
  proof (cases "w = \<lparr>wa_worker = k, wa_ranges = rel_ranges 0 cs s e\<rparr>")
    case True
    with se rel_ranges_nonempty [OF se(1,2)] rel_ranges_ok [OF se(3,4), of _ 0] show ?thesis by simp
  next
    case False
    then have w: "w \<in> set (workers cs (Suc k) rs)" using 2(2) by simp
    show ?thesis by (rule 2(1) [OF w]) (rule 2(3), simp)
  qed
qed simp

lemma lboundary_end: "lboundary p cs (logical_len cs)"
  by (induction cs) auto

text \<open>Inner ends of a tiling by the oracle are boundaries, so starts are too.\<close>

lemma tiles_boundaries:
  assumes "tiles a rs b" "P a" "\<And>s e. (s, e) \<in> set rs \<Longrightarrow> P e" "(s, e) \<in> set rs"
  shows "P s \<and> P e"
  using assms
proof (induction a rs b arbitrary: s e rule: tiles.induct)
  case (2 s' a b rs e')
  show ?case
  proof (cases "(s, e) = (a, b)")
    case True
    with 2 show ?thesis by auto
  next
    case False
    with 2 show ?thesis by (metis list.set_intros(1,2) set_ConsD tiles.simps(2))
  qed
qed simp

definition mapped_inv :: "os_env \<Rightarrow> trace \<Rightarrow> mmap_chunker list \<Rightarrow> bytes \<Rightarrow> bytes list \<Rightarrow> nat \<Rightarrow> boundary_state list \<Rightarrow> bool" where
  "mapped_inv env tr sources p cs l states \<longleftrightarrow>
     valid_slice p \<and> p \<noteq> [] \<and> sources_show env tr sources cs \<and> states_ok cs l states"

interpretation mapped: projection "lcut p cs" "logical_len cs" "lboundary p cs"
  "\<lambda>t states. project_logical_target env tr t (prefixes_of cs) sources p states"
  "mapped_inv env tr sources p cs" False for env tr sources p cs
proof unfold_locales
  fix l t :: nat and s
  assume "mapped_inv env tr sources p cs l s" "l < t" "t < logical_len cs"
  then show "(False \<and> (\<exists>e. project_logical_target env tr t (prefixes_of cs) sources p s = Ret (Inl e))) \<or>
      (\<exists>s'. project_logical_target env tr t (prefixes_of cs) sources p s = Ret (Inr (lcut p cs t, s')) \<and>
        mapped_inv env tr sources p cs (lcut p cs t) s')"
    using project_logical_target_spec [of env tr sources cs p l s t] by (auto simp: mapped_inv_def)
qed

lemma plan_logical_spec:
  assumes src: "sources_show env tr sources cs" and p: "valid_slice p" "p \<noteq> []" and n: "0 < n" "n \<le> usize_max"
  shows "plan_logical_partitions env tr sources n p = Ret (Inr (workers cs 0 (plan_spec (lcut p cs) (logical_len cs) n)))"
proof -
  let ?len = "logical_len cs" and ?eff = "effective_parts_of n (logical_len cs)"
  note sd = sources_showD [OF src]
  have vs: "\<forall>c\<in>set cs. length c < 2 ^ 64" "\<forall>c\<in>set cs. length c \<le> usize_max"
    using src valid_slice_usize by (fastforce simp: sources_show_def max_consts)+
  have pre: "prefix_sums (map chunker_len sources) 0 = Inr (prefixes_of cs)"
    using prefix_sums_spec [OF sd(5) vs(1)] sd(3) by simp
  show ?thesis
  proof (cases "?len = 0")
    case True
    with pre n show ?thesis by (simp add: plan_logical_partitions_def last_prefixes plan_spec_def)
  next
    case False
    have eff: "?eff = min n ?len" "0 < ?eff" "?eff \<le> usize_max" using sd(5) n False by (auto simp: effective_parts_of_def)
    have inv: "mapped_inv env tr sources p cs 0 (replicate (length sources) boundary_default)"
      using src p states_ok_initial [of cs] sd(1) by (simp add: mapped_inv_def)
    obtain cuts s' where cuts:
      "logical_cuts (\<lambda>t states. project_logical_target env tr t (prefixes_of cs) sources p states) ?len ?eff 1 0
         (replicate (length sources) boundary_default) = Ret (Inr (cuts, s'))"
      "pairs 0 cuts ?len = ranges_loop ?len 0 (plan_cuts (lcut p cs) (map (\<lambda>k. ?len * k div ?eff) [1..<?eff]) 0)"
      using mapped.logical_cuts_spec [OF sd(5) eff(3) inv] False by blast
    have ps: "pairs 0 cuts ?len = plan_spec (lcut p cs) ?len n"
      using cuts(2) eff False logical.plan_spec_cap [of p cs n] by (simp add: plan_spec_def ideal_targets_def)
    have "tiles 0 (pairs 0 cuts ?len) ?len" unfolding ps by (rule logical.plan_spec_tiles [OF n(1)])
    from assign_loop_spec [OF vs(2) this, of 0] show ?thesis
      using pre cuts(1) n False sd(1) ps by (simp add: plan_logical_partitions_def last_prefixes)
  qed
qed

lemma plan_cuts_cong:
  "(\<And>t. t \<in> set ts \<Longrightarrow> 0 < t \<Longrightarrow> f t = g t) \<Longrightarrow> plan_cuts f ts l = plan_cuts g ts l"
  by (induction ts arbitrary: l) auto

lemma plan_spec_single: "plan_spec (lcut p [c]) (length c) n = plan_spec (record_cut p c) (length c) n"
proof (cases "n = 0 \<or> c = []")
  case False
  have "lcut p [c] t = record_cut p c t" if "t \<in> set (ideal_targets (length c) n)" "0 < t" for t
    using that False target_less [of _ n "length c"] by (auto simp: ideal_targets_def)
  then show ?thesis using plan_cuts_cong [of "ideal_targets (length c) n" "lcut p [c]" "record_cut p c" 0] by (simp add: plan_spec_def)
qed (auto simp: plan_spec_def)

lemma workers_single:
  "(\<And>s e. (s, e) \<in> set rs \<Longrightarrow> s < e \<and> e \<le> length c) \<Longrightarrow>
     map wa_ranges (workers [c] k rs) =
     map (\<lambda>(s, e). [\<lparr>sr_source = 0, sr_start = s, sr_end_exclusive = e, sr_length = e - s\<rparr>]) rs"
proof (induction "[c]" k rs rule: workers.induct)
  case (2 k s e rs)
  then have "s < e" "e \<le> length c" by auto
  moreover have "map wa_ranges (workers [c] (Suc k) rs) =
     map (\<lambda>(s, e). [\<lparr>sr_source = 0, sr_start = s, sr_end_exclusive = e, sr_length = e - s\<rparr>]) rs"
    by (rule 2(1)) (rule 2(2), simp)
  ultimately show ?case by (simp add: min_def)
qed simp

subsection \<open>Claims\<close>

text \<open>The assignment of a plan reads every byte once, in pieces made of whole records.\<close>

lemma workers_plan_correct:
  fixes contents p n
  defines "ws \<equiv> workers contents 0 (plan_spec (lcut p contents) (logical_len contents) n)"
  assumes "0 < n"
  shows "map wa_worker ws = [0..<length ws]" "length ws \<le> n"
    "concat (map (\<lambda>w. concat (map (range_bytes contents) (wa_ranges w))) ws) = concat contents"
    "\<forall>w\<in>set ws. wa_ranges w \<noteq> [] \<and> (\<forall>r\<in>set (wa_ranges w). range_ok p contents r)"
proof -
  let ?len = "logical_len contents" and ?rs = "plan_spec (lcut p contents) (logical_len contents) n"
  have tiles: "tiles 0 ?rs ?len" by (rule logical.plan_spec_tiles [OF assms(2)])
  have ends: "lboundary p contents e" if "(s, e) \<in> set ?rs" for s e
    using logical.plan_spec_boundary [OF that] lboundary_end by auto
  have "s < e \<and> e \<le> ?len \<and> lboundary p contents s \<and> lboundary p contents e" if se: "(s, e) \<in> set ?rs" for s e
    using tiles_mem [OF tiles se] tiles_boundaries [of 0 ?rs ?len "lboundary p contents", OF tiles lboundary_zero ends se] by simp
  then show "\<forall>w\<in>set ws. wa_ranges w \<noteq> [] \<and> (\<forall>r\<in>set (wa_ranges w). range_ok p contents r)"
    unfolding ws_def using workers_ok [of _ contents 0 ?rs p] by blast
  have "concat (map (subslice (concat contents)) ?rs) = concat contents"
    using tiles by (intro concat_tiles) (simp add: length_concat logical_len_def)
  then show "concat (map (\<lambda>w. concat (map (range_bytes contents) (wa_ranges w))) ws) = concat contents"
    by (simp add: ws_def workers_ranges)
  show "map wa_worker ws = [0..<length ws]" by (simp add: ws_def workers_ranges)
  show "length ws \<le> n" using logical.plan_spec_count [of p contents n] by (simp add: ws_def workers_ranges)
qed

text \<open>
  Claim C8: planning logical partitions over open sources never panics and never fails when the
  total length fits a machine word. The workers are numbered from zero without gaps, there are at
  most as many as requested, and reading their ranges in order yields the bytes of all files in
  order, each byte once. Every range is a non-empty piece of one file that starts and ends at a
  record boundary of that file or at its ends, and its length field is right.
\<close>

theorem logical_plan_correct:
  assumes "map (\<lambda>c. chunker_as_bytes env c tr) sources = contents" "map chunker_len sources = map length contents"
    "\<forall>c\<in>set contents. valid_slice c" "sum_list (map length contents) \<le> usize_max"
    "valid_slice delimiter" "delimiter \<noteq> []" "0 < requested_parts" "requested_parts \<le> usize_max"
  shows "\<exists>ws. plan_logical_partitions env tr sources requested_parts delimiter = Ret (Inr ws) \<and>
     map wa_worker ws = [0..<length ws] \<and> length ws \<le> requested_parts \<and>
     concat (map (\<lambda>w. concat (map (range_bytes contents) (wa_ranges w))) ws) = concat contents \<and>
     (\<forall>w\<in>set ws. wa_ranges w \<noteq> [] \<and> (\<forall>r\<in>set (wa_ranges w). range_ok delimiter contents r))"
proof -
  have src: "sources_show env tr sources contents" using assms(1-4) by (simp add: sources_show_def logical_len_def)
  show ?thesis using plan_logical_spec [OF src assms(5-8)] workers_plan_correct [OF assms(7), of contents delimiter] by blast
qed

lemma sim_source:
  obtains c tr where "chunker_as_bytes (sim_env (\<lambda>_. [97, 10, 98])) c tr = [97, 10, 98]" "chunker_len c = Suc (Suc (Suc 0))"
proof -
  obtain c tr where "chunker_open Unix (sim_env (\<lambda>_. [97, 10, 98])) ''f'' [] = (Inr c, tr)" by (rule sim_chunker_open)
  then have "maps_file (sim_env (\<lambda>_. [97, 10, 98])) [97, 10, 98] (mc_mmap c) tr"
    using open_inv(1) [OF sim_chunker_contract env_trace_Nil] by (simp add: chunker_inv_def)
  from maps_fileD [OF this] show thesis
    by (intro that) (simp_all add: chunker_as_bytes_def chunker_len_def mmap_len_def)
qed

theorem logical_plan_correct_witness:
  "\<exists>c tr ws. plan_logical_partitions (sim_env (\<lambda>_. [97, 10, 98])) tr [c, c] 2 [10] = Ret (Inr ws) \<and>
     concat (map (\<lambda>w. concat (map (range_bytes [[97, 10, 98], [97, 10, 98]]) (wa_ranges w))) ws) = [97, 10, 98, 97, 10, 98]"
proof -
  obtain c tr where c: "chunker_as_bytes (sim_env (\<lambda>_. [97, 10, 98])) c tr = [97, 10, 98]" "chunker_len c = Suc (Suc (Suc 0))" by (rule sim_source)
  have "\<exists>ws. plan_logical_partitions (sim_env (\<lambda>_. [97, 10, 98])) tr [c, c] 2 [10] = Ret (Inr ws) \<and>
     map wa_worker ws = [0..<length ws] \<and> length ws \<le> 2 \<and>
     concat (map (\<lambda>w. concat (map (range_bytes [[97, 10, 98], [97, 10, 98]]) (wa_ranges w))) ws) = concat [[97, 10, 98], [97, 10, 98]] \<and>
     (\<forall>w\<in>set ws. wa_ranges w \<noteq> [] \<and> (\<forall>r\<in>set (wa_ranges w). range_ok [10] [[97, 10, 98], [97, 10, 98]] r))"
    using c by (intro logical_plan_correct) (simp_all add: valid_slice_def max_consts)
  then show ?thesis by auto
qed

text \<open>
  On a single file, planning logical partitions gives exactly the ranges of the
  single-file planner, one worker and one range for each.
\<close>

lemma logical_single_file:
  assumes "chunker_as_bytes env c tr = content" "chunker_len c = length content" "valid_slice content"
    "valid_slice delimiter" "delimiter \<noteq> []" "0 < requested_parts" "requested_parts \<le> usize_max"
  shows "\<exists>ws rs. plan_logical_partitions env tr [c] requested_parts delimiter = Ret (Inr ws) \<and>
     find_partition_boundaries_pattern ptr content requested_parts delimiter = Ret rs \<and>
     map wa_worker ws = [0..<length rs] \<and>
     map wa_ranges ws = map (\<lambda>(s, e). [\<lparr>sr_source = 0, sr_start = s, sr_end_exclusive = e, sr_length = e - s\<rparr>]) rs"
proof -
  let ?rs = "plan_spec (record_cut delimiter content) (length content) requested_parts"
  have src: "sources_show env tr [c] [content]"
    using assms(1-3) valid_slice_usize [OF assms(3)] by (simp add: sources_show_def)
  have "s < e \<and> e \<le> length content" if "(s, e) \<in> set ?rs" for s e
    using tiles_mem [OF rec.plan_spec_tiles [OF assms(6)] that] by simp
  then have "map wa_ranges (workers [content] 0 ?rs) =
      map (\<lambda>(s, e). [\<lparr>sr_source = 0, sr_start = s, sr_end_exclusive = e, sr_length = e - s\<rparr>]) ?rs" by (rule workers_single)
  then show ?thesis
    using plan_logical_spec [OF src assms(4-7)] find_partition_boundaries_pattern_spec [OF assms(3-5)]
    by (simp add: plan_spec_single plan_spec_min workers_ranges)
qed

end
