(* ===== verification/Cli_Args.thy ===== *)
theory Cli_Args
  imports Cli_Logical Source_Backends Os_Sim
begin

section \<open>Command-line arguments\<close>

text \<open>
  The option parsing of \<open>src/src/bin/mmap-chunker.rs\<close>. An argument is a byte string; \<open>to_str\<close>
  succeeds on valid UTF-8 and the lossy text used in messages is the environment's \<open>env_lossy\<close>.
\<close>

subsection \<open>Texts\<close>

text \<open>The validity table of UTF-8, on byte values.\<close>

definition cont :: "nat \<Rightarrow> bool" where
  "cont b \<longleftrightarrow> 0x80 \<le> b \<and> b \<le> 0xBF"

fun utf8_valid :: "nat list \<Rightarrow> bool" where
  "utf8_valid [] \<longleftrightarrow> True"
| "utf8_valid (a # xs) \<longleftrightarrow>
     (if a < 0x80 then utf8_valid xs
      else case xs of
        [] \<Rightarrow> False
      | b # ys \<Rightarrow>
          if 0xC2 \<le> a \<and> a \<le> 0xDF then cont b \<and> utf8_valid ys
          else case ys of
            [] \<Rightarrow> False
          | c # zs \<Rightarrow>
              if 0xE0 \<le> a \<and> a \<le> 0xEF then
                cont b \<and> cont c \<and> (a = 0xE0 \<longrightarrow> 0xA0 \<le> b) \<and> (a = 0xED \<longrightarrow> b \<le> 0x9F) \<and> utf8_valid zs
              else case zs of
                [] \<Rightarrow> False
              | d # ws \<Rightarrow>
                  0xF0 \<le> a \<and> a \<le> 0xF4 \<and> cont b \<and> cont c \<and> cont d \<and>
                  (a = 0xF0 \<longrightarrow> 0x90 \<le> b) \<and> (a = 0xF4 \<longrightarrow> b \<le> 0x8F) \<and> utf8_valid ws)"

definition to_str :: "string \<Rightarrow> string option" where
  "to_str s = (if utf8_valid (map of_char s) then Some s else None)"

definition quoted :: "string \<Rightarrow> string" where
  "quoted s = ''`'' @ s @ ''`''"

definition is_ascii_digit :: "char \<Rightarrow> bool" where
  "is_ascii_digit c \<longleftrightarrow> digit_value 10 c \<noteq> None"

definition is_ascii_hexdigit :: "char \<Rightarrow> bool" where
  "is_ascii_hexdigit c \<longleftrightarrow> digit_value 16 c \<noteq> None"

subsection \<open>Values\<close>

definition parse_parts :: "os_env \<Rightarrow> string \<Rightarrow> nat cli" where
  "parse_parts env value =
     (case to_str value of
        None \<Rightarrow> Inl ''`--parts` must be a positive integer''
      | Some text \<Rightarrow>
          (case parse_usize text of
             None \<Rightarrow> Inl (''invalid value for `--parts`: '' @ quoted (env_lossy env value))
           | Some parsed \<Rightarrow> if parsed = 0 then Inl ''`--parts` must be greater than zero'' else Inr parsed))"

definition parse_worker :: "os_env \<Rightarrow> string \<Rightarrow> nat cli" where
  "parse_worker env value =
     (case to_str value of
        None \<Rightarrow> Inl ''`--worker` must be a non-negative integer''
      | Some text \<Rightarrow>
          (case parse_usize text of
             None \<Rightarrow> Inl (''invalid value for `--worker`: '' @ quoted (env_lossy env value))
           | Some parsed \<Rightarrow> Inr parsed))"

definition parse_source :: "os_env \<Rightarrow> string \<Rightarrow> source_mode cli" where
  "parse_source env value =
     (if to_str value = Some ''mmap'' then Inr Mmap
      else if to_str value = Some ''windowed'' then Inr Windowed
      else if to_str value = Some ''pread'' then Inr Pread
      else Inl (''invalid value for `--source`: '' @ quoted (env_lossy env value) @ '' (expected mmap, windowed, or pread)''))"

definition parse_window :: "os_env \<Rightarrow> string \<Rightarrow> nat cli" where
  "parse_window env value =
     (case to_str value of
        None \<Rightarrow> Inl ''`--window` must be a positive integer''
      | Some text \<Rightarrow>
          (case parse_usize text of
             None \<Rightarrow> Inl (''invalid value for `--window`: '' @ quoted (env_lossy env value))
           | Some parsed \<Rightarrow>
               if parsed < MIN_WINDOW_BYTES
               then Inl (''`--window` must be at least '' @ show_nat MIN_WINDOW_BYTES @ '' bytes'')
               else Inr parsed))"

definition invalid_delimiter_byte :: "os_env \<Rightarrow> string \<Rightarrow> string" where
  "invalid_delimiter_byte env value =
     ''invalid value for `--delimiter-byte`: '' @ quoted (env_lossy env value) @ '' (expected decimal byte 0..255)''"

definition parse_delimiter_byte :: "os_env \<Rightarrow> string \<Rightarrow> byte cli" where
  "parse_delimiter_byte env value =
     (case to_str value of
        None \<Rightarrow> Inl ''`--delimiter-byte` must be a decimal byte in the range 0..255''
      | Some text \<Rightarrow>
          if text = [] \<or> \<not> list_all is_ascii_digit text then Inl (invalid_delimiter_byte env value)
          else (case from_str_radix 10 (2 ^ 16 - 1) text of
                  None \<Rightarrow> Inl (invalid_delimiter_byte env value)
                | Some parsed \<Rightarrow>
                    if parsed \<le> 255 then Inr (word_of_nat parsed) else Inl (invalid_delimiter_byte env value)))"

definition decode_hex_pair :: "string \<Rightarrow> byte run" where
  "decode_hex_pair pair =
     (case to_str pair of
        None \<Rightarrow> Panic ''validated hex pair must be ASCII''
      | Some text \<Rightarrow>
          (case from_str_radix 16 255 text of
             None \<Rightarrow> Panic ''validated hex pair must parse''
           | Some v \<Rightarrow> Ret (word_of_nat v)))"

fun chunks_exact2 :: "'a list \<Rightarrow> 'a list list" where
  "chunks_exact2 (a # b # xs) = [a, b] # chunks_exact2 xs"
| "chunks_exact2 _ = []"

fun collect_run :: "'a run list \<Rightarrow> 'a list run" where
  "collect_run [] = Ret []"
| "collect_run (r # rs) = rbind r (\<lambda>x. rmap ((#) x) (collect_run rs))"

definition invalid_delimiter_hex :: "os_env \<Rightarrow> string \<Rightarrow> string" where
  "invalid_delimiter_hex env value =
     ''invalid value for `--delimiter-hex`: '' @ quoted (env_lossy env value) @
     '' (expected an even-length hex string, e.g. 0d0a)''"

definition parse_delimiter_hex :: "os_env \<Rightarrow> string \<Rightarrow> bytes cli run" where
  "parse_delimiter_hex env value =
     (case to_str value of
        None \<Rightarrow> Ret (Inl (invalid_delimiter_hex env value))
      | Some text \<Rightarrow>
          if text = [] \<or> length text mod 2 \<noteq> 0 \<or> \<not> list_all is_ascii_hexdigit text
          then Ret (Inl (invalid_delimiter_hex env value))
          else rmap Inr (collect_run (map decode_hex_pair (chunks_exact2 text))))"

subsection \<open>Options\<close>

record cli_opts =
  co_files :: "path list"
  co_parts :: "nat option"
  co_delimiter :: bytes
  co_delimiter_seen :: bool
  co_worker :: "nat option"
  co_source :: source_mode
  co_source_seen :: bool
  co_window :: "nat option"

definition opts_default :: cli_opts where
  "opts_default =
     \<lparr>co_files = [], co_parts = None, co_delimiter = [0x0A], co_delimiter_seen = False, co_worker = None,
      co_source = Mmap, co_source_seen = False, co_window = None\<rparr>"

definition duplicate_option :: "string \<Rightarrow> string" where
  "duplicate_option name = ''duplicate option '' @ quoted name"

definition missing_value :: "string \<Rightarrow> string" where
  "missing_value name = ''missing value for '' @ quoted name"

definition duplicate_delimiter :: string where
  "duplicate_delimiter = ''duplicate delimiter option (`--delimiter-byte` / `--delimiter-hex`)''"

text \<open>The value that follows an option, parsed, unless the option was seen before.\<close>

definition option_value ::
  "string \<Rightarrow> bool \<Rightarrow> string \<Rightarrow> string list \<Rightarrow> (string \<Rightarrow> cli_opts cli run) \<Rightarrow> (cli_opts \<times> string list) cli run" where
  "option_value name seen dup rest parse =
     (if seen then Ret (Inl dup)
      else case rest of
        [] \<Rightarrow> Ret (Inl (missing_value name))
      | value # rest' \<Rightarrow> rcbind (parse value) (\<lambda>opts. Ret (Inr (opts, rest'))))"

text \<open>
  One step of the argument loop: the first argument and the rest. \<open>multi\<close> is \<open>False\<close> for the
  \<open>partition\<close> command, which takes one file and accepts \<open>--worker\<close>, and \<open>True\<close> for
  \<open>partition-files\<close>.
\<close>

definition args_step :: "os_env \<Rightarrow> bool \<Rightarrow> string \<Rightarrow> string list \<Rightarrow> cli_opts \<Rightarrow> (cli_opts \<times> string list) cli run" where
  "args_step env multi arg rest opts =
     (if arg = ''--parts'' then
        option_value arg (co_parts opts \<noteq> None) (duplicate_option arg) rest
          (\<lambda>v. Ret (ebind (parse_parts env v) (\<lambda>n. Inr (opts\<lparr>co_parts := Some n\<rparr>))))
      else if arg = ''--delimiter-byte'' then
        option_value arg (co_delimiter_seen opts) duplicate_delimiter rest
          (\<lambda>v. Ret (ebind (parse_delimiter_byte env v) (\<lambda>d. Inr (opts\<lparr>co_delimiter_seen := True, co_delimiter := [d]\<rparr>))))
      else if arg = ''--delimiter-hex'' then
        option_value arg (co_delimiter_seen opts) duplicate_delimiter rest
          (\<lambda>v. rcbind (parse_delimiter_hex env v) (\<lambda>d. Ret (Inr (opts\<lparr>co_delimiter_seen := True, co_delimiter := d\<rparr>))))
      else if \<not> multi \<and> arg = ''--worker'' then
        option_value arg (co_worker opts \<noteq> None) (duplicate_option arg) rest
          (\<lambda>v. Ret (ebind (parse_worker env v) (\<lambda>n. Inr (opts\<lparr>co_worker := Some n\<rparr>))))
      else if arg = ''--source'' then
        option_value arg (co_source_seen opts) (duplicate_option arg) rest
          (\<lambda>v. Ret (ebind (parse_source env v) (\<lambda>m. Inr (opts\<lparr>co_source_seen := True, co_source := m\<rparr>))))
      else if arg = ''--window'' then
        option_value arg (co_window opts \<noteq> None) (duplicate_option arg) rest
          (\<lambda>v. Ret (ebind (parse_window env v) (\<lambda>n. Inr (opts\<lparr>co_window := Some n\<rparr>))))
      else if starts_with (env_lossy env arg) ''-'' then
        Ret (Inl (''unexpected option '' @ quoted (env_lossy env arg)))
      else if \<not> multi \<and> co_files opts \<noteq> [] then
        Ret (Inl (''unexpected argument '' @ quoted (env_lossy env arg)))
      else Ret (Inr (opts\<lparr>co_files := co_files opts @ [arg]\<rparr>, rest)))"

lemma rcbind_Ret_Inr: "rcbind r f = Ret (Inr y) \<longleftrightarrow> (\<exists>x. r = Ret (Inr x) \<and> f x = Ret (Inr y))"
  by (cases r) (auto simp: rcbind_def split: sum.splits)

lemma option_value_rest:
  "option_value name seen dup rest parse = Ret (Inr (opts', rest')) \<Longrightarrow>
   \<not> seen \<and> (\<exists>v. rest = v # rest' \<and> parse v = Ret (Inr opts'))"
  by (auto simp: option_value_def rcbind_Ret_Inr split: if_splits list.splits)

lemma args_step_rest: "args_step env multi arg rest opts = Ret (Inr (opts', rest')) \<Longrightarrow> length rest' \<le> length rest"
  by (auto simp: args_step_def dest: option_value_rest split: if_splits)

function args_loop :: "os_env \<Rightarrow> bool \<Rightarrow> string list \<Rightarrow> cli_opts \<Rightarrow> cli_opts cli run" where
  "args_loop env multi [] opts = Ret (Inr opts)"
| "args_loop env multi (arg # rest) opts =
     rcbind (args_step env multi arg rest opts) (\<lambda>(opts', rest'). args_loop env multi rest' opts')"
  by pat_completeness auto
termination
  by (relation "measure (\<lambda>(env, multi, args, opts). length args)") (auto dest!: args_step_rest simp: le_imp_less_Suc)

definition partition_args :: "os_env \<Rightarrow> string list \<Rightarrow> cli_opts cli run" where
  "partition_args env args = args_loop env False args opts_default"

definition partition_files_args :: "os_env \<Rightarrow> string list \<Rightarrow> cli_opts cli run" where
  "partition_files_args env args = args_loop env True args opts_default"

subsection \<open>Values: printing and parsing\<close>

lemma utf8_ascii: "list_all (\<lambda>a. a < 0x80) xs \<Longrightarrow> utf8_valid xs"
  by (induction xs) auto

lemma to_str_ascii: "list_all (\<lambda>c. (of_char c :: nat) < 0x80) s \<Longrightarrow> to_str s = Some s"
  by (simp add: to_str_def utf8_ascii list_all_iff)

lemma digit_char_ascii: "d < 16 \<Longrightarrow> (of_char (digit_char d) :: nat) < 0x80"
  by (simp add: digit_char_def)

lemma show_radix_all:
  assumes "2 \<le> r" "\<And>d. d < r \<Longrightarrow> P (digit_char d)"
  shows "list_all P (show_radix r n)"
proof (induction n rule: less_induct)
  case (less n)
  show ?case
  proof (cases "n < r")
    case False
    with assms(1) have "n div r < n" by (intro div_less_dividend) auto
    with less False assms show ?thesis by (subst show_radix.simps) simp
  qed (use assms in \<open>subst show_radix.simps; simp\<close>)
qed

lemma to_str_show_nat [simp]: "to_str (show_nat n) = Some (show_nat n)"
  unfolding show_nat_def by (intro to_str_ascii show_radix_all) (simp_all add: digit_char_ascii)

lemma show_nat_digits: "list_all is_ascii_digit (show_nat n)"
  unfolding show_nat_def by (intro show_radix_all) (simp_all add: is_ascii_digit_def digit_value_digit_char)

lemma show_nat_neq_Nil [simp]: "show_nat n \<noteq> []"
  unfolding show_nat_def using show_radix_hd [of 10 n] by simp

text \<open>\<open>{:02x}\<close> of every byte.\<close>

definition hex_text :: "bytes \<Rightarrow> string" where
  "hex_text bs = concat (map (\<lambda>b. [digit_char (unat b div 16), digit_char (unat b mod 16)]) bs)"

lemma hex_text_simps [simp]:
  "hex_text [] = []"
  "hex_text (b # bs) = digit_char (unat b div 16) # digit_char (unat b mod 16) # hex_text bs"
  by (simp_all add: hex_text_def)

lemma nibbles: "unat (b :: byte) div 16 < 16" "unat b mod 16 < 16" "unat b \<le> 255"
  using unsigned_less [where ?'a = nat and w = b] by (simp_all add: less_mult_imp_div_less)

lemma hex_text_all: "(\<And>d. d < 16 \<Longrightarrow> P (digit_char d)) \<Longrightarrow> list_all P (hex_text bs)"
  by (induction bs) (simp_all add: nibbles)

lemma length_hex_text [simp]: "length (hex_text bs) = 2 * length bs"
  by (induction bs) simp_all

lemma decode_hex_pair_digits:
  "decode_hex_pair [digit_char (unat b div 16), digit_char (unat b mod 16)] = Ret b"
proof -
  let ?h = "unat b div 16" and ?l = "unat b mod 16"
  have "?h * 16 + ?l = unat b" by simp
  moreover have "digit_char ?h \<noteq> CHR ''+''" using digit_char_not_sign nibbles(1) by blast
  ultimately have "from_str_radix 16 255 [digit_char ?h, digit_char ?l] = Some (unat b)"
    using nibbles [of b] by (simp add: from_str_radix_def digit_value_digit_char)
  then show ?thesis
    using to_str_ascii [of "[digit_char ?h, digit_char ?l]"] nibbles [of b]
    by (simp add: decode_hex_pair_def digit_char_ascii)
qed

lemma decode_hex_text: "collect_run (map decode_hex_pair (chunks_exact2 (hex_text bs))) = Ret bs"
  by (induction bs) (simp_all add: decode_hex_pair_digits)

lemma hexdigit_value: "is_ascii_hexdigit c \<Longrightarrow> \<exists>d<16. digit_value 16 c = Some d \<and> (of_char c :: nat) < 0x80 \<and> c \<noteq> CHR ''+''"
  by (auto simp: is_ascii_hexdigit_def digit_value_def Let_def split: if_splits option.splits)

text \<open>The two \<open>expect\<close> calls cannot fail on a validated text.\<close>

lemma decode_hex_pair_total:
  assumes "is_ascii_hexdigit a" "is_ascii_hexdigit b"
  shows "\<exists>v. decode_hex_pair [a, b] = Ret v"
proof -
  obtain x y where "x < 16" "y < 16" "digit_value 16 a = Some x" "digit_value 16 b = Some y" "a \<noteq> CHR ''+''"
      "(of_char a :: nat) < 0x80" "(of_char b :: nat) < 0x80"
    using assms [THEN hexdigit_value] by blast
  then show ?thesis
    using to_str_ascii [of "[a, b]"] by (simp add: decode_hex_pair_def from_str_radix_def)
qed

lemma decode_hex_total:
  "list_all is_ascii_hexdigit s \<Longrightarrow> \<exists>bs. collect_run (map decode_hex_pair (chunks_exact2 s)) = Ret bs \<and> length bs = length s div 2"
proof (induction s rule: chunks_exact2.induct)
  case (1 a b xs)
  then obtain v bs where "decode_hex_pair [a, b] = Ret v"
      "collect_run (map decode_hex_pair (chunks_exact2 xs)) = Ret bs" "length bs = length xs div 2"
    using decode_hex_pair_total [of a b] by auto
  then show ?case by simp
qed simp_all

lemma parse_delimiter_hex_total:
  "parse_delimiter_hex env v = Ret (Inl (invalid_delimiter_hex env v)) \<or>
   (\<exists>bs. parse_delimiter_hex env v = Ret (Inr bs) \<and> bs \<noteq> [] \<and> length v = 2 * length bs)"
proof (cases "to_str v = None \<or> v = [] \<or> length v mod 2 \<noteq> 0 \<or> \<not> list_all is_ascii_hexdigit v")
  case True
  then show ?thesis by (auto simp: parse_delimiter_hex_def to_str_def split: if_splits)
next
  case False
  then obtain bs where bs: "collect_run (map decode_hex_pair (chunks_exact2 v)) = Ret bs" "length bs = length v div 2"
    using decode_hex_total by blast
  from False have "length v = 2 * length bs" "bs \<noteq> []" using bs(2) by (auto simp: mult_div_mod_eq intro: ccontr)
  moreover have "parse_delimiter_hex env v = Ret (Inr bs)"
    using False bs by (auto simp: parse_delimiter_hex_def to_str_def split: if_splits)
  ultimately show ?thesis by blast
qed

lemma parse_delimiter_hex_text: "bs \<noteq> [] \<Longrightarrow> parse_delimiter_hex env (hex_text bs) = Ret (Inr bs)"
  using to_str_ascii [OF hex_text_all [of "\<lambda>c. (of_char c :: nat) < 0x80"], of bs] decode_hex_text [of bs]
    hex_text_all [of is_ascii_hexdigit bs]
  by (cases bs) (auto simp: parse_delimiter_hex_def digit_char_ascii is_ascii_hexdigit_def digit_value_digit_char)

lemma parse_delimiter_byte_show: "parse_delimiter_byte env (show_nat (unat b)) = Inr b"
  using show_nat_digits [of "unat b"] nibbles [of b] from_str_radix_show [of 10 "unat b" "2 ^ 16 - 1"]
  by (simp add: parse_delimiter_byte_def show_nat_def [symmetric])

lemma parse_parts_show: "0 < n \<Longrightarrow> n \<le> usize_max \<Longrightarrow> parse_parts env (show_nat n) = Inr n"
  by (simp add: parse_parts_def parse_usize_show_nat)

lemma parse_worker_show: "n \<le> usize_max \<Longrightarrow> parse_worker env (show_nat n) = Inr n"
  by (simp add: parse_worker_def parse_usize_show_nat)

lemma parse_window_show: "MIN_WINDOW_BYTES \<le> n \<Longrightarrow> n \<le> usize_max \<Longrightarrow> parse_window env (show_nat n) = Inr n"
  by (simp add: parse_window_def parse_usize_show_nat)

definition mode_text :: "source_mode \<Rightarrow> string" where
  "mode_text m = (case m of Mmap \<Rightarrow> ''mmap'' | Windowed \<Rightarrow> ''windowed'' | Pread \<Rightarrow> ''pread'')"

lemma parse_source_mode: "parse_source env (mode_text m) = Inr m"
  by (cases m) (simp_all add: parse_source_def mode_text_def to_str_def)

lemma parse_bounds:
  "parse_parts env v = Inr n \<Longrightarrow> 0 < n \<and> n \<le> usize_max"
  "parse_worker env v = Inr n \<Longrightarrow> n \<le> usize_max"
  "parse_window env v = Inr n \<Longrightarrow> MIN_WINDOW_BYTES \<le> n \<and> n \<le> usize_max"
  by (auto simp: parse_parts_def parse_worker_def parse_window_def split: option.splits if_splits dest: parse_usize_bound)

subsection \<open>Argument lists\<close>

text \<open>
  What a command line says, option by option, the arguments that say it, and its effect.
\<close>

datatype setting =
    SetParts nat
  | SetDelimiterByte byte
  | SetDelimiterHex bytes
  | SetWorker nat
  | SetSource source_mode
  | SetWindow nat
  | SetFile path

fun setting_args :: "setting \<Rightarrow> string list" where
  "setting_args (SetParts n) = [''--parts'', show_nat n]"
| "setting_args (SetDelimiterByte b) = [''--delimiter-byte'', show_nat (unat b)]"
| "setting_args (SetDelimiterHex d) = [''--delimiter-hex'', hex_text d]"
| "setting_args (SetWorker n) = [''--worker'', show_nat n]"
| "setting_args (SetSource m) = [''--source'', mode_text m]"
| "setting_args (SetWindow n) = [''--window'', show_nat n]"
| "setting_args (SetFile f) = [f]"

fun apply_setting :: "cli_opts \<Rightarrow> setting \<Rightarrow> cli_opts" where
  "apply_setting opts (SetParts n) = opts\<lparr>co_parts := Some n\<rparr>"
| "apply_setting opts (SetDelimiterByte b) = opts\<lparr>co_delimiter_seen := True, co_delimiter := [b]\<rparr>"
| "apply_setting opts (SetDelimiterHex d) = opts\<lparr>co_delimiter_seen := True, co_delimiter := d\<rparr>"
| "apply_setting opts (SetWorker n) = opts\<lparr>co_worker := Some n\<rparr>"
| "apply_setting opts (SetSource m) = opts\<lparr>co_source_seen := True, co_source := m\<rparr>"
| "apply_setting opts (SetWindow n) = opts\<lparr>co_window := Some n\<rparr>"
| "apply_setting opts (SetFile f) = opts\<lparr>co_files := co_files opts @ [f]\<rparr>"

definition option_names :: "bool \<Rightarrow> string list" where
  "option_names multi =
     [''--parts'', ''--delimiter-byte'', ''--delimiter-hex'', ''--source'', ''--window''] @
     (if multi then [] else [''--worker''])"

fun setting_ok :: "os_env \<Rightarrow> bool \<Rightarrow> cli_opts \<Rightarrow> setting \<Rightarrow> bool" where
  "setting_ok env multi opts (SetParts n) \<longleftrightarrow> co_parts opts = None \<and> 0 < n \<and> n \<le> usize_max"
| "setting_ok env multi opts (SetDelimiterByte b) \<longleftrightarrow> \<not> co_delimiter_seen opts"
| "setting_ok env multi opts (SetDelimiterHex d) \<longleftrightarrow> \<not> co_delimiter_seen opts \<and> d \<noteq> []"
| "setting_ok env multi opts (SetWorker n) \<longleftrightarrow> \<not> multi \<and> co_worker opts = None \<and> n \<le> usize_max"
| "setting_ok env multi opts (SetSource m) \<longleftrightarrow> \<not> co_source_seen opts"
| "setting_ok env multi opts (SetWindow n) \<longleftrightarrow> co_window opts = None \<and> MIN_WINDOW_BYTES \<le> n \<and> n \<le> usize_max"
| "setting_ok env multi opts (SetFile f) \<longleftrightarrow>
     f \<notin> set (option_names multi) \<and> \<not> starts_with (env_lossy env f) ''-'' \<and> (multi \<or> co_files opts = [])"

fun settings_ok :: "os_env \<Rightarrow> bool \<Rightarrow> cli_opts \<Rightarrow> setting list \<Rightarrow> bool" where
  "settings_ok env multi opts [] \<longleftrightarrow> True"
| "settings_ok env multi opts (s # ss) \<longleftrightarrow> setting_ok env multi opts s \<and> settings_ok env multi (apply_setting opts s) ss"

lemmas value_shows = parse_parts_show parse_worker_show parse_window_show parse_source_mode
  parse_delimiter_byte_show parse_delimiter_hex_text

lemma args_step_file:
  "f \<notin> set (option_names multi) \<Longrightarrow> \<not> starts_with (env_lossy env f) ''-'' \<Longrightarrow> multi \<or> co_files opts = [] \<Longrightarrow>
   args_step env multi f rest opts = Ret (Inr (opts\<lparr>co_files := co_files opts @ [f]\<rparr>, rest))"
  unfolding args_step_def option_names_def by (simp split: if_splits)

lemma args_step_setting:
  assumes "setting_ok env multi opts s"
  shows "\<exists>a rest'. setting_args s = a # rest' \<and>
     args_step env multi a (rest' @ rest) opts = Ret (Inr (apply_setting opts s, rest))"
proof (cases s)
  case (SetFile f)
  with assms show ?thesis by (simp add: args_step_file)
qed (use assms in \<open>simp_all add: args_step_def option_value_def value_shows\<close>)

text \<open>
  Conversely, every accepted step is a setting: a file, which is the argument, or an option with
  the next argument as its value.
\<close>

lemma ebind_Inr: "ebind r f = Inr y \<longleftrightarrow> (\<exists>x. r = Inr x \<and> f x = Inr y)"
  by (cases r) auto

definition said_by :: "setting \<Rightarrow> string \<Rightarrow> string list \<Rightarrow> string list \<Rightarrow> bool" where
  "said_by s arg rest rest' \<longleftrightarrow>
     (case s of
        SetFile f \<Rightarrow> f = arg \<and> rest' = rest
      | SetDelimiterHex d \<Rightarrow> \<exists>v. rest = v # rest' \<and> 2 * length d = length v
      | _ \<Rightarrow> \<exists>v. rest = v # rest')"

lemma args_step_is_setting:
  assumes step: "args_step env multi arg rest opts = Ret (Inr (opts', rest'))"
  shows "\<exists>s. setting_ok env multi opts s \<and> opts' = apply_setting opts s \<and> said_by s arg rest rest'"
proof -
  note ov = option_value_rest and unf = args_step_def ebind_Inr said_by_def
  consider (parts) "arg = ''--parts''" | (byte) "arg = ''--delimiter-byte''" | (hex) "arg = ''--delimiter-hex''"
    | (worker) "\<not> multi \<and> arg = ''--worker''" | (mode) "arg = ''--source''" | (window) "arg = ''--window''" | (plain) "arg \<notin> set (option_names multi)"
    unfolding option_names_def by (cases multi) auto
  then show ?thesis
  proof cases
    case parts
    with step show ?thesis
      by (intro exI [of _ "SetParts (the (co_parts opts'))"]) (auto simp: unf dest!: ov parse_bounds)
  next
    case byte
    with step show ?thesis
      by (intro exI [of _ "SetDelimiterByte (hd (co_delimiter opts'))"]) (auto simp: unf dest!: ov)
  next
    case hex
    have hexval: "bs \<noteq> [] \<and> 2 * length bs = length v" if "parse_delimiter_hex env v = Ret (Inr bs)" for v bs
      using parse_delimiter_hex_total [of env v] that by auto
    from hex step show ?thesis
      by (intro exI [of _ "SetDelimiterHex (co_delimiter opts')"]) (auto simp: unf rcbind_Ret_Inr dest!: ov hexval)
  next
    case worker
    with step show ?thesis
      by (intro exI [of _ "SetWorker (the (co_worker opts'))"]) (auto simp: unf dest!: ov parse_bounds)
  next
    case mode
    with step show ?thesis
      by (intro exI [of _ "SetSource (co_source opts')"]) (auto simp: unf dest!: ov)
  next
    case window
    with step show ?thesis
      by (intro exI [of _ "SetWindow (the (co_window opts'))"]) (auto simp: unf dest!: ov parse_bounds)
  next
    case plain
    then have "\<not> starts_with (env_lossy env arg) ''-'' \<and> (multi \<or> co_files opts = []) \<and>
        opts' = opts\<lparr>co_files := co_files opts @ [arg]\<rparr> \<and> rest' = rest"
      using step unfolding args_step_def option_names_def by (simp split: if_splits)
    with plain show ?thesis by (intro exI [of _ "SetFile arg"]) (simp add: said_by_def)
  qed
qed

lemma args_loop_settings:
  "settings_ok env multi opts ss \<Longrightarrow>
   args_loop env multi (concat (map setting_args ss)) opts = Ret (Inr (foldl apply_setting opts ss))"
proof (induction ss arbitrary: opts)
  case (Cons s ss)
  then obtain a rest' where "setting_args s = a # rest'"
      "args_step env multi a (rest' @ concat (map setting_args ss)) opts = Ret (Inr (apply_setting opts s, concat (map setting_args ss)))"
    using args_step_setting [of env multi opts s "concat (map setting_args ss)"] by auto
  with Cons show ?case by simp
qed simp

text \<open>
  Claim C38. Printing and parsing of command lines: any list of settings (each option at most once,
  in any order, with values in range, and files that do not look like options) is read back from
  its arguments, by both commands.
\<close>

theorem cli_args_roundtrip:
  assumes "settings_ok env multi opts_default ss"
  shows "(if multi then partition_files_args else partition_args) env (concat (map setting_args ss)) =
     Ret (Inr (foldl apply_setting opts_default ss))"
  using args_loop_settings [OF assms] by (cases multi) (simp_all add: partition_args_def partition_files_args_def)

theorem cli_args_roundtrip_witness:
  "partition_args (sim_env (\<lambda>_. [])) [''--window'', show_nat 65536, ''--worker'', show_nat 0, ''--delimiter-hex'', hex_text [0x0D, 0x0A], ''a.log'',
       ''--source'', ''windowed'', ''--parts'', show_nat 4] =
     Ret (Inr \<lparr>co_files = [''a.log''], co_parts = Some 4, co_delimiter = [0x0D, 0x0A], co_delimiter_seen = True, co_worker = Some 0,
       co_source = Windowed, co_source_seen = True, co_window = Some 65536\<rparr>)"
  using cli_args_roundtrip [of "sim_env (\<lambda>_. [])" False
      "[SetWindow 65536, SetWorker 0, SetDelimiterHex [0x0D, 0x0A], SetFile ''a.log'', SetSource Windowed, SetParts 4]"]
  by (simp add: opts_default_def option_names_def starts_with_def MIN_WINDOW_BYTES_def VIEW_ALIGNMENT_def max_consts mode_text_def)

text \<open>Every accepted command line has values in range.\<close>

definition opts_ok :: "bool \<Rightarrow> cli_opts \<Rightarrow> bool" where
  "opts_ok multi opts \<longleftrightarrow>
     (case co_parts opts of None \<Rightarrow> True | Some n \<Rightarrow> 0 < n \<and> n \<le> usize_max) \<and>
     co_delimiter opts \<noteq> [] \<and> (co_delimiter_seen opts \<or> co_delimiter opts = [0x0A]) \<and>
     (case co_worker opts of None \<Rightarrow> True | Some n \<Rightarrow> \<not> multi \<and> n \<le> usize_max) \<and>
     (co_source_seen opts \<or> co_source opts = Mmap) \<and>
     (case co_window opts of None \<Rightarrow> True | Some n \<Rightarrow> MIN_WINDOW_BYTES \<le> n \<and> n \<le> usize_max) \<and>
     (multi \<or> length (co_files opts) \<le> 1)"

lemma opts_ok_default: "opts_ok multi opts_default"
  by (simp add: opts_ok_def opts_default_def)

lemma args_step_ok:
  assumes "opts_ok multi opts" "args_step env multi arg rest opts = Ret (Inr (opts', rest'))"
  shows "opts_ok multi opts'"
proof -
  obtain s where "setting_ok env multi opts s" "opts' = apply_setting opts s"
    using args_step_is_setting [OF assms(2)] by blast
  with assms(1) show ?thesis by (cases s) (auto simp: opts_ok_def)
qed

lemma option_value_total:
  assumes parses: "\<And>v. \<exists>r. parse v = Ret r"
  shows "\<exists>r. option_value name seen dup rest parse = Ret r"
proof (cases rest)
  case (Cons v vs)
  obtain r where "parse v = Ret r" using parses by metis
  with Cons show ?thesis by (cases r) (simp_all add: option_value_def)
qed (simp add: option_value_def)

lemma args_step_total: "\<exists>r. args_step env multi arg rest opts = Ret r"
proof -
  have hex: "\<exists>r. rcbind (parse_delimiter_hex env v) (\<lambda>d. Ret (Inr (f d))) = Ret r" for v and f :: "bytes \<Rightarrow> cli_opts"
    using parse_delimiter_hex_total [of env v] by auto
  have val: "\<exists>r. option_value name seen dup rest (\<lambda>v. Ret (f v)) = Ret r" for name seen dup and f :: "string \<Rightarrow> cli_opts cli"
    by (rule option_value_total) simp
  note hexval = option_value_total [OF hex]
  show ?thesis unfolding args_step_def by (simp add: val hexval split: if_split)
qed

lemma args_loop_total:
  assumes "opts_ok multi opts"
  shows "\<exists>r. args_loop env multi args opts = Ret r \<and> (\<forall>opts'. r = Inr opts' \<longrightarrow> opts_ok multi opts')"
  using assms
proof (induction env multi args opts rule: args_loop.induct)
  case (2 env multi arg rest opts)
  obtain r where r: "args_step env multi arg rest opts = Ret r" using args_step_total by blast
  show ?case
  proof (cases r)
    case (Inr p)
    obtain opts' rest' where p: "p = (opts', rest')" by (cases p)
    from r Inr p have "opts_ok multi opts'" using args_step_ok [OF 2(2)] by simp
    with 2(1) r Inr p show ?thesis by simp
  qed (simp add: r)
qed simp

text \<open>
  Claim C37. Parsing a command line, of any bytes, always ends with options or an error text and
  never reaches the \<open>expect\<close> calls of the hexadecimal decoder; accepted options are in range: a
  positive part count, a nonempty delimiter (LF unless given), a window of at least the minimum, at
  most one file and the only use of \<open>--worker\<close> for \<open>partition\<close>.
\<close>

theorem cli_args_accepted:
  "\<exists>r. (if multi then partition_files_args else partition_args) env args = Ret r \<and>
     (\<forall>opts. r = Inr opts \<longrightarrow> opts_ok multi opts)"
  using args_loop_total [OF opts_ok_default [of multi], of env args]
  by (cases multi) (simp_all add: partition_args_def partition_files_args_def)

theorem cli_args_accepted_witness:
  "\<exists>opts. partition_args (sim_env (\<lambda>_. [])) [''--parts'', show_nat 4, ''a.log''] = Ret (Inr opts) \<and> opts_ok False opts"
proof -
  have "partition_args (sim_env (\<lambda>_. [])) (concat (map setting_args [SetParts 4, SetFile ''a.log''])) =
      Ret (Inr (foldl apply_setting opts_default [SetParts 4, SetFile ''a.log'']))"
    unfolding partition_args_def
    by (rule args_loop_settings) (simp add: opts_default_def option_names_def starts_with_def max_consts)
  with cli_args_accepted [of False "sim_env (\<lambda>_. [])" "[''--parts'', show_nat 4, ''a.log'']"] show ?thesis by simp
qed

end
