(* ===== verification/Cli_Sourced.thy ===== *)
theory Cli_Sourced
  imports Cli_Logical Source_Backends
begin

section \<open>Logical partitions without full mappings\<close>

text \<open>
  The planner behind \<open>partition-files --source windowed\<close> and \<open>--source pread\<close> in
  \<open>src/src/bin/mmap-chunker.rs\<close>: lengths are read first, then each source is opened only while its
  own targets are projected. The state is the source that is open, if any, and the trace. The loop
  over the targets and the assignment of ranges are the same code as for mapped sources; here an
  error returns the state too, because the open source is released on every path.
\<close>

subsection \<open>One open source\<close>

text \<open>\<open>Box<dyn ByteSource>\<close> of the two backends that reach this path.\<close>

datatype dyn_source = DynWindowed windowed_file | DynPread pread_file

definition dyn_ops :: "os_env \<Rightarrow> (dyn_source \<times> trace) byte_source_ops" where
  "dyn_ops env =
     \<lparr>bs_len = (\<lambda>(d, tr). case d of
        DynWindowed w \<Rightarrow> bs_len (windowed_source env) (w, tr)
      | DynPread f \<Rightarrow> bs_len (pread_source env f) tr),
      bs_read_at = (\<lambda>offset out (d, tr). case d of
        DynWindowed w \<Rightarrow> rmap (\<lambda>(r, out', w', tr'). (r, out', DynWindowed w', tr')) (bs_read_at (windowed_source env) offset out (w, tr))
      | DynPread f \<Rightarrow> rmap (\<lambda>(r, out', tr'). (r, out', DynPread f, tr')) (bs_read_at (pread_source env f) offset out tr)),
      bs_as_slice = (\<lambda>(d, tr). case d of
        DynWindowed w \<Rightarrow> bs_as_slice (windowed_source env) (w, tr)
      | DynPread f \<Rightarrow> bs_as_slice (pread_source env f) tr)\<rparr>"

definition dyn_drop :: "platform \<Rightarrow> os_env \<Rightarrow> dyn_source \<Rightarrow> trace \<Rightarrow> trace" where
  "dyn_drop pf env d tr =
     (case d of DynWindowed w \<Rightarrow> windowed_drop env w tr | DynPread f \<Rightarrow> std_close pf env (ps_file f) tr)"

record open_source =
  op_index :: nat
  op_source :: dyn_source
  op_state :: boundary_state
  op_buffer :: bytes

definition failed_to_open :: "os_env \<Rightarrow> path \<Rightarrow> io_error \<Rightarrow> string" where
  "failed_to_open env path error = ''failed to open '' @ env_lossy env path @ '': '' @ err_text error"

definition failed_to_read :: "os_env \<Rightarrow> path \<Rightarrow> io_error \<Rightarrow> string" where
  "failed_to_read env path error = ''failed to read '' @ env_lossy env path @ '': '' @ err_text error"

definition open_sourced :: "platform \<Rightarrow> os_env \<Rightarrow> path \<Rightarrow> planner_options \<Rightarrow> trace \<Rightarrow> dyn_source cli \<times> trace" where
  "open_sourced pf env path opts tr =
     (case po_mode opts of
        Mmap \<Rightarrow> (Inl ''internal error: mmap uses the legacy engine path'', tr)
      | Windowed \<Rightarrow>
          (case windowed_open_path pf env path (po_window_bytes opts) tr of
             (Inl e, tr1) \<Rightarrow> (Inl (failed_to_open env path e), tr1)
           | (Inr w, tr1) \<Rightarrow> (Inr (DynWindowed w), tr1))
      | Pread \<Rightarrow>
          (case pread_open_path pf env path tr of
             (Inl e, tr1) \<Rightarrow> (Inl (failed_to_open env path e), tr1)
           | (Inr f, tr1) \<Rightarrow> (Inr (DynPread f), tr1)))"

subsection \<open>Boundaries by buffered reads\<close>

text \<open>\<open>fill_from(source, offset, &mut buffer[..want])\<close>, from \<open>filled\<close> bytes on.\<close>

function fill_from ::
  "'s byte_source_ops \<Rightarrow> nat \<Rightarrow> nat \<Rightarrow> nat \<Rightarrow> bytes \<Rightarrow> 's \<Rightarrow> (nat io \<times> bytes \<times> 's) run" where
  "fill_from src offset want filled buffer s =
     (if filled < as_usize want then
        rbind (slice_range buffer filled want) (\<lambda>part.
        rbind (bs_read_at src (offset + filled) part s) (\<lambda>(r, part', s').
          let buffer' = take filled buffer @ part' @ drop want buffer in
          case r of
            Inl e \<Rightarrow> Ret (Inl e, buffer', s')
          | Inr read \<Rightarrow>
              if read = 0 then Ret (Inr filled, buffer', s')
              else fill_from src offset want (sat_add filled read) buffer' s'))
      else Ret (Inr filled, buffer, s))"
  by pat_completeness auto
termination
proof (relation "measure (\<lambda>(src, offset, want, filled, buffer, s). as_usize want - filled)", goal_cases)
  case (2 src offset want filled buffer s part v r p part' s' buffer' read)
  then have "filled < as_usize want" "as_usize want \<le> usize_max" by (simp_all add: as_usize_def max_consts)
  with 2 have "filled < sat_add filled read" by (auto simp: sat_add_def)
  with 2 show ?case by (auto intro!: diff_less_mono2)
qed simp

declare fill_from.simps [simp del]

text \<open>
  The search loop of \<open>next_record_boundary_sourced\<close>, for either finder: \<open>dlen\<close> is the length of the
  delimiter, and consecutive reads overlap by \<open>dlen - 1\<close> bytes (by none for one byte).
\<close>

function sourced_scan ::
  "'s byte_source_ops \<Rightarrow> (bytes \<Rightarrow> nat option) \<Rightarrow> nat \<Rightarrow> nat \<Rightarrow> nat \<Rightarrow> bytes \<Rightarrow> 's \<Rightarrow> (nat io \<times> bytes \<times> 's) run" where
  "sourced_scan src finder dlen file_len offset buffer s =
     (if offset \<ge> as_usize file_len then Ret (Inr file_len, buffer, s)
      else
        let want = min (slen buffer) (file_len - offset) in
        rbind (fill_from src offset want 0 buffer s) (\<lambda>(r, buffer1, s1).
          case r of
            Inl e \<Rightarrow> Ret (Inl e, buffer1, s1)
          | Inr filled \<Rightarrow>
              if filled = 0 then Ret (Inr file_len, buffer1, s1)
              else rbind (slice_range buffer1 0 filled) (\<lambda>window.
                case (if filled \<ge> dlen then finder window else None) of
                  Some relative \<Rightarrow> Ret (Inr (min (sat_add (sat_add offset relative) dlen) file_len), buffer1, s1)
                | None \<Rightarrow>
                    if sat_add offset filled \<ge> file_len then Ret (Inr file_len, buffer1, s1)
                    else sourced_scan src finder dlen file_len
                           (sat_add offset (max (sat_sub filled (sat_sub dlen 1)) 1)) buffer1 s1)))"
  by pat_completeness auto
termination
proof (relation "measure (\<lambda>(src, finder, d, file_len, offset, buffer, s). as_usize file_len - offset)", goal_cases)
  case (2 src finder dlen file_len offset)
  then have "offset < as_usize file_len" "as_usize file_len \<le> usize_max" by (simp_all add: as_usize_def max_consts)
  then have "offset < sat_add offset (max k 1)" for k by (auto simp: sat_add_def)
  with 2 show ?case by (auto intro!: diff_less_mono2)
qed simp

declare sourced_scan.simps [simp del]

text \<open>
  The check for a target that follows a complete delimiter; for a delimiter of one byte the code
  compares \<open>buffer[0]\<close>, otherwise the first \<open>dlen\<close> bytes.
\<close>

definition sourced_exact ::
  "'s byte_source_ops \<Rightarrow> nat \<Rightarrow> nat \<Rightarrow> bytes \<Rightarrow> bytes \<Rightarrow> 's \<Rightarrow> (bool io \<times> bytes \<times> 's) run" where
  "sourced_exact src file_len target delimiter buffer s =
     (let dlen = slen delimiter in
      if target \<ge> dlen \<and> target \<le> file_len then
        rbind (fill_from src (target - dlen) dlen 0 buffer s) (\<lambda>(r, buffer1, s1).
          Ret (map_sum id (\<lambda>filled. filled = dlen \<and> take dlen buffer1 = delimiter) r, buffer1, s1))
      else Ret (Inr False, buffer, s))"

definition sourced_finder :: "bytes \<Rightarrow> bytes \<Rightarrow> nat option" where
  "sourced_finder delimiter window =
     (if slen delimiter = 1 then position (\<lambda>b. b = hd delimiter) window
      else find_first_pattern_from window delimiter)"

definition next_record_boundary_sourced ::
  "os_env \<Rightarrow> 's byte_source_ops \<Rightarrow> nat \<Rightarrow> bytes \<Rightarrow> boundary_state \<Rightarrow> bytes \<Rightarrow> path \<Rightarrow> 's
     \<Rightarrow> (nat cli \<times> boundary_state \<times> bytes \<times> 's) run" where
  "next_record_boundary_sourced env src target delimiter st buffer path s =
     (case cached_after target st of
        Some cached \<Rightarrow> Ret (Inr cached, st, buffer, s)
      | None \<Rightarrow>
          let file_len = bs_len src s in
          rbind (sourced_exact src file_len target delimiter buffer s) (\<lambda>(r, buffer1, s1).
            case r of
              Inl e \<Rightarrow> Ret (Inl (failed_to_read env path e), st, buffer1, s1)
            | Inr exact \<Rightarrow>
                if exact then (let (b, st') = boundary_exact target st in Ret (Inr b, st', buffer1, s1))
                else
                  let scan_from = max target (st_scan_from st) in
                  rbind (sourced_scan src (sourced_finder delimiter) (slen delimiter) file_len scan_from buffer1 s1)
                    (\<lambda>(r2, buffer2, s2).
                      case r2 of
                        Inl e \<Rightarrow> Ret (Inl (failed_to_read env path e), st, buffer2, s2)
                      | Inr boundary \<Rightarrow>
                          (let (b, st') = boundary_found boundary st in Ret (Inr b, st', buffer2, s2)))))"

subsection \<open>Projection and planning\<close>

type_synonym sourced_state = "open_source option \<times> trace"

definition drop_current :: "platform \<Rightarrow> os_env \<Rightarrow> sourced_state \<Rightarrow> trace" where
  "drop_current pf env st =
     (case st of (None, tr) \<Rightarrow> tr | (Some open, tr) \<Rightarrow> dyn_drop pf env (op_source open) tr)"

definition length_changed :: "os_env \<Rightarrow> path \<Rightarrow> string" where
  "length_changed env path = ''source length changed during planning: '' @ env_lossy env path"

text \<open>The open source for \<open>source_index\<close>: the current one, or a new one after dropping it.\<close>

definition switch_source ::
  "platform \<Rightarrow> os_env \<Rightarrow> planner_options \<Rightarrow> nat \<Rightarrow> path \<Rightarrow> nat \<Rightarrow> nat \<Rightarrow> sourced_state \<Rightarrow> (unit cli \<times> sourced_state) run" where
  "switch_source pf env opts source_index path expected_len buffer_len st =
     (if map_option op_index (fst st) = Some source_index then Ret (Inr (), st)
      else
        let tr = drop_current pf env st in
        case open_sourced pf env path opts tr of
          (Inl e, tr1) \<Rightarrow> Ret (Inl e, (None, tr1))
        | (Inr source, tr1) \<Rightarrow>
            (case usize_to_u128 (bs_len (dyn_ops env) (source, tr1)) of
               Inl e \<Rightarrow> Ret (Inl e, (None, dyn_drop pf env source tr1))
             | Inr len \<Rightarrow>
                 if len \<noteq> expected_len then Ret (Inl (length_changed env path), (None, dyn_drop pf env source tr1))
                 else if buffer_len > isize_max then Panic ''capacity overflow''
                 else Ret (Inr (), (Some \<lparr>op_index = source_index, op_source = source, op_state = boundary_default,
                                          op_buffer = replicate buffer_len 0\<rparr>, tr1))))"

definition project_sourced_target ::
  "platform \<Rightarrow> os_env \<Rightarrow> planner_options \<Rightarrow> nat \<Rightarrow> nat list \<Rightarrow> path list \<Rightarrow> bytes \<Rightarrow> nat \<Rightarrow> sourced_state
     \<Rightarrow> (nat cli \<times> sourced_state) run" where
  "project_sourced_target pf env opts target prefixes paths delimiter buffer_len st =
     (if binary_search_ok prefixes target then Ret (Inr target, st)
      else
        let upper = partition_point (\<lambda>prefix. prefix \<le> target) prefixes in
        if upper = 0 then Ret (Inl ''internal error: target before first source'', st)
        else
          let source_index = upper - 1 in
          rbind (index_at prefixes source_index) (\<lambda>source_start.
          rbind (index_at prefixes (source_index + 1)) (\<lambda>source_end.
            let expected_len = source_end - source_start in
            case usize_from_u128 ''logical target does not fit source offset'' (target - source_start) of
              Inl e \<Rightarrow> Ret (Inl e, st)
            | Inr local_target \<Rightarrow>
                if source_index \<ge> length paths then Ret (Inl ''internal error: target source out of bounds'', st)
                else
                  let path = paths ! source_index in
                  rbind (switch_source pf env opts source_index path expected_len buffer_len st) (\<lambda>(r, st1).
                    case (r, st1) of
                      (Inl e, _) \<Rightarrow> Ret (Inl e, st1)
                    | (Inr _, None, _) \<Rightarrow> Ret (Inl ''internal error: source not open'', st1)
                    | (Inr _, Some open, tr1) \<Rightarrow>
                        rbind (next_record_boundary_sourced env (dyn_ops env) local_target delimiter (op_state open)
                                 (op_buffer open) path (op_source open, tr1))
                          (\<lambda>(r2, state', buffer', source', tr2).
                            Ret (ebind r2 (\<lambda>local_boundary. ebind (usize_to_u128 local_boundary) (\<lambda>b. Inr (source_start + b))),
                                 (Some (open\<lparr>op_source := source', op_state := state', op_buffer := buffer'\<rparr>), tr2)))))))"

function sourced_cuts ::
  "(nat \<Rightarrow> 's \<Rightarrow> (nat cli \<times> 's) run) \<Rightarrow> nat \<Rightarrow> nat \<Rightarrow> nat \<Rightarrow> nat \<Rightarrow> 's \<Rightarrow> (nat list cli \<times> 's) run" where
  "sourced_cuts project total_len effective_parts part_no last_cut s =
     (if part_no < effective_parts then
        (case ebind (usize_to_u128 part_no) (\<lambda>k.
            if total_len * k < 2 ^ 128
            then ebind (usize_to_u128 effective_parts) (\<lambda>n. Inr (total_len * k div n))
            else Inl ''logical target arithmetic overflow'') of
           Inl e \<Rightarrow> Ret (Inl e, s)
         | Inr target \<Rightarrow>
            if target \<le> last_cut then sourced_cuts project total_len effective_parts (part_no + 1) last_cut s
            else rbind (project target s) (\<lambda>(r, s').
              case r of
                Inl e \<Rightarrow> Ret (Inl e, s')
              | Inr projected \<Rightarrow>
                  if projected \<le> last_cut then sourced_cuts project total_len effective_parts (part_no + 1) last_cut s'
                  else if projected = total_len then Ret (Inr [], s')
                  else rmap (\<lambda>(cuts, s''). (map_sum id ((#) projected) cuts, s''))
                    (sourced_cuts project total_len effective_parts (part_no + 1) projected s')))
      else Ret (Inr [], s))"
  by pat_completeness auto
termination
  by (relation "measure (\<lambda>(project, total_len, n, part_no, last_cut, s). n - part_no)") auto

declare sourced_cuts.simps [simp del]

fun stat_prefixes :: "os_env \<Rightarrow> path list \<Rightarrow> nat \<Rightarrow> trace \<Rightarrow> nat list cli \<times> trace" where
  "stat_prefixes env [] previous tr = (Inr [previous], tr)"
| "stat_prefixes env (path # paths) previous tr =
     (let tr1 = sys_do env (SysStat path) tr in
      case env_stat env tr path of
        Inl e \<Rightarrow> (Inl (failed_to_open env path e), tr1)
      | Inr meta \<Rightarrow>
          if previous + meta_len meta < 2 ^ 128 then
            (let (rest, tr2) = stat_prefixes env paths (previous + meta_len meta) tr1
             in (ebind rest (\<lambda>r. Inr (previous # r)), tr2))
          else (Inl ''logical dataset is too large'', tr1))"

definition plan_logical_partitions_sourced ::
  "platform \<Rightarrow> os_env \<Rightarrow> path list \<Rightarrow> nat \<Rightarrow> bytes \<Rightarrow> planner_options \<Rightarrow> trace \<Rightarrow> (worker_assignment list cli \<times> trace) run" where
  "plan_logical_partitions_sourced pf env paths requested_parts delimiter opts tr =
     (if requested_parts = 0 then Ret (Inr [], tr)
      else case stat_prefixes env paths 0 tr of
        (Inl e, tr1) \<Rightarrow> Ret (Inl e, tr1)
      | (Inr prefixes, tr1) \<Rightarrow>
          let total_len = last prefixes in
          if total_len = 0 then Ret (Inr [], tr1)
          else
            let effective_parts = effective_parts_of requested_parts total_len;
                buffer_len = max (max (po_scan_buffer_bytes opts) (slen delimiter)) 1
            in rbind (sourced_cuts (\<lambda>target st. project_sourced_target pf env opts target prefixes paths delimiter buffer_len st)
                   total_len effective_parts 1 0 (None, tr1)) (\<lambda>(r, st).
                 case r of
                   Inl e \<Rightarrow> Ret (Inl e, drop_current pf env st)
                 | Inr cut_points \<Rightarrow>
                     rmap (\<lambda>ws. (ws, drop_current pf env st))
                       (assign_loop prefixes (length paths) 0 0 (cut_points @ [total_len]))))"

subsection \<open>Boundaries over any source that meets the contract\<close>

lemma fill_from_fill_loop:
  assumes "fill_loop src offset want filled buffer s = Ret x" "want \<le> usize_max"
  shows "fill_from src offset want filled buffer s = Ret x"
  using assms
proof (induction src offset want filled buffer s rule: fill_loop.induct)
  case (1 src offset want filled buffer s)
  have w: "as_usize want = want" using 1(3) by (simp add: as_usize_def max_consts)
  show ?case
  proof (cases "filled < want")
    case False
    with 1(2) w show ?thesis by (simp add: fill_loop.simps [of src offset want] fill_from.simps [of src offset want])
  next
    case True
    from 1(2) True obtain part where part: "slice_range buffer filled want = Ret part"
      by (subst (asm) fill_loop.simps) (auto simp: rbind_Ret_iff)
    with 1(2) True obtain r part' s' where rd: "bs_read_at src (offset + filled) part s = Ret (r, part', s')"
      by (subst (asm) fill_loop.simps) (auto simp: rbind_Ret_iff)
    show ?thesis
    proof (cases r)
      case (Inl e)
      with 1(2) True part rd w show ?thesis by (simp add: fill_loop.simps [of src offset want] fill_from.simps [of src offset want] Let_def)
    next
      case (Inr n)
      let ?b = "take filled buffer @ part' @ drop want buffer"
      from 1(2) True part rd Inr have rec: "n \<noteq> 0 \<Longrightarrow> \<not> filled + n > usize_max \<and> fill_loop src offset want (filled + n) ?b s' = Ret x"
        by (simp add: fill_loop.simps [of src offset want filled] Let_def split: if_splits)
      have "n \<noteq> 0 \<Longrightarrow> fill_from src offset want (filled + n) ?b s' = Ret x"
        using 1(1) [OF True part rd refl refl refl Inr] rec 1(3) by simp
      with 1(2) True part rd Inr w rec show ?thesis
        by (cases "n = 0")
          (simp_all add: fill_loop.simps [of src offset want filled] fill_from.simps [of src offset want filled] Let_def sat_add_def)
    qed
  qed
qed

lemma first_occ_finder:
  assumes "valid_slice window" "valid_slice p" "p \<noteq> []"
  shows "(if slen p \<le> length window then sourced_finder p window else None) = first_occ p window"
proof (cases "length window < length p")
  case True
  with assms show ?thesis by (simp add: first_occ_short)
next
  case False
  show ?thesis
  proof (cases "length p = 1")
    case True
    then obtain d where "p = [d]" by (auto simp: length_Suc_conv)
    moreover have "slen [d] = 1" by (simp add: slen_def as_usize_def)
    ultimately show ?thesis using False by (simp add: sourced_finder_def first_occ_single Suc_le_eq)
  qed (use False assms in \<open>simp add: sourced_finder_def find_first_pattern_spec\<close>)
qed

text \<open>The end of the first record at or after an offset that is not itself a boundary.\<close>

definition scan_end :: "bytes \<Rightarrow> bytes \<Rightarrow> nat \<Rightarrow> nat" where
  "scan_end p content offset =
     (case first_occ p (drop offset content) of Some r \<Rightarrow> offset + r + length p | None \<Rightarrow> length content)"

context byte_source
begin

lemma fill_from_spec:
  assumes "sinv s" "want \<le> length buffer" "valid_slice buffer" "offset + want \<le> length content"
  shows "\<exists>r buffer' s'. fill_from src offset want 0 buffer s = Ret (r, buffer', s') \<and> sinv s' \<and>
     length buffer' = length buffer \<and>
     (case r of Inl e \<Rightarrow> source_error src sinv e
      | Inr k \<Rightarrow> k = want \<and> take want buffer' = take want (drop offset content))"
proof -
  have "want \<le> usize_max" using assms(2) valid_slice_usize [OF assms(3)] by simp
  then show ?thesis using fill_loop_spec [of s 0 want buffer offset] assms fill_from_fill_loop by fastforce
qed

lemma sourced_scan_step:
  assumes "sinv s" "valid_slice p" "p \<noteq> []" "valid_slice buffer" "buffer \<noteq> []" "offset < length content"
    "want = min (length buffer) (length content - offset)"
  shows "\<exists>buffer1 s1. sinv s1 \<and> length buffer1 = length buffer \<and>
     ((\<exists>e. source_error src sinv e \<and>
         sourced_scan src (sourced_finder p) (slen p) (length content) offset buffer s = Ret (Inl e, buffer1, s1)) \<or>
      sourced_scan src (sourced_finder p) (slen p) (length content) offset buffer s =
        (case first_occ p (take want (drop offset content)) of
           Some rel \<Rightarrow> Ret (Inr (min (sat_add (sat_add offset rel) (slen p)) (length content)), buffer1, s1)
         | None \<Rightarrow> if sat_add offset want \<ge> length content then Ret (Inr (length content), buffer1, s1)
             else sourced_scan src (sourced_finder p) (slen p) (length content)
                    (sat_add offset (max (sat_sub want (sat_sub (slen p) 1)) 1)) buffer1 s1))"
proof -
  define w where "w = take want (drop offset content)"
  note unfold = sourced_scan.simps [of src "sourced_finder p" "slen p" "length content" offset buffer s]
  have vc: "valid_slice content" using valid_content assms(1) .
  have uL: "length content < usize_max" using valid_slice_usize [OF vc] .
  have want: "0 < want" "want \<le> length buffer" "offset + want \<le> length content" using assms(5-7) by auto
  obtain r buffer1 s1 where f: "fill_from src offset want 0 buffer s = Ret (r, buffer1, s1)" "sinv s1" "length buffer1 = length buffer"
    "case r of Inl e \<Rightarrow> source_error src sinv e | Inr k \<Rightarrow> k = want \<and> take want buffer1 = w"
    using fill_from_spec [OF assms(1) want(2) assms(4) want(3)] unfolding w_def by blast
  have w: "length w = want" "valid_slice w" using want(3) vc by (simp_all add: w_def valid_slice_def)
  have sb: "slen buffer = length buffer" using assms(4) by simp
  show ?thesis
  proof (cases r)
    case (Inl e)
    with f uL sb assms(6) show ?thesis
      by (intro exI [of _ buffer1] exI [of _ s1]) (simp add: unfold Let_def assms(7) [symmetric])
  next
    case (Inr k)
    with f(4) have "k = want" "slice_range buffer1 0 want = Ret w" using f(3) want(2) by (simp_all add: slice_range_def)
    with Inr f(1) uL sb assms(6) want(1) first_occ_finder [OF w(2) assms(2,3)] w(1)
    have "sourced_scan src (sourced_finder p) (slen p) (length content) offset buffer s =
        (case first_occ p w of
           Some rel \<Rightarrow> Ret (Inr (min (sat_add (sat_add offset rel) (slen p)) (length content)), buffer1, s1)
         | None \<Rightarrow> if sat_add offset want \<ge> length content then Ret (Inr (length content), buffer1, s1)
             else sourced_scan src (sourced_finder p) (slen p) (length content)
                    (sat_add offset (max (sat_sub want (sat_sub (slen p) 1)) 1)) buffer1 s1)"
      by (simp add: unfold Let_def assms(7) [symmetric] split: option.split)
    with f(2,3) show ?thesis unfolding w_def by blast
  qed
qed

lemma sourced_scan_spec:
  assumes "sinv s" "valid_slice p" "p \<noteq> []" "valid_slice buffer" "length p \<le> length buffer" "offset \<le> length content"
  shows "\<exists>r buffer' s'. sourced_scan src (sourced_finder p) (slen p) (length content) offset buffer s = Ret (r, buffer', s') \<and>
     sinv s' \<and> length buffer' = length buffer \<and>
     (case r of Inl e \<Rightarrow> source_error src sinv e | Inr b \<Rightarrow> b = scan_end p content offset)"
  using assms
proof (induction "length content - offset" arbitrary: offset buffer s rule: less_induct)
  case less
  let ?L = "length content" and ?run = "sourced_scan src (sourced_finder p) (slen p) (length content) offset buffer s"
  have vc: "valid_slice content" using valid_content less.prems(1) .
  have uL: "?L < usize_max" using valid_slice_usize [OF vc] .
  show ?case
  proof (cases "offset < ?L")
    case False
    then have "?run = Ret (Inr ?L, buffer, s)" using uL by (subst sourced_scan.simps) simp
    moreover have "first_occ p (drop offset content) = None" using False less.prems(3) by (intro first_occ_short) simp
    ultimately show ?thesis using less.prems(1) by (simp add: scan_end_def)
  next
    case True
    define want where "want = min (length buffer) (?L - offset)"
    let ?occ = "first_occ p (take want (drop offset content))"
    have "buffer \<noteq> []" using less.prems(3,5) by auto
    from sourced_scan_step [OF less.prems(1-4) this True want_def]
    obtain buffer1 s1 where s1: "sinv s1" "length buffer1 = length buffer"
      and step: "(\<exists>e. source_error src sinv e \<and> ?run = Ret (Inl e, buffer1, s1)) \<or>
        ?run = (case ?occ of
           Some rel \<Rightarrow> Ret (Inr (min (sat_add (sat_add offset rel) (slen p)) ?L), buffer1, s1)
         | None \<Rightarrow> if sat_add offset want \<ge> ?L then Ret (Inr ?L, buffer1, s1)
             else sourced_scan src (sourced_finder p) (slen p) ?L
                    (sat_add offset (max (sat_sub want (sat_sub (slen p) 1)) 1)) buffer1 s1)" (is "_ \<or> ?run = ?case")
      by blast
    show ?thesis
    proof (cases "?run = ?case")
      case False
      with step s1 show ?thesis by auto
    next
      case run: True
      show ?thesis
      proof (cases ?occ)
        case (Some pos)
        note hit = window_hit [OF Some True vc]
        then have "min (sat_add (sat_add offset pos) (slen p)) ?L = offset + pos + length p"
          using uL less.prems(2) by (simp add: sat_add_def)
        with run Some s1 hit show ?thesis by (simp add: scan_end_def)
      next
        case None
        show ?thesis
        proof (cases "offset + want \<ge> ?L")
          case True
          with run None s1 uL show ?thesis by (simp add: sat_add_def scan_end_def)
        next
          case False
          then have "length p \<le> want" using less.prems(5) by (auto simp: want_def min_def split: if_splits)
          with False obtain nxt where nx: "sat_add offset (max (sat_sub want (sat_sub (slen p) 1)) 1) = nxt"
            "offset < nxt" "nxt \<le> ?L" "\<not> ?L \<le> sat_add offset want"
            "map_option ((+) offset) (first_occ p (drop offset content)) = map_option ((+) nxt) (first_occ p (drop nxt content))"
            using window_advance [OF None less.prems(3,2) vc] by (metis not_le)
          have vb: "valid_slice buffer1" "length p \<le> length buffer1" using less.prems(4,5) s1(2) by (simp_all add: valid_slice_def)
          have skip: "scan_end p content offset = scan_end p content nxt"
            using nx(5) by (auto simp: scan_end_def split: option.splits)
          have "?run = sourced_scan src (sourced_finder p) (slen p) ?L nxt buffer1 s1"
            unfolding run using None nx(4) by (simp add: nx(1) [simplified])
          moreover have "?L - nxt < ?L - offset" using nx(2) True by simp
          ultimately show ?thesis using less.hyps [OF _ s1(1) less.prems(2,3) vb nx(3)] s1(2) unfolding skip by simp
        qed
      qed
    qed
  qed
qed

lemma sourced_exact_spec:
  assumes "sinv s" "valid_slice p" "valid_slice buffer" "length p \<le> length buffer" "t \<le> length content"
  shows "\<exists>r buffer' s'. sourced_exact src (length content) t p buffer s = Ret (r, buffer', s') \<and> sinv s' \<and>
     length buffer' = length buffer \<and> (case r of Inl e \<Rightarrow> source_error src sinv e | Inr b \<Rightarrow> b \<longleftrightarrow> ends_after p content t)"
proof (cases "length p \<le> t")
  case True
  obtain r buffer' s' where "fill_from src (t - length p) (length p) 0 buffer s = Ret (r, buffer', s')" "sinv s'"
    "length buffer' = length buffer"
    "case r of Inl e \<Rightarrow> source_error src sinv e
     | Inr k \<Rightarrow> k = length p \<and> take (length p) buffer' = take (length p) (drop (t - length p) content)"
    using fill_from_spec [OF assms(1,4,3), of "t - length p"] assms(5) True by auto
  then show ?thesis using True assms(2,5)
    by (cases r) (auto simp: sourced_exact_def Let_def ends_after_def starts_with_def)
next
  case False
  then show ?thesis using assms by (auto simp: sourced_exact_def ends_after_def)
qed

lemma next_record_boundary_sourced_spec:
  assumes "sinv s" "valid_slice p" "p \<noteq> []" "valid_slice buffer" "length p \<le> length buffer" "t \<le> length content" "state_before st t"
  shows "\<exists>r st' buffer' s'. next_record_boundary_sourced env src t p st buffer path s = Ret (r, st', buffer', s') \<and> sinv s' \<and>
     length buffer' = length buffer \<and>
     (\<forall>b. r = Inr b \<longrightarrow> b = record_cut p content t \<and> (\<forall>u\<ge>b. state_before st' u))"
proof -
  obtain r1 buffer1 s1 where ex: "sourced_exact src (length content) t p buffer s = Ret (r1, buffer1, s1)" "sinv s1"
    "length buffer1 = length buffer" "case r1 of Inl e \<Rightarrow> source_error src sinv e | Inr b \<Rightarrow> b \<longleftrightarrow> ends_after p content t"
    using sourced_exact_spec [OF assms(1,2,4-6)] by blast
  note unf = next_record_boundary_sourced_def [of env src t p st buffer path s] cached_after_None [OF assms(7)] len_content [OF assms(1)]
  show ?thesis
  proof (cases r1)
    case (Inl e)
    with ex show ?thesis by (simp add: unf)
  next
    case (Inr exact)
    show ?thesis
    proof (cases exact)
      case True
      with ex Inr have "record_cut p content t = t" by (simp add: record_cut_def)
      with ex Inr True state_before_exact [OF assms(7)] show ?thesis
        by (auto simp: unf boundary_exact_def)
    next
      case False
      with ex Inr have ne: "\<not> ends_after p content t" by simp
      have m: "max t (st_scan_from st) = t" using assms(7) by (simp add: state_before_def)
      have vb: "valid_slice buffer1" "length p \<le> length buffer1" using assms(4,5) ex(3) by (simp_all add: valid_slice_def)
      obtain r2 buffer2 s2 where sc: "sourced_scan src (sourced_finder p) (slen p) (length content) t buffer1 s1 = Ret (r2, buffer2, s2)"
        "sinv s2" "length buffer2 = length buffer1"
        "case r2 of Inl e \<Rightarrow> source_error src sinv e | Inr b \<Rightarrow> b = scan_end p content t"
        using sourced_scan_spec [OF ex(2) assms(2,3) vb assms(6)] by blast
      have "scan_end p content t = record_cut p content t"
      proof (cases "first_occ p (drop t content)")
        case None
        then show ?thesis using record_cut_none [OF ne None] by (simp add: scan_end_def)
      next
        case (Some k)
        then show ?thesis using record_cut_found [OF assms(6) ne Some assms(3)] by (simp add: scan_end_def)
      qed
      with ex Inr False sc m state_before_found show ?thesis
        by (cases r2) (simp_all add: unf boundary_found_def)
    qed
  qed
qed

end

subsection \<open>The open source\<close>

definition dyn_inv ::
  "os_env \<Rightarrow> resources \<Rightarrow> resources \<Rightarrow> (path \<Rightarrow> bytes) \<Rightarrow> path \<Rightarrow> dyn_source \<times> trace \<Rightarrow> bool" where
  "dyn_inv env R0 R files path s \<longleftrightarrow>
     (case s of
        (DynWindowed w, tr) \<Rightarrow> windowed_source_inv env R0 R files path (w, tr)
      | (DynPread f, tr) \<Rightarrow> pread_source_inv env R0 R files path f tr)"

interpretation dyn_src: byte_source "dyn_ops env" "files path" "dyn_inv env R0 R files path"
  for env R0 R files path
proof
  fix s out off
  assume s: "dyn_inv env R0 R files path s" and out: "valid_slice (out :: bytes)"
  show "\<exists>r out' s'. bs_read_at (dyn_ops env) off out s = Ret (r, out', s') \<and> dyn_inv env R0 R files path s' \<and> length out' = length out"
  proof (cases s)
    case (Pair d tr)
    show ?thesis
    proof (cases d)
      case (DynWindowed w)
      then have "windowed_source_inv env R0 R files path (w, tr)" using s Pair by (simp add: dyn_inv_def)
      from windowed_src.read_total [OF this out, of off] DynWindowed Pair show ?thesis by (fastforce simp: dyn_ops_def dyn_inv_def)
    next
      case (DynPread f)
      then have "pread_source_inv env R0 R files path f tr" using s Pair by (simp add: dyn_inv_def)
      from pread_src.read_total [OF this out, of off] DynPread Pair show ?thesis by (fastforce simp: dyn_ops_def dyn_inv_def)
    qed
  qed
  fix n out' s'
  assume rd: "bs_read_at (dyn_ops env) off out s = Ret (Inr n, out', s')"
  show "n \<le> length out \<and> n \<le> length (files path) - off \<and> take n out' = take n (drop off (files path)) \<and>
      (n = 0 \<longrightarrow> out = [] \<or> length (files path) \<le> off)"
  proof (cases s)
    case (Pair d tr)
    show ?thesis
    proof (cases d)
      case (DynWindowed w)
      then have "windowed_source_inv env R0 R files path (w, tr)" using s Pair by (simp add: dyn_inv_def)
      moreover obtain s2 where "bs_read_at (windowed_source env) off out (w, tr) = Ret (Inr n, out', s2)"
        using rd DynWindowed Pair by (auto simp: dyn_ops_def)
      ultimately show ?thesis using windowed_src.read_exact out by blast
    next
      case (DynPread f)
      then have "pread_source_inv env R0 R files path f tr" using s Pair by (simp add: dyn_inv_def)
      moreover obtain s2 where "bs_read_at (pread_source env f) off out tr = Ret (Inr n, out', s2)"
        using rd DynPread Pair by (auto simp: dyn_ops_def)
      ultimately show ?thesis using pread_src.read_exact out by blast
    qed
  qed
next
  fix s
  assume s: "dyn_inv env R0 R files path s"
  obtain d tr where "s = (d, tr)" by (cases s)
  with s show "valid_slice (files path)" "bs_len (dyn_ops env) s = length (files path)"
    using windowed_src.valid_content windowed_src.len_content pread_src.valid_content pread_src.len_content
    by (cases d; fastforce simp: dyn_inv_def dyn_ops_def)+
qed (auto simp: dyn_ops_def windowed_source_def pread_source_def split: dyn_source.splits)

lemma dyn_inv_trace: "dyn_inv env R0 R files path (d, tr) \<Longrightarrow> env_trace env tr"
  by (cases d) (auto simp: dyn_inv_def windowed_source_inv_def windowed_inv_def pread_source_inv_def pread_inv_def)

lemma windowed_drop_trace [simp]: "env_trace env (windowed_drop env w tr) \<longleftrightarrow> env_trace env tr"
  by (auto simp: windowed_drop_def unmap_view_def close_fd_def close_win_file_def close_win_mapping_def Let_def
      split: option.split os_handles.split)

lemma dyn_drop_spec:
  assumes "dyn_inv env R0 R files path (d, tr)"
  shows "env_trace env (dyn_drop pf env d tr) \<and> run_res (dyn_drop pf env d tr) R0 = Some R"
  using assms dyn_inv_trace [OF assms] windowed_drop_res std_close_res
  by (cases d) (auto simp: dyn_drop_def dyn_inv_def windowed_source_inv_def windowed_inv_def pread_source_inv_def pread_inv_def)

lemma open_sourced_spec:
  assumes "os_contract env files" "env_trace env tr" "run_res tr R0 = Some R" "open_sourced pf env path opts tr = (r, tr')"
  shows "case r of Inl e \<Rightarrow> run_res tr' R0 = Some R | Inr d \<Rightarrow> dyn_inv env R0 R files path (d, tr')"
proof (cases "po_mode opts")
  case Mmap
  with assms show ?thesis by (auto simp: open_sourced_def)
next
  case Windowed
  obtain q t1 where o: "windowed_open_path pf env path (po_window_bytes opts) tr = (q, t1)" by force
  show ?thesis
    using Windowed o windowed_open_res [OF o assms(3)] windowed_open_inv [OF assms(1,2)] assms(1,4)
    by (auto simp: open_sourced_def dyn_inv_def windowed_source_inv_def split: sum.splits)
next
  case Pread
  obtain q t1 where o: "pread_open_path pf env path tr = (q, t1)" by force
  show ?thesis
    using Pread o pread_open_spec [OF assms(1,2) o assms(3)] assms(4)
    by (auto simp: open_sourced_def dyn_inv_def split: sum.splits)
qed

text \<open>Between projections: nothing is open, or one source of the list with its buffer.\<close>

definition current_ok ::
  "os_env \<Rightarrow> resources \<Rightarrow> resources \<Rightarrow> (path \<Rightarrow> bytes) \<Rightarrow> path list \<Rightarrow> nat \<Rightarrow> sourced_state \<Rightarrow> bool" where
  "current_ok env R0 R files paths buffer_len st \<longleftrightarrow>
     (case st of
        (None, tr) \<Rightarrow> env_trace env tr \<and> run_res tr R0 = Some R
      | (Some open, tr) \<Rightarrow>
          op_index open < length paths \<and> length (op_buffer open) = buffer_len \<and>
          dyn_inv env R0 R files (paths ! op_index open) (op_source open, tr))"

lemma drop_current_spec:
  "current_ok env R0 R files paths n st \<Longrightarrow> env_trace env (drop_current pf env st) \<and> run_res (drop_current pf env st) R0 = Some R"
  using dyn_drop_spec by (auto simp: current_ok_def drop_current_def split: prod.splits option.splits)

text \<open>After an error the planner only releases what is open.\<close>

definition releasable :: "platform \<Rightarrow> os_env \<Rightarrow> resources \<Rightarrow> resources \<Rightarrow> sourced_state \<Rightarrow> bool" where
  "releasable pf env R0 R st \<longleftrightarrow> run_res (drop_current pf env st) R0 = Some R"

lemma current_releasable: "current_ok env R0 R files paths n st \<Longrightarrow> releasable pf env R0 R st"
  using drop_current_spec by (simp add: releasable_def)

lemma switch_source_spec:
  assumes c: "os_contract env files" and st: "current_ok env R0 R files paths n st" and i: "i < length paths"
    and n: "n \<le> isize_max" and len: "len = length (files (paths ! i))"
  shows "\<exists>r st'. switch_source pf env opts i (paths ! i) len n st = Ret (r, st') \<and>
     (case r of
        Inl e \<Rightarrow> releasable pf env R0 R st'
      | Inr _ \<Rightarrow> current_ok env R0 R files paths n st' \<and>
          (\<exists>opn tr'. st' = (Some opn, tr') \<and> op_index opn = i \<and> (st' = st \<or> op_state opn = boundary_default)))"
proof (cases "map_option op_index (fst st) = Some i")
  case True
  then obtain opn tr where "st = (Some opn, tr)" "op_index opn = i" by (cases st) auto
  with st show ?thesis by (simp add: switch_source_def)
next
  case False
  let ?t = "drop_current pf env st"
  note d = drop_current_spec [OF st, of pf]
  obtain r1 t1 where o: "open_sourced pf env (paths ! i) opts ?t = (r1, t1)" by force
  note os = open_sourced_spec [OF c conjunct1 [OF d] conjunct2 [OF d] o]
  show ?thesis
  proof (cases r1)
    case (Inl e)
    with False o have "switch_source pf env opts i (paths ! i) len n st = Ret (Inl e, None, t1)"
      unfolding switch_source_def by simp
    with Inl os show ?thesis by (simp add: releasable_def drop_current_def)
  next
    case (Inr s)
    have inv: "dyn_inv env R0 R files (paths ! i) (s, t1)" using os Inr by simp
    have l: "bs_len (dyn_ops env) (s, t1) = len" "len < 2 ^ 64"
      using dyn_src.len_content [OF inv] valid_slice_usize [OF dyn_src.valid_content [OF inv]] len by (simp_all add: max_consts)
    then have "switch_source pf env opts i (paths ! i) len n st =
        Ret (Inr (), (Some \<lparr>op_index = i, op_source = s, op_state = boundary_default, op_buffer = replicate n 0\<rparr>, t1))"
      using o Inr n unfolding switch_source_def if_not_P [OF False] by (simp add: usize_to_u128_def)
    then show ?thesis using inv i by (simp add: current_ok_def)
  qed
qed

subsection \<open>Projection\<close>

definition sourced_inv ::
  "os_env \<Rightarrow> resources \<Rightarrow> resources \<Rightarrow> (path \<Rightarrow> bytes) \<Rightarrow> path list \<Rightarrow> nat \<Rightarrow> nat \<Rightarrow> sourced_state \<Rightarrow> bool" where
  "sourced_inv env R0 R files paths n l st \<longleftrightarrow>
     current_ok env R0 R files paths n st \<and>
     (\<forall>opn. fst st = Some opn \<longrightarrow>
        (\<forall>t. l < t \<and> psum (map files paths) (op_index opn) \<le> t \<longrightarrow>
           state_before (op_state opn) (t - psum (map files paths) (op_index opn))))"

lemma state_before_default: "state_before boundary_default t"
  by (simp add: state_before_def boundary_default_def)

text \<open>The boundary search on the source that is open, with the source put back.\<close>

lemma project_open_spec:
  assumes "current_ok env R0 R files paths n (Some opn, tr)" "op_index opn = i" "valid_slice p" "p \<noteq> []" "length p \<le> n" "n \<le> isize_max"
    "state_before (op_state opn) t" "t \<le> length (files (paths ! i))"
  obtains r opn' tr' where
    "rbind (next_record_boundary_sourced env (dyn_ops env) t p (op_state opn) (op_buffer opn) (paths ! i) (op_source opn, tr))
       (\<lambda>(r2, state', buffer', source', tr2).
         Ret (ebind r2 (\<lambda>local_boundary. ebind (usize_to_u128 local_boundary) (\<lambda>b. Inr (start + b))),
              (Some (opn\<lparr>op_source := source', op_state := state', op_buffer := buffer'\<rparr>), tr2))) =
     Ret (r, Some opn', tr')"
    "op_index opn' = i" "current_ok env R0 R files paths n (Some opn', tr')"
    "\<And>b. r = Inr b \<Longrightarrow> b = start + record_cut p (files (paths ! i)) t \<and> (\<forall>u. b \<le> start + u \<longrightarrow> state_before (op_state opn') u)"
proof -
  have i: "i < length paths" and inv: "dyn_inv env R0 R files (paths ! i) (op_source opn, tr)" and buf: "length (op_buffer opn) = n"
    using assms(1,2) by (simp_all add: current_ok_def)
  have vb: "valid_slice (op_buffer opn)" "length p \<le> length (op_buffer opn)" using assms(5,6) buf by (simp_all add: valid_slice_def)
  obtain r2 state' buffer' source' tr2 where nx:
    "next_record_boundary_sourced env (dyn_ops env) t p (op_state opn) (op_buffer opn) (paths ! i) (op_source opn, tr) =
       Ret (r2, state', buffer', source', tr2)"
    "dyn_inv env R0 R files (paths ! i) (source', tr2)" "length buffer' = n"
    "\<And>b. r2 = Inr b \<Longrightarrow> b = record_cut p (files (paths ! i)) t \<and> (\<forall>u\<ge>b. state_before state' u)"
    using dyn_src.next_record_boundary_sourced_spec [OF inv assms(3,4) vb assms(8,7), of env "paths ! i"] buf by fastforce
  have "record_cut p (files (paths ! i)) t < 2 ^ 64"
    using record_cut_le [of p "files (paths ! i)" t] valid_slice_usize [OF dyn_src.valid_content [OF inv]] by (simp add: max_consts)
  with nx(4) have small: "b < 2 ^ 64" if "r2 = Inr b" for b using that by simp
  show thesis
  proof (rule that [of "map_sum id ((+) start) r2" "opn\<lparr>op_source := source', op_state := state', op_buffer := buffer'\<rparr>" tr2])
    show "rbind (next_record_boundary_sourced env (dyn_ops env) t p (op_state opn) (op_buffer opn) (paths ! i) (op_source opn, tr))
       (\<lambda>(r2, state', buffer', source', tr2).
         Ret (ebind r2 (\<lambda>local_boundary. ebind (usize_to_u128 local_boundary) (\<lambda>b. Inr (start + b))),
              (Some (opn\<lparr>op_source := source', op_state := state', op_buffer := buffer'\<rparr>), tr2))) =
      Ret (map_sum id ((+) start) r2, Some (opn\<lparr>op_source := source', op_state := state', op_buffer := buffer'\<rparr>), tr2)"
      using small by (cases r2) (simp_all add: nx(1) usize_to_u128_def)
    fix b assume "map_sum id ((+) start) r2 = Inr b"
    then obtain b0 where "r2 = Inr b0" "b = start + b0" by (cases r2) auto
    with nx(4) show "b = start + record_cut p (files (paths ! i)) t \<and>
        (\<forall>u. b \<le> start + u \<longrightarrow> state_before (op_state (opn\<lparr>op_source := source', op_state := state', op_buffer := buffer'\<rparr>)) u)"
      by simp
  qed (use nx(2,3) i assms(2) in \<open>simp_all add: current_ok_def\<close>)
qed

lemma project_sourced_spec:
  assumes c: "os_contract env files" and p: "valid_slice p" "p \<noteq> []" and n: "length p \<le> n" "n \<le> isize_max"
    and st: "sourced_inv env R0 R files paths n l st" and t: "l < t" "t < logical_len (map files paths)"
  shows "\<exists>r st'. project_sourced_target pf env opts t (prefixes_of (map files paths)) paths p n st = Ret (r, st') \<and>
     (case r of Inl e \<Rightarrow> releasable pf env R0 R st'
      | Inr b \<Rightarrow> b = lcut p (map files paths) t \<and> sourced_inv env R0 R files paths n b st')"
proof (cases "t \<in> set (prefixes_of (map files paths))")
  case True
  with st t lcut_exact show ?thesis by (auto simp: project_sourced_target_def binary_search_ok_def sourced_inv_def)
next
  case False
  let ?cs = "map files paths"
  obtain i where i: "partition_point (\<lambda>x. x \<le> t) (prefixes_of ?cs) = Suc i" "i < length ?cs" "psum ?cs i < t" "t < psum ?cs (Suc i)"
    "psum ?cs (Suc i) = psum ?cs i + length (?cs ! i)" "lcut p ?cs t = psum ?cs i + record_cut p (?cs ! i) (t - psum ?cs i)"
    "index_at (prefixes_of ?cs) i = Ret (psum ?cs i)" "index_at (prefixes_of ?cs) (Suc i) = Ret (psum ?cs (Suc i))"
    using target_source [OF t(2) False] by metis
  then have ip: "i < length paths" and ci: "?cs ! i = files (paths ! i)" by simp_all
  let ?t = "t - psum ?cs i" and ?c = "files (paths ! i)"
  have cur: "current_ok env R0 R files paths n st" using st by (simp add: sourced_inv_def)
  note project = project_sourced_target_def binary_search_ok_def usize_from_u128_def
  obtain r1 st1 where sw: "switch_source pf env opts i (paths ! i) (length ?c) n st = Ret (r1, st1)"
    "case r1 of Inl e \<Rightarrow> releasable pf env R0 R st1
      | Inr _ \<Rightarrow> current_ok env R0 R files paths n st1 \<and>
          (\<exists>opn tr'. st1 = (Some opn, tr') \<and> op_index opn = i \<and> (st1 = st \<or> op_state opn = boundary_default))"
    using switch_source_spec [OF c cur ip n(2) refl] by blast
  consider (large) "usize_max < ?t" | (unopened) e where "?t \<le> usize_max" "r1 = Inl e"
    | (opened) u where "?t \<le> usize_max" "r1 = Inr u" by (cases r1) (auto simp: not_le [symmetric])
  then show ?thesis
  proof cases
    case large
    with False i(1,7,8) current_releasable [OF cur] show ?thesis by (simp add: project)
  next
    case unopened
    with False i(1,5,7,8) ip ci sw show ?thesis by (simp add: project)
  next
    case opened
    then obtain opn tr1 where o: "st1 = (Some opn, tr1)" "op_index opn = i" "st1 = st \<or> op_state opn = boundary_default"
      and cur1: "current_ok env R0 R files paths n (Some opn, tr1)" using sw(2) by auto
    have sb: "state_before (op_state opn) ?t"
      using o(3)
    proof
      assume "st1 = st"
      with o(1,2) st t(1) i(3) show ?thesis by (auto simp: sourced_inv_def)
    qed (simp add: state_before_default)
    have tl: "?t \<le> length ?c" using i(4,5) ci by simp
    obtain r opn' tr' where step:
      "rbind (next_record_boundary_sourced env (dyn_ops env) ?t p (op_state opn) (op_buffer opn) (paths ! i) (op_source opn, tr1))
       (\<lambda>(r2, state', buffer', source', tr2).
         Ret (ebind r2 (\<lambda>local_boundary. ebind (usize_to_u128 local_boundary) (\<lambda>b. Inr (psum ?cs i + b))),
              (Some (opn\<lparr>op_source := source', op_state := state', op_buffer := buffer'\<rparr>), tr2))) = Ret (r, Some opn', tr')"
      and nx: "op_index opn' = i" "current_ok env R0 R files paths n (Some opn', tr')"
      "\<And>b. r = Inr b \<Longrightarrow> b = psum ?cs i + record_cut p ?c ?t \<and> (\<forall>u. b \<le> psum ?cs i + u \<longrightarrow> state_before (op_state opn') u)"
      by (rule project_open_spec [OF cur1 o(2) p n sb tl, of "psum ?cs i"]) (rule that)
    have run: "project_sourced_target pf env opts t (prefixes_of ?cs) paths p n st = Ret (r, Some opn', tr')"
      using False i(1,5,7,8) ip ci sw(1) o(1) opened step by (simp add: project)
    show ?thesis
    proof (cases r)
      case (Inl e)
      with run current_releasable [OF nx(2)] show ?thesis by simp
    next
      case (Inr b)
      then have b: "b = lcut p ?cs t" using nx(3) i(6) ci by simp
      have "sourced_inv env R0 R files paths n b (Some opn', tr')"
        using nx(1,2) conjunct2 [OF nx(3) [OF Inr]] by (auto simp: sourced_inv_def)
      with run Inr b show ?thesis by simp
    qed
  qed
qed

subsection \<open>The planning loop\<close>

text \<open>The loop keeps an invariant that its projection keeps.\<close>

lemma sourced_cuts_inv:
  assumes step: "\<And>l t s. P l s \<Longrightarrow> l < t \<Longrightarrow> t < len \<Longrightarrow>
      \<exists>r s'. project t s = Ret (r, s') \<and> (case r of Inl e \<Rightarrow> Q s' | Inr b \<Rightarrow> t \<le> b \<and> b \<le> len \<and> P b s')"
    and weak: "\<And>l s. P l s \<Longrightarrow> Q s"
  shows "P l s \<Longrightarrow> l < len \<Longrightarrow> \<exists>r s'. sourced_cuts project len n i l s = Ret (r, s') \<and> Q s'"
proof (induction "n - i" arbitrary: i l s rule: less_induct)
  case less
  show ?case
  proof (cases "i < n")
    case False
    with less.prems weak show ?thesis by (subst sourced_cuts.simps) auto
  next
    case True
    define q where "q = ebind (usize_to_u128 i) (\<lambda>k. if len * k < 2 ^ 128
        then ebind (usize_to_u128 n) (\<lambda>n. Inr (len * k div n)) else Inl ''logical target arithmetic overflow'')"
    note unf = sourced_cuts.simps [of project len n i l s, folded q_def]
    show ?thesis
    proof (cases q)
      case (Inl e)
      with True less.prems weak show ?thesis by (auto simp: unf)
    next
      case (Inr t)
      then have "t = len * i div n" by (auto simp: q_def usize_to_u128_def split: if_splits)
      then have t: "t < len" using target_less [OF True] less.prems(2) by simp
      show ?thesis
      proof (cases "t \<le> l")
        case le: True
        then show ?thesis using less.hyps [of "i + 1", OF _ less.prems] True Inr by (simp add: unf)
      next
        case False
        then obtain r s' where pr: "project t s = Ret (r, s')" "case r of Inl e \<Rightarrow> Q s' | Inr b \<Rightarrow> t \<le> b \<and> b \<le> len \<and> P b s'"
          using step [OF less.prems(1) _ t] by auto
        show ?thesis
        proof (cases r)
          case (Inl e)
          with pr True False \<open>q = Inr t\<close> show ?thesis by (simp add: unf)
        next
          case (Inr b)
          then have b: "t \<le> b" "b \<le> len" "P b s'" using pr(2) by simp_all
          show ?thesis
          proof (cases "b = len")
            case True
            with pr(1) Inr b weak \<open>i < n\<close> False t \<open>q = Inr t\<close> show ?thesis by (auto simp: unf)
          next
            case bl: False
            then obtain r' s'' where "sourced_cuts project len n (i + 1) b s' = Ret (r', s'')" "Q s''"
              using less.hyps [of "i + 1", OF _ b(3)] True b(2) by fastforce
            then show ?thesis using pr(1) Inr b True False bl \<open>q = Inr t\<close> by (simp add: unf)
          qed
        qed
      qed
    qed
  qed
qed

text \<open>Without the state of an error, the loop is the one over mapped sources.\<close>

definition forget :: "('a cli \<times> 's) run \<Rightarrow> ('a \<times> 's) cli run" where
  "forget m = rmap (\<lambda>(r, s). case r of Inl e \<Rightarrow> Inl e | Inr x \<Rightarrow> Inr (x, s)) m"

lemma forget_simps [simp]:
  "forget (Ret (Inl e, s)) = Ret (Inl e)" "forget (Ret (Inr x, s)) = Ret (Inr (x, s))" "forget (Panic m) = Panic m"
  by (simp_all add: forget_def)

lemma forget_cuts: "forget (sourced_cuts project len n i l s) = logical_cuts (\<lambda>t s. forget (project t s)) len n i l s"
proof (induction "n - i" arbitrary: i l s rule: less_induct)
  case less
  show ?case
  proof (cases "i < n")
    case False
    then show ?thesis by (subst sourced_cuts.simps, subst logical_cuts.simps) simp
  next
    case True
    define q where "q = ebind (usize_to_u128 i) (\<lambda>k. if len * k < 2 ^ 128
        then ebind (usize_to_u128 n) (\<lambda>n. Inr (len * k div n)) else Inl ''logical target arithmetic overflow'')"
    note unf = sourced_cuts.simps [of project len n i l s, folded q_def] logical_cuts.simps [of _ len n i l s, folded q_def]
    have IH: "forget (sourced_cuts project len n (i + 1) l s) = logical_cuts (\<lambda>t s. forget (project t s)) len n (i + 1) l s" for l s
      using less [of "i + 1"] True by simp
    have push: "forget (rmap (\<lambda>(cuts, s''). (map_sum id ((#) b) cuts, s'')) m) =
        rcbind (forget m) (\<lambda>(cuts, s''). Ret (Inr (b # cuts, s'')))" for b and m :: "(nat list cli \<times> 'a) run"
      by (cases m) (auto split: sum.splits prod.splits simp: forget_def)
    show ?thesis
    proof (cases q)
      case (Inr t)
      show ?thesis
      proof (cases "project t s")
        case (Ret v)
        obtain r s' where v: "v = (r, s')" by (cases v)
        show ?thesis using True Inr Ret v IH by (cases r) (auto simp: unf push)
      qed (use True Inr IH in \<open>simp add: unf\<close>)
    qed (use True in \<open>simp add: unf\<close>)
  qed
qed

subsection \<open>Planning\<close>

text \<open>Metadata of an immutable file gives its length.\<close>

definition stat_ok :: "os_env \<Rightarrow> (path \<Rightarrow> bytes) \<Rightarrow> bool" where
  "stat_ok env files \<longleftrightarrow> (\<forall>tr path meta. env_stat env tr path = Inr meta \<longrightarrow> meta_len meta = length (files path))"

lemma stat_prefixes_spec:
  assumes "stat_ok env files" "env_trace env tr" "stat_prefixes env paths b tr = (r, tr')"
  shows "env_trace env tr' \<and> run_res tr' R0 = run_res tr R0 \<and>
     (\<forall>ps. r = Inr ps \<longrightarrow> ps = map (\<lambda>k. b + psum (map files paths) k) [0..<Suc (length paths)])"
  using assms
proof (induction env paths b tr arbitrary: r tr' rule: stat_prefixes.induct)
  case (2 env path paths previous tr)
  let ?t = "sys_do env (SysStat path) tr"
  have res: "run_res ?t R0 = run_res tr R0" by (cases "run_res tr R0") simp_all
  show ?case
  proof (cases "env_stat env tr path")
    case (Inl e)
    with 2 res show ?thesis by (auto simp: Let_def)
  next
    case (Inr m)
    show ?thesis
    proof (cases "previous + meta_len m < 2 ^ 128")
      case True
      obtain q tr2 where q: "stat_prefixes env paths (previous + meta_len m) ?t = (q, tr2)" by force
      note IH = 2(1) [OF refl Inr True 2(2) _ q]
      have up: "[0..<Suc (length (path # paths))] = 0 # map Suc [0..<Suc (length paths)]"
        by (simp add: upt_conv_Cons map_Suc_upt del: upt_Suc)
      show ?thesis using IH 2(2,3,4) Inr True q res unfolding up
        by (cases q) (auto simp: Let_def stat_ok_def add.assoc comp_def simp del: upt_Suc)
    next
      case False
      with 2 Inr res show ?thesis by (auto simp: Let_def)
    qed
  qed
qed auto

definition sourced_ready ::
  "os_env \<Rightarrow> (path \<Rightarrow> bytes) \<Rightarrow> bytes \<Rightarrow> nat \<Rightarrow> bool" where
  "sourced_ready env files p n \<longleftrightarrow> os_contract env files \<and> valid_slice p \<and> p \<noteq> [] \<and> length p \<le> n \<and> n \<le> isize_max"

interpretation sourced: projection "lcut p (map files paths)" "logical_len (map files paths)" "lboundary p (map files paths)"
  "\<lambda>t st. forget (project_sourced_target pf env opts t (prefixes_of (map files paths)) paths p n st)"
  "\<lambda>l st. sourced_ready env files p n \<and> sourced_inv env R0 R files paths n l st" True
  for pf env opts files paths p n R0 R
proof unfold_locales
  fix l t :: nat and s
  assume "sourced_ready env files p n \<and> sourced_inv env R0 R files paths n l s" "l < t" "t < logical_len (map files paths)"
  moreover from this obtain r s' where
    "project_sourced_target pf env opts t (prefixes_of (map files paths)) paths p n s = Ret (r, s')"
    "case r of Inl e \<Rightarrow> releasable pf env R0 R s'
     | Inr b \<Rightarrow> b = lcut p (map files paths) t \<and> sourced_inv env R0 R files paths n b s'"
    using project_sourced_spec [of env files p n R0 R paths l s t pf opts] unfolding sourced_ready_def by blast
  ultimately show "(True \<and> (\<exists>e. forget (project_sourced_target pf env opts t (prefixes_of (map files paths)) paths p n s) = Ret (Inl e))) \<or>
      (\<exists>s'. forget (project_sourced_target pf env opts t (prefixes_of (map files paths)) paths p n s) =
          Ret (Inr (lcut p (map files paths) t, s')) \<and>
        sourced_ready env files p n \<and> sourced_inv env R0 R files paths n (lcut p (map files paths) t) s')"
    by (cases r) auto
qed

text \<open>The loop over the targets leaves the open source releasable, and its cuts are those of the plan.\<close>

lemma sourced_cuts_spec:
  fixes paths files
  defines "cs \<equiv> map files paths"
  assumes ready: "sourced_ready env files p bl" and inv: "sourced_inv env R0 R files paths bl 0 st0"
    and len: "logical_len cs \<le> usize_max" "0 < logical_len cs" and n: "0 < n" "n \<le> usize_max"
  shows "\<exists>r st. sourced_cuts (\<lambda>t st. project_sourced_target pf env opts t (prefixes_of cs) paths p bl st) (logical_len cs)
       (effective_parts_of n (logical_len cs)) 1 0 st0 = Ret (r, st) \<and> releasable pf env R0 R st \<and>
     (\<forall>cps. r = Inr cps \<longrightarrow> pairs 0 cps (logical_len cs) = plan_spec (lcut p cs) (logical_len cs) n)"
proof -
  let ?len = "logical_len cs" and ?eff = "effective_parts_of n (logical_len cs)"
  let ?pr = "\<lambda>t st. project_sourced_target pf env opts t (prefixes_of cs) paths p bl st"
  have eff: "?eff = min n ?len" "?eff \<le> usize_max" using len n by (auto simp: effective_parts_of_def)
  have step: "\<exists>r s'. ?pr t s = Ret (r, s') \<and>
      (case r of Inl e \<Rightarrow> releasable pf env R0 R s' | Inr b \<Rightarrow> t \<le> b \<and> b \<le> ?len \<and> sourced_inv env R0 R files paths bl b s')"
    if hyp: "sourced_inv env R0 R files paths bl l s" "l < t" "t < ?len" for l t s
  proof -
    obtain r s' where "?pr t s = Ret (r, s')"
      "case r of Inl e \<Rightarrow> releasable pf env R0 R s' | Inr b \<Rightarrow> b = lcut p cs t \<and> sourced_inv env R0 R files paths bl b s'"
      using project_sourced_spec [of env files p bl R0 R paths l s t pf opts] ready hyp unfolding sourced_ready_def cs_def by blast
    then show ?thesis using lcut_ge [of t cs p] lcut_le [of p cs t] hyp(3) by (cases r) auto
  qed
  have weak: "releasable pf env R0 R s" if "sourced_inv env R0 R files paths bl l s" for l s
    using that current_releasable unfolding sourced_inv_def by blast
  have "\<exists>r st. sourced_cuts ?pr ?len ?eff 1 0 st0 = Ret (r, st) \<and> releasable pf env R0 R st"
    by (rule sourced_cuts_inv [where P = "sourced_inv env R0 R files paths bl"]) (fact step weak inv len(2))+
  then obtain r st where cuts: "sourced_cuts ?pr ?len ?eff 1 0 st0 = Ret (r, st)" "releasable pf env R0 R st" by blast
  moreover have "pairs 0 cps ?len = plan_spec (lcut p cs) ?len n" if "r = Inr cps" for cps
  proof -
    have "forget (sourced_cuts ?pr ?len ?eff 1 0 st0) = Ret (Inr (cps, st))" using cuts(1) that by simp
    then have lc: "logical_cuts (\<lambda>t s. forget (?pr t s)) ?len ?eff 1 0 st0 = Ret (Inr (cps, st))"
      by (simp only: forget_cuts)
    have "pairs 0 cps ?len = ranges_loop ?len 0 (plan_cuts (lcut p cs) (map (\<lambda>k. ?len * k div ?eff) [1..<?eff]) 0)"
      using sourced.logical_cuts_spec [of files paths ?eff env p bl R0 R 0 st0 pf opts 1] len eff(2) ready inv lc
      unfolding cs_def by auto
    then show ?thesis
      using eff len(2) n(1) logical.plan_spec_cap [of p cs n] by (simp add: plan_spec_def ideal_targets_def)
  qed
  ultimately show ?thesis by blast
qed

lemma plan_sourced_spec:
  fixes paths files
  defines "cs \<equiv> map files paths"
  assumes c: "os_contract env files" "stat_ok env files" "env_trace env tr" and R: "run_res tr R0 = Some R"
    and p: "valid_slice p" "p \<noteq> []" and n: "0 < n" "n \<le> usize_max"
    and len: "logical_len cs \<le> usize_max" and buf: "po_scan_buffer_bytes opts \<le> isize_max"
  shows "\<exists>r tr'. plan_logical_partitions_sourced pf env paths n p opts tr = Ret (r, tr') \<and> run_res tr' R0 = Some R \<and>
     (\<forall>ws. r = Inr ws \<longrightarrow> ws = workers cs 0 (plan_spec (lcut p cs) (logical_len cs) n))"
proof -
  obtain q t1 where q: "stat_prefixes env paths 0 tr = (q, t1)" by force
  note sp = stat_prefixes_spec [OF c(2,3) q]
  have t1: "env_trace env t1" "run_res t1 R0 = Some R" using sp R by simp_all
  let ?len = "logical_len cs" and ?bl = "max (max (po_scan_buffer_bytes opts) (slen p)) 1"
  have ps: "ps = prefixes_of cs" if "q = Inr ps" for ps
    using sp [of R0] that by (simp add: prefixes_of_def cs_def del: upt_Suc)
  consider (failed) e where "q = Inl e" | (empty) "q = Inr (prefixes_of cs)" "?len = 0"
    | (some) "q = Inr (prefixes_of cs)" "0 < ?len" using ps by (cases q) auto
  then show ?thesis
  proof cases
    case failed
    with q n t1 show ?thesis by (simp add: plan_logical_partitions_sourced_def)
  next
    case empty
    with q n t1 show ?thesis by (simp add: plan_logical_partitions_sourced_def last_prefixes plan_spec_def)
  next
    case some
    have ready: "sourced_ready env files p ?bl" using c p buf by (simp add: sourced_ready_def valid_slice_def max_consts)
    have inv: "sourced_inv env R0 R files paths ?bl 0 (None, t1)" using t1 by (simp add: sourced_inv_def current_ok_def)
    from sourced_cuts_spec [OF ready inv len [unfolded cs_def] some(2) [unfolded cs_def] n, of pf opts, folded cs_def]
    obtain r st where cuts: "sourced_cuts (\<lambda>t st. project_sourced_target pf env opts t (prefixes_of cs) paths p ?bl st) ?len
          (effective_parts_of n ?len) 1 0 (None, t1) = Ret (r, st)"
      "run_res (drop_current pf env st) R0 = Some R" "\<And>cps. r = Inr cps \<Longrightarrow> pairs 0 cps ?len = plan_spec (lcut p cs) ?len n"
      unfolding releasable_def by blast
    have unf: "plan_logical_partitions_sourced pf env paths n p opts tr =
        (case r of Inl e \<Rightarrow> Ret (Inl e, drop_current pf env st)
         | Inr cut_points \<Rightarrow> rmap (\<lambda>ws. (ws, drop_current pf env st))
             (assign_loop (prefixes_of cs) (length paths) 0 0 (cut_points @ [?len])))"
      using q some n cuts(1) by (simp add: plan_logical_partitions_sourced_def last_prefixes Let_def)
    show ?thesis
    proof (cases r)
      case (Inl e)
      with unf cuts(2) show ?thesis by simp
    next
      case (Inr cps)
      note pe = cuts(3) [OF this]
      have tl: "tiles 0 (pairs 0 cps ?len) ?len" unfolding pe by (rule logical.plan_spec_tiles [OF n(1)])
      have "\<forall>c\<in>set cs. length c \<le> usize_max"
        using len member_le_sum_list [of _ "map length cs"] unfolding logical_len_def by fastforce
      from assign_loop_spec [OF this tl, of 0] unf Inr cuts(2) pe show ?thesis by (simp add: cs_def)
    qed
  qed
qed

subsection \<open>Claim\<close>

text \<open>
  Claim C9: planning over sources that are opened on demand never panics, releases every handle and
  mapping it takes, on error paths too, and when it succeeds it assigns exactly the worker ranges
  that planning over full mappings of the same files assigns, whatever backend and window are
  chosen, and whatever scan buffer of at most \<open>isize::MAX\<close> bytes (the program uses the default).
\<close>

theorem sourced_plan_parity:
  assumes "os_contract env files" "stat_ok env files" "env_trace env tr" "run_res tr R0 = Some R"
    "valid_slice delimiter" "delimiter \<noteq> []" "0 < requested_parts" "requested_parts \<le> usize_max"
    "sum_list (map (\<lambda>p. length (files p)) paths) \<le> usize_max" "po_scan_buffer_bytes opts \<le> isize_max"
  shows "\<exists>r tr'. plan_logical_partitions_sourced pf env paths requested_parts delimiter opts tr = Ret (r, tr') \<and>
     run_res tr' R0 = Some R \<and>
     (\<forall>ws sources trm. r = Inr ws \<and> map (\<lambda>c. chunker_as_bytes env c trm) sources = map files paths \<and>
        map chunker_len sources = map (\<lambda>p. length (files p)) paths \<and> (\<forall>p\<in>set paths. valid_slice (files p)) \<longrightarrow>
        plan_logical_partitions env trm sources requested_parts delimiter = Ret (Inr ws))"
proof -
  let ?cs = "map files paths"
  have len: "logical_len ?cs \<le> usize_max" using assms(9) by (simp add: logical_len_def comp_def)
  obtain r tr' where r: "plan_logical_partitions_sourced pf env paths requested_parts delimiter opts tr = Ret (r, tr')"
    "run_res tr' R0 = Some R"
    "\<And>ws. r = Inr ws \<Longrightarrow> ws = workers ?cs 0 (plan_spec (lcut delimiter ?cs) (logical_len ?cs) requested_parts)"
    using plan_sourced_spec [OF assms(1-8) len assms(10), of pf] by blast
  moreover have "plan_logical_partitions env trm sources requested_parts delimiter = Ret (Inr ws)"
    if "r = Inr ws" "map (\<lambda>c. chunker_as_bytes env c trm) sources = ?cs" "map chunker_len sources = map (\<lambda>p. length (files p)) paths"
      "\<forall>p\<in>set paths. valid_slice (files p)" for ws sources trm
  proof -
    have "sources_show env trm sources ?cs" using that(2-4) len by (auto simp: sources_show_def comp_def)
    from plan_logical_spec [OF this assms(5-8)] r(3) that(1) show ?thesis by simp
  qed
  ultimately show ?thesis by blast
qed

theorem sourced_plan_parity_witness:
  "\<exists>r tr'. plan_logical_partitions_sourced Unix (sim_env (\<lambda>_. [97, 10, 98])) [''f'', ''g''] 2 [10] (planner_new Pread) [] = Ret (r, tr') \<and>
     run_res tr' \<lparr>res_handles = [], res_maps = []\<rparr> = Some \<lparr>res_handles = [], res_maps = []\<rparr>"
proof -
  let ?files = "\<lambda>_ :: path. [97, 10, 98] :: byte list" and ?R = "\<lparr>res_handles = [], res_maps = []\<rparr>"
  have s: "stat_ok (sim_env ?files) ?files" by (simp add: stat_ok_def)
  have R: "run_res [] ?R = Some ?R" by simp
  have v: "valid_slice [10 :: byte]" "[10 :: byte] \<noteq> []" "0 < (2 :: nat)" "2 \<le> usize_max" by (simp_all add: valid_slice_def max_consts)
  have l: "sum_list (map (\<lambda>p. length (?files p)) [''f'', ''g'']) \<le> usize_max" by (simp add: max_consts)
  have b: "po_scan_buffer_bytes (planner_new Pread) \<le> isize_max"
    by (simp add: planner_new_def planner_default_def DEFAULT_SCAN_BUFFER_BYTES_def max_consts)
  show ?thesis using sourced_plan_parity [OF sim_chunker_contract s env_trace_Nil R v l b, of Unix] by blast
qed

end
