(* ===== verification/Cli.thy ===== *)
theory Cli
  imports Cli_Args Cli_Sourced
begin

section \<open>The command-line program\<close>

text \<open>
  The commands, their output and \<open>main\<close> of \<open>src/src/bin/mmap-chunker.rs\<close>. A command returns its
  result, success or an error text, together with the text that reached standard output and the
  trace. The environment adds to the operating system what else the program depends on:
  \<open>ce_stdout text\<close> is \<open>None\<close> when standard output accepts the whole text, and \<open>Some (k, error)\<close>
  when writing it fails after its first \<open>k\<close> characters were written; \<open>ce_stderr line\<close> is the error
  of writing a line to standard error, if any; \<open>ce_alloc\<close> and \<open>ce_bptr\<close> are the outcome and the
  address of the scan-buffer allocation; and \<open>ce_version\<close> is the package version the build inserts.
\<close>

record cli_env =
  ce_pf :: platform
  ce_os :: os_env
  ce_alloc :: "nat \<Rightarrow> bool"
  ce_bptr :: nat
  ce_stdout :: "string \<Rightarrow> (nat \<times> io_error) option"
  ce_stderr :: "string \<Rightarrow> io_error option"
  ce_version :: string

subsection \<open>Output\<close>

definition newline :: string where "newline = [CHR 0x0A]"
definition tab :: string where "tab = [CHR 0x09]"

text \<open>A row of numbers separated by tabs.\<close>

fun row :: "nat list \<Rightarrow> string" where
  "row [] = newline"
| "row [n] = show_nat n @ newline"
| "row (n # ns) = show_nat n @ tab @ row ns"

text \<open>
  Writing through the buffer and flushing: when an operation on the writer fails, the characters
  before the failure stay written and the error is returned. \<open>print!\<close> and \<open>eprintln!\<close> panic on an
  error instead.
\<close>

definition write_failed :: "io_error \<Rightarrow> string" where
  "write_failed error = ''failed to write output: '' @ err_text error"

definition write_output :: "cli_env \<Rightarrow> string \<Rightarrow> unit cli \<times> string" where
  "write_output ce text =
     (case ce_stdout ce text of
        None \<Rightarrow> (Inr (), text)
      | Some (written_len, error) \<Rightarrow> (Inl (write_failed error), take written_len text))"

definition print_text :: "cli_env \<Rightarrow> string \<Rightarrow> trace \<Rightarrow> (unit cli \<times> string \<times> trace) run" where
  "print_text ce text tr =
     (case ce_stdout ce text of
        None \<Rightarrow> Ret (Inr (), text, tr)
      | Some (_, error) \<Rightarrow> Panic (''failed printing to stdout: '' @ err_text error))"

definition eprint_line :: "cli_env \<Rightarrow> string \<Rightarrow> string run" where
  "eprint_line ce text =
     (let line = text @ newline in
      case ce_stderr ce line of
        None \<Rightarrow> Ret line
      | Some error \<Rightarrow> Panic (''failed printing to stderr: '' @ err_text error))"

definition HELP :: string where
  "HELP = concat (map (\<lambda>line. line @ newline)
     [''mmap-chunker - record-aligned byte-range planning for immutable local files'',
      '''',
      ''Usage:'',
      ''  mmap-chunker partition FILE --parts N [--delimiter-byte B | --delimiter-hex HEX] [--source MODE] [--window BYTES] [--worker K]'',
      ''  mmap-chunker partition-files --parts N [--delimiter-byte B | --delimiter-hex HEX] [--source MODE] [--window BYTES] FILE...'',
      ''  mmap-chunker --help'',
      ''  mmap-chunker --version'',
      '''',
      ''Commands:'',
      ''  partition    Emit record-aligned byte ranges for FILE using one raw delimiter byte.'',
      ''  partition-files'',
      ''                Emit record-aligned worker/source ranges for an ordered logical dataset.'',
      '''',
      ''Options:'',
      ''  --parts N     Request N record-aligned partitions.'',
      ''  --delimiter-byte B'',
      ''                Record delimiter byte in decimal (0..255). Defaults to 10'',
      ''                (LF/newline). Raw byte framing only; no CSV/JSON quoting semantics.'',
      ''                Mutually exclusive with --delimiter-hex. Only valid for `partition`'',
      ''                and `partition-files`.'',
      ''  --delimiter-hex HEX'',
      ''                Record delimiter bytes as an even-length hex string, e.g.'',
      ''                0d0a for CRLF. Mutually exclusive with --delimiter-byte.'',
      ''                Valid for `partition` and `partition-files`.'',
      ''  --source MODE Byte source backend for `partition` and `partition-files`:'',
      ''                mmap (default, full-file mapping), windowed (bounded'',
      ''                moving-window mapping), or pread (positional reads, no'',
      ''                mapping). All backends emit identical ranges; the mode only'',
      ''                changes how bytes are accessed. For `partition-files` the'',
      ''                mode applies to every source; non-mmap modes open each'',
      ''                source on demand and never hold more than one source open.'',
      ''  --window BYTES'',
      ''                Window size in bytes for --source windowed (default 67108864,'',
      ''                minimum 65536). Requires --source windowed.'',
      ''  --worker K    Emit only zero-based worker K's actual partition. K must be'',
      ''                less than --parts. If record-aligned boundaries collapse and'',
      ''                no actual partition K exists, the command succeeds silently.'',
      '''',
      ''Output:'',
      ''  partition:       index<TAB>start<TAB>end_exclusive<TAB>length'',
      ''  partition-files: worker<TAB>source<TAB>start<TAB>end_exclusive<TAB>length'',
      '''',
      ''The delimiter is raw byte framing only; no CSV/JSON quoting semantics.'',
      ''`partition` and `partition-files` accept either `--delimiter-byte` for one'',
      ''byte or `--delimiter-hex` for a multi-byte pattern (e.g. 0d0a for CRLF).'',
      ''Offsets are bytes; starts are inclusive and ends are exclusive. The input file'',
      ''must remain immutable while it is mapped. The actual number of ranges can be'',
      ''lower than N when records span multiple ideal partition positions.'',
      ''partition-files treats each FILE as an independent source in argument order;'',
      ''it never concatenates or remaps files. With `--source windowed` or'',
      ''`--source pread` each source is opened only while its own boundaries are'',
      ''projected, so at most one source is ever held open; lengths are read up'',
      ''front and rechecked on open, and a source whose length changed mid-planning'',
      ''aborts the plan. Its worker rows are ordered by worker,'',
      ''then source, and a worker may contain multiple source ranges. An empty FILE'',
      ''contributes no rows; an all-empty dataset succeeds with empty stdout.''])"

text \<open>The indices a command emits: all, or the one of the requested worker.\<close>

definition selected :: "nat option \<Rightarrow> nat \<Rightarrow> nat list" where
  "selected worker n_chunks =
     (case worker of
        Some index \<Rightarrow> (if index < n_chunks then [index] else [])
      | None \<Rightarrow> [0..<n_chunks])"

text \<open>\<open>MmapChunker::get_chunk\<close> as the slice it returns, with its address.\<close>

definition get_chunk_slice :: "os_env \<Rightarrow> mmap_chunker \<Rightarrow> nat \<Rightarrow> trace \<Rightarrow> (nat \<times> bytes) option run" where
  "get_chunk_slice env c index tr =
     (let data = mmap_as_bytes env tr (mc_mmap c) in
      case range_at (mc_plan c) index (slen data) of
        None \<Rightarrow> Ret None
      | Some (s, e) \<Rightarrow> rmap (\<lambda>chunk. Some (mmap_as_ptr (mc_mmap c) + s, chunk)) (slice_range data s e))"

definition chunk_row :: "os_env \<Rightarrow> mmap_chunker \<Rightarrow> trace \<Rightarrow> nat \<Rightarrow> string run" where
  "chunk_row env c tr index =
     rbind (get_chunk_slice env c index tr) (\<lambda>r.
       case r of
         None \<Rightarrow> Panic ''partition count must match accessible chunks''
       | Some (ptr, chunk) \<Rightarrow>
           let offset = int ptr - int (mmap_as_ptr (mc_mmap c)) in
           if offset < 0 then Panic ''chunk start must not precede mapped bytes''
           else
             let start = nat offset in
             if start + slen chunk > usize_max then Panic ''chunk end must fit in usize''
             else Ret (row [index, start, start + slen chunk, slen chunk]))"

definition emit_indexed_chunks :: "cli_env \<Rightarrow> mmap_chunker \<Rightarrow> nat \<Rightarrow> nat option \<Rightarrow> trace \<Rightarrow> (unit cli \<times> string) run" where
  "emit_indexed_chunks ce c n_chunks worker tr =
     rmap (\<lambda>rows. write_output ce (concat rows))
       (collect_run (map (chunk_row (ce_os ce) c tr) (selected worker n_chunks)))"

subsection \<open>One file\<close>

definition emit_partitions ::
  "cli_env \<Rightarrow> path \<Rightarrow> nat \<Rightarrow> byte \<Rightarrow> nat option \<Rightarrow> trace \<Rightarrow> (unit cli \<times> string \<times> trace) run" where
  "emit_partitions ce path parts delimiter worker tr =
     (case chunker_open (ce_pf ce) (ce_os ce) path tr of
        (Inl e, tr1) \<Rightarrow> Ret (Inl (failed_to_open (ce_os ce) path e), [], tr1)
      | (Inr chunker, tr1) \<Rightarrow>
          rbind (partition_records (ce_pf ce) (ce_os ce) chunker parts delimiter tr1) (\<lambda>(n_chunks, chunker', tr2).
            rmap (\<lambda>(r, out). (r, out, chunker_drop (ce_os ce) chunker' tr2)) (emit_indexed_chunks ce chunker' n_chunks worker tr2)))"

definition emit_partitions_pattern ::
  "cli_env \<Rightarrow> path \<Rightarrow> nat \<Rightarrow> bytes \<Rightarrow> nat option \<Rightarrow> trace \<Rightarrow> (unit cli \<times> string \<times> trace) run" where
  "emit_partitions_pattern ce path parts delimiter worker tr =
     (case chunker_open (ce_pf ce) (ce_os ce) path tr of
        (Inl e, tr1) \<Rightarrow> Ret (Inl (failed_to_open (ce_os ce) path e), [], tr1)
      | (Inr chunker, tr1) \<Rightarrow>
          rbind (partition_records_pattern (ce_pf ce) (ce_os ce) chunker parts delimiter tr1) (\<lambda>(n_chunks, chunker', tr2).
            rmap (\<lambda>(r, out). (r, out, chunker_drop (ce_os ce) chunker' tr2)) (emit_indexed_chunks ce chunker' n_chunks worker tr2)))"

definition emit_partitions_for_delimiter ::
  "cli_env \<Rightarrow> path \<Rightarrow> nat \<Rightarrow> bytes \<Rightarrow> nat option \<Rightarrow> trace \<Rightarrow> (unit cli \<times> string \<times> trace) run" where
  "emit_partitions_for_delimiter ce path parts delimiter worker tr =
     (if slen delimiter = 1
      then rbind (index_at delimiter 0) (\<lambda>d. emit_partitions ce path parts d worker tr)
      else emit_partitions_pattern ce path parts delimiter worker tr)"

definition range_row :: "brange list \<Rightarrow> nat \<Rightarrow> string run" where
  "range_row ranges index =
     rbind (index_at ranges index) (\<lambda>(start, end_pos).
       if end_pos < start then Panic ''attempt to subtract with overflow''
       else Ret (row [index, start, end_pos, end_pos - start]))"

definition failed_to_plan :: "os_env \<Rightarrow> path \<Rightarrow> io_error \<Rightarrow> string" where
  "failed_to_plan env path error = ''failed to plan '' @ env_lossy env path @ '': '' @ err_text error"

definition emit_partitions_sourced ::
  "cli_env \<Rightarrow> path \<Rightarrow> nat \<Rightarrow> bytes \<Rightarrow> nat option \<Rightarrow> planner_options \<Rightarrow> trace \<Rightarrow> (unit cli \<times> string \<times> trace) run" where
  "emit_partitions_sourced ce path parts delimiter worker opts tr =
     rbind (plan_partition_ranges (ce_pf ce) (ce_os ce) (ce_alloc ce) (ce_bptr ce) path parts delimiter opts tr) (\<lambda>(r, tr1).
       case r of
         Inl e \<Rightarrow> Ret (Inl (failed_to_plan (ce_os ce) path e), [], tr1)
       | Inr ranges \<Rightarrow>
           rmap (\<lambda>rows. let (r, out) = write_output ce (concat rows) in (r, out, tr1))
             (collect_run (map (range_row ranges) (selected worker (slen ranges)))))"

definition help_asked :: "string list \<Rightarrow> bool" where
  "help_asked args \<longleftrightarrow> length args = 1 \<and> (hd args = ''--help'' \<or> hd args = ''-h'')"

definition run_partition :: "cli_env \<Rightarrow> string list \<Rightarrow> trace \<Rightarrow> (unit cli \<times> string \<times> trace) run" where
  "run_partition ce args tr =
     (if help_asked args then print_text ce HELP tr
      else rbind (partition_args (ce_os ce) args) (\<lambda>parsed.
        case parsed of
          Inl e \<Rightarrow> Ret (Inl e, [], tr)
        | Inr opts \<Rightarrow>
            (case co_files opts of
               [] \<Rightarrow> Ret (Inl ''missing FILE'', [], tr)
             | path # _ \<Rightarrow>
                 (case co_parts opts of
                    None \<Rightarrow> Ret (Inl ''missing required option `--parts`'', [], tr)
                  | Some parts \<Rightarrow>
                      if (case co_worker opts of Some worker \<Rightarrow> worker \<ge> parts | None \<Rightarrow> False)
                      then Ret (Inl ''`--worker` must be less than `--parts`'', [], tr)
                      else case co_window opts of
                        Some window_bytes \<Rightarrow>
                          if co_source opts \<noteq> Windowed then Ret (Inl ''`--window` requires `--source windowed`'', [], tr)
                          else emit_partitions_sourced ce path parts (co_delimiter opts) (co_worker opts)
                                 (with_window_bytes (planner_new Windowed) window_bytes) tr
                      | None \<Rightarrow>
                          (case co_source opts of
                             Mmap \<Rightarrow> emit_partitions_for_delimiter ce path parts (co_delimiter opts) (co_worker opts) tr
                           | Windowed \<Rightarrow> emit_partitions_sourced ce path parts (co_delimiter opts) (co_worker opts) (planner_new Windowed) tr
                           | Pread \<Rightarrow> emit_partitions_sourced ce path parts (co_delimiter opts) (co_worker opts) (planner_new Pread) tr)))))"

subsection \<open>Several files\<close>

definition assignment_rows :: "worker_assignment \<Rightarrow> string list" where
  "assignment_rows w =
     map (\<lambda>r. row [wa_worker w, sr_source r, sr_start r, sr_end_exclusive r, sr_length r]) (wa_ranges w)"

definition write_assignments :: "cli_env \<Rightarrow> worker_assignment list \<Rightarrow> unit cli \<times> string" where
  "write_assignments ce assignments = write_output ce (concat (concat (map assignment_rows assignments)))"

text \<open>\<open>let assignments = plan(...)?; write_assignments(&assignments)\<close>.\<close>

definition write_planned :: "cli_env \<Rightarrow> worker_assignment list cli \<Rightarrow> unit cli \<times> string" where
  "write_planned ce planned = (case planned of Inl e \<Rightarrow> (Inl e, []) | Inr assignments \<Rightarrow> write_assignments ce assignments)"

text \<open>Dropping a vector drops its elements in order.\<close>

definition drop_sources :: "os_env \<Rightarrow> mmap_chunker list \<Rightarrow> trace \<Rightarrow> trace" where
  "drop_sources env sources tr = fold (chunker_drop env) sources tr"

fun open_sources :: "platform \<Rightarrow> os_env \<Rightarrow> path list \<Rightarrow> mmap_chunker list \<Rightarrow> trace \<Rightarrow> mmap_chunker list cli \<times> trace" where
  "open_sources pf env [] sources tr = (Inr sources, tr)"
| "open_sources pf env (path # paths) sources tr =
     (case chunker_open pf env path tr of
        (Inl e, tr1) \<Rightarrow> (Inl (failed_to_open env path e), drop_sources env sources tr1)
      | (Inr source, tr1) \<Rightarrow> open_sources pf env paths (sources @ [source]) tr1)"

definition emit_file_partitions :: "cli_env \<Rightarrow> path list \<Rightarrow> nat \<Rightarrow> bytes \<Rightarrow> trace \<Rightarrow> (unit cli \<times> string \<times> trace) run" where
  "emit_file_partitions ce paths parts delimiter tr =
     (case open_sources (ce_pf ce) (ce_os ce) paths [] tr of
        (Inl e, tr1) \<Rightarrow> Ret (Inl e, [], tr1)
      | (Inr sources, tr1) \<Rightarrow>
          rmap (\<lambda>r. let (r', out) = write_planned ce r in (r', out, drop_sources (ce_os ce) sources tr1))
            (plan_logical_partitions (ce_os ce) tr1 sources parts delimiter))"

definition emit_file_partitions_sourced ::
  "cli_env \<Rightarrow> path list \<Rightarrow> nat \<Rightarrow> bytes \<Rightarrow> planner_options \<Rightarrow> trace \<Rightarrow> (unit cli \<times> string \<times> trace) run" where
  "emit_file_partitions_sourced ce paths parts delimiter opts tr =
     rmap (\<lambda>(r, tr1). let (r', out) = write_planned ce r in (r', out, tr1))
       (plan_logical_partitions_sourced (ce_pf ce) (ce_os ce) paths parts delimiter opts tr)"

definition run_partition_files :: "cli_env \<Rightarrow> string list \<Rightarrow> trace \<Rightarrow> (unit cli \<times> string \<times> trace) run" where
  "run_partition_files ce args tr =
     (if help_asked args then print_text ce HELP tr
      else rbind (partition_files_args (ce_os ce) args) (\<lambda>parsed.
        case parsed of
          Inl e \<Rightarrow> Ret (Inl e, [], tr)
        | Inr opts \<Rightarrow>
            (case co_parts opts of
               None \<Rightarrow> Ret (Inl ''missing required option `--parts`'', [], tr)
             | Some parts \<Rightarrow>
                 if co_files opts = [] then Ret (Inl ''missing FILE (provide one or more ordered source paths)'', [], tr)
                 else case co_window opts of
                   Some window_bytes \<Rightarrow>
                     if co_source opts \<noteq> Windowed then Ret (Inl ''`--window` requires `--source windowed`'', [], tr)
                     else emit_file_partitions_sourced ce (co_files opts) parts (co_delimiter opts)
                            (with_window_bytes (planner_new Windowed) window_bytes) tr
                 | None \<Rightarrow>
                     (case co_source opts of
                        Mmap \<Rightarrow> emit_file_partitions ce (co_files opts) parts (co_delimiter opts) tr
                      | Windowed \<Rightarrow> emit_file_partitions_sourced ce (co_files opts) parts (co_delimiter opts) (planner_new Windowed) tr
                      | Pread \<Rightarrow> emit_file_partitions_sourced ce (co_files opts) parts (co_delimiter opts) (planner_new Pread) tr))))"

subsection \<open>The program\<close>

definition run_cli :: "cli_env \<Rightarrow> string list \<Rightarrow> trace \<Rightarrow> (unit cli \<times> string \<times> trace) run" where
  "run_cli ce arguments tr =
     (case arguments of
        [] \<Rightarrow> Ret (Inl ''missing command'', [], tr)
      | command # rest \<Rightarrow>
          if rest = [] \<and> (command = ''--help'' \<or> command = ''-h'') then print_text ce HELP tr
          else if rest = [] \<and> (command = ''--version'' \<or> command = ''-V'') then
            print_text ce (''mmap-chunker '' @ ce_version ce @ newline) tr
          else if command = ''partition'' then run_partition ce rest tr
          else if command = ''partition-files'' then run_partition_files ce rest tr
          else Ret (Inl (''unknown command '' @ quoted (env_lossy (ce_os ce) command)), [], tr))"

datatype exit_code = SUCCESS | FAILURE

text \<open>The exit code, standard output and standard error; the first argument, the program, is skipped.\<close>

definition cli_main :: "cli_env \<Rightarrow> string list \<Rightarrow> trace \<Rightarrow> (exit_code \<times> string \<times> string \<times> trace) run" where
  "cli_main ce args tr =
     rbind (run_cli ce (drop 1 args) tr) (\<lambda>(r, out, tr1).
       case r of
         Inr _ \<Rightarrow> Ret (SUCCESS, out, [], tr1)
       | Inl message \<Rightarrow>
           rbind (eprint_line ce (''error: '' @ message)) (\<lambda>line1.
           rbind (eprint_line ce ''Try `mmap-chunker --help` for usage.'') (\<lambda>line2.
             Ret (FAILURE, out, line1 @ line2, tr1))))"

subsection \<open>Rows of a plan\<close>

text \<open>The output for a list of ranges: a row per selected index.\<close>

definition plan_rows :: "brange list \<Rightarrow> nat option \<Rightarrow> string" where
  "plan_rows rs worker =
     concat (map (\<lambda>i. row [i, fst (rs ! i), snd (rs ! i), snd (rs ! i) - fst (rs ! i)]) (selected worker (length rs)))"

lemma selected_less: "i \<in> set (selected worker n) \<Longrightarrow> i < n"
  by (auto simp: selected_def split: option.splits if_splits)

lemma collect_run_map: "(\<And>x. x \<in> set xs \<Longrightarrow> f x = Ret (g x)) \<Longrightarrow> collect_run (map f xs) = Ret (map g xs)"
  by (induction xs) simp_all

text \<open>
  How a command that has \<open>text\<close> to write may end: with success, all of it having been accepted; or
  with an error, either before anything was written, or from standard output, after the first
  characters of the text.
\<close>

definition written :: "cli_env \<Rightarrow> string \<Rightarrow> unit cli \<Rightarrow> string \<Rightarrow> bool" where
  "written ce text r out \<longleftrightarrow>
     (case r of
        Inr _ \<Rightarrow> out = text \<and> ce_stdout ce text = None
      | Inl message \<Rightarrow>
          out = [] \<or> (\<exists>k error. ce_stdout ce text = Some (k, error) \<and> out = take k text \<and> message = write_failed error))"

lemma write_output_written: "write_output ce text = (r, out) \<Longrightarrow> written ce text r out"
  by (auto simp: write_output_def written_def split: option.splits)

lemma written_error [simp]: "written ce text (Inl e) []"
  by (simp add: written_def)

lemma written_prefix: "written ce text r out \<Longrightarrow> out = take (length out) text \<and> (r = Inr u \<longrightarrow> out = text)"
  by (cases r) (auto simp: written_def min_def)

lemma get_chunk_slice_get_chunk: "rmap (map_option snd) (get_chunk_slice env c i tr) = get_chunk env c i tr"
  by (auto simp: get_chunk_slice_def get_chunk_def Let_def slice_range_def split: option.split)

lemma chunk_row_spec:
  assumes inv: "chunker_inv env content c tr" and plan: "mc_plan c = from_ranges rs" and i: "i < length rs"
  shows "chunk_row env c tr i = Ret (row [i, fst (rs ! i), snd (rs ! i), snd (rs ! i) - fst (rs ! i)])"
proof -
  have m: "maps_file env content (mc_mmap c) tr" "plan_ok (length content) (from_ranges rs)"
    using inv plan by (auto simp: chunker_inv_def)
  have ne: "rs \<noteq> []" using i by auto
  then have t: "tiles 0 rs (length content)" using m(2) by (simp add: from_ranges_def)
  obtain s e where se: "rs ! i = (s, e)" by (cases "rs ! i")
  have b: "s < e" "e \<le> length content" using tiles_mem [OF t, of s e] i se by (metis nth_mem)+
  have u: "length content < usize_max" using valid_slice_usize [OF maps_fileD(3) [OF m(1)]] .
  have "slen rs = length rs" using tiles_slen [OF t] u by simp
  then have r: "range_at (mc_plan c) i (slen content) = Some (s, e)" using plan ne i se by (simp add: from_ranges_def)
  have "slen (take (e - s) (drop s content)) = e - s" using b u by (simp add: slen_def as_usize_def max_consts)
  then show ?thesis
    using r b u se maps_fileD(1) [OF m(1)]
    by (simp add: chunk_row_def get_chunk_slice_def Let_def slice_range_def mmap_as_ptr_def)
qed

lemma emit_indexed_spec:
  assumes "chunker_inv env content c tr" "mc_plan c = from_ranges rs" "ce_os ce = env"
  shows "emit_indexed_chunks ce c (plan_len (mc_plan c)) worker tr = Ret (write_output ce (plan_rows rs worker))"
proof -
  have m: "maps_file env content (mc_mmap c) tr" "plan_ok (length content) (from_ranges rs)"
    using assms by (auto simp: chunker_inv_def)
  have u: "length content \<le> usize_max" using valid_slice_usize [OF maps_fileD(3) [OF m(1)]] by simp
  have len: "plan_len (mc_plan c) = length rs"
    using m(2) tiles_slen [OF _ u] assms(2) by (cases "rs = []") (auto simp: from_ranges_def)
  have "collect_run (map (chunk_row env c tr) (selected worker (length rs))) =
      Ret (map (\<lambda>i. row [i, fst (rs ! i), snd (rs ! i), snd (rs ! i) - fst (rs ! i)]) (selected worker (length rs)))"
    using chunk_row_spec [OF assms(1,2)] selected_less by (intro collect_run_map) blast
  then show ?thesis unfolding len by (simp add: emit_indexed_chunks_def assms(3) plan_rows_def)
qed

text \<open>The plan of a file that every way of accessing it has to give.\<close>

definition file_plan :: "(path \<Rightarrow> bytes) \<Rightarrow> path \<Rightarrow> bytes \<Rightarrow> nat \<Rightarrow> brange list" where
  "file_plan files path delimiter parts =
     plan_spec (record_cut delimiter (files path)) (length (files path)) parts"

text \<open>What a command that writes \<open>text\<close> ends with: that text or an error, and no resource kept.\<close>

definition ends_with :: "cli_env \<Rightarrow> resources \<Rightarrow> resources \<Rightarrow> string \<Rightarrow> (unit cli \<times> string \<times> trace) run \<Rightarrow> bool" where
  "ends_with ce R0 R text m \<longleftrightarrow>
     (\<exists>r out tr'. m = Ret (r, out, tr') \<and> run_res tr' R0 = Some R \<and> written ce text r out)"

lemma ends_withI:
  "m = Ret (r, out, tr') \<Longrightarrow> run_res tr' R0 = Some R \<Longrightarrow> written ce text r out \<Longrightarrow> ends_with ce R0 R text m"
  by (auto simp: ends_with_def)

lemma chunker_open_unpinned: "chunker_open pf env path tr = (Inr c, tr') \<Longrightarrow> mc_pinned c = None"
  by (auto simp: chunker_open_def split: prod.splits sum.splits)

text \<open>
  A command that opens one file: it fails when opening fails, and otherwise ends with the outcome
  of writing its text.
\<close>

definition opens_then :: "cli_env \<Rightarrow> resources \<Rightarrow> resources \<Rightarrow> path \<Rightarrow> trace \<Rightarrow> string \<Rightarrow> (unit cli \<times> string \<times> trace) run \<Rightarrow> bool" where
  "opens_then ce R0 R path tr text m \<longleftrightarrow>
     (\<exists>r out tr'. m = Ret (r, out, tr') \<and> run_res tr' R0 = Some R \<and>
        (r, out) = (case fst (chunker_open (ce_pf ce) (ce_os ce) path tr) of
                      Inl e \<Rightarrow> (Inl (failed_to_open (ce_os ce) path e), [])
                    | Inr c \<Rightarrow> write_output ce text))"

lemma opens_then_ends: "opens_then ce R0 R path tr text m \<Longrightarrow> ends_with ce R0 R text m"
  by (auto simp: opens_then_def split: sum.splits intro!: ends_withI dest!: write_output_written [OF sym])

lemma emit_mapped_spec:
  assumes c: "os_contract (ce_os ce) files" "env_trace (ce_os ce) tr" and R: "run_res tr R0 = Some R"
    and op: "op_ok op" "op_panic (files path) op = None"
      "op_layout (files path) op = from_ranges (file_plan files path p n)"
  shows "opens_then ce R0 R path tr (plan_rows (file_plan files path p n) worker)
     (case chunker_open (ce_pf ce) (ce_os ce) path tr of
        (Inl e, tr1) \<Rightarrow> Ret (Inl (failed_to_open (ce_os ce) path e), [], tr1)
      | (Inr chunker, tr1) \<Rightarrow>
          rbind (run_op (ce_pf ce) (ce_os ce) chunker op tr1) (\<lambda>(k, chunker', tr2).
            rmap (\<lambda>(r, out). (r, out, chunker_drop (ce_os ce) chunker' tr2)) (emit_indexed_chunks ce chunker' k worker tr2)))"
proof -
  let ?env = "ce_os ce" and ?pf = "ce_pf ce"
  obtain r1 t1 where o: "chunker_open ?pf ?env path tr = (r1, t1)" by force
  note res = chunker_open_res [OF R disjI1 [OF o]]
  show ?thesis
  proof (cases r1)
    case (Inl e)
    with o res show ?thesis by (simp add: opens_then_def)
  next
    case (Inr ch)
    have inv: "chunker_inv ?env (files path) ch t1" using open_inv(1) [OF c] o Inr by blast
    have pin: "check_pinned ?pf ?env ch t1 = (True, ch, t1)"
      using chunker_open_unpinned o Inr by (simp add: check_pinned_def)
    let ?ch = "ch\<lparr>mc_plan := op_layout (files path) op\<rparr>"
    have run: "run_op ?pf ?env ch op t1 = Ret (plan_len (op_layout (files path) op), ?ch, t1)"
      using run_op_inv [OF inv op(1) pin] op(2) by simp
    have inv': "chunker_inv ?env (files path) ?ch t1" using run_op_keeps_inv [OF inv op(1) run] by simp
    have "file_shape (mc_mmap ch)" using inv by (auto simp: chunker_inv_def maps_file_def)
    then have drop: "run_res (chunker_drop ?env ?ch t1) R0 = Some R"
      using drop_res res Inr by (simp add: chunker_drop_def)
    have "emit_indexed_chunks ce ?ch (plan_len (op_layout (files path) op)) worker t1 =
        Ret (write_output ce (plan_rows (file_plan files path p n) worker))"
      using emit_indexed_spec [OF inv', of "file_plan files path p n" ce worker] op(3) by simp
    with o Inr run drop show ?thesis by (auto simp: opens_then_def split: prod.splits)
  qed
qed

lemma emit_for_delimiter_spec:
  assumes "os_contract (ce_os ce) files" "env_trace (ce_os ce) tr" "run_res tr R0 = Some R" "valid_slice p" "p \<noteq> []" "n \<le> usize_max"
  shows "opens_then ce R0 R path tr (plan_rows (file_plan files path p n) worker) (emit_partitions_for_delimiter ce path n p worker tr)"
proof (cases "length p = 1")
  case True
  then obtain d where d: "p = [d]" by (auto simp: length_Suc_conv)
  have "slen [d] = 1" by (simp add: slen_def as_usize_def)
  with emit_mapped_spec [OF assms(1-3), of "PartitionRecords n d" path p n worker, unfolded run_op.simps] assms(6) d show ?thesis
    by (simp add: emit_partitions_for_delimiter_def emit_partitions_def index_at_def file_plan_def)
next
  case False
  with emit_mapped_spec [OF assms(1-3), of "PartitionPattern n p" path p n worker, unfolded run_op.simps] assms(4-6) show ?thesis
    by (simp add: emit_partitions_for_delimiter_def emit_partitions_pattern_def file_plan_def)
qed

lemma emit_sourced_spec:
  assumes "os_contract (ce_os ce) files" "env_trace (ce_os ce) tr" "run_res tr R0 = Some R" "valid_slice p" "p \<noteq> []"
    "0 < n" "length (files path) \<le> usize_max"
  shows "ends_with ce R0 R (plan_rows (file_plan files path p n) worker) (emit_partitions_sourced ce path n p worker opts tr)"
proof -
  let ?rs = "file_plan files path p n"
  obtain r tr' where r: "plan_partition_ranges (ce_pf ce) (ce_os ce) (ce_alloc ce) (ce_bptr ce) path n p opts tr = Ret (r, tr')"
    "run_res tr' R0 = Some R" "\<And>rs. r = Inr rs \<Longrightarrow> rs = ?rs"
    using plan_partition_ranges_spec [OF assms(1-5), of "ce_pf ce" "ce_alloc ce" "ce_bptr ce" path n opts]
    unfolding file_plan_def plan_spec_min by blast
  have t: "tiles 0 ?rs (length (files path))" unfolding file_plan_def by (rule rec.plan_spec_tiles [OF assms(6)])
  have len: "slen ?rs = length ?rs" by (rule tiles_slen [OF t assms(7)])
  have "range_row ?rs i = Ret (row [i, fst (?rs ! i), snd (?rs ! i), snd (?rs ! i) - fst (?rs ! i)])" if "i < length ?rs" for i
    using tiles_mem [OF t, of "fst (?rs ! i)" "snd (?rs ! i)"] that
    by (cases "?rs ! i") (auto simp: range_row_def index_at_def dest: nth_mem)
  then have rows: "collect_run (map (range_row ?rs) (selected worker (slen ?rs))) =
      Ret (map (\<lambda>i. row [i, fst (?rs ! i), snd (?rs ! i), snd (?rs ! i) - fst (?rs ! i)]) (selected worker (length ?rs)))"
    unfolding len using selected_less by (intro collect_run_map) blast
  show ?thesis
  proof (cases r)
    case (Inl e)
    with r show ?thesis by (auto simp: emit_partitions_sourced_def intro!: ends_withI)
  next
    case (Inr rs)
    obtain q out where w: "write_output ce (plan_rows ?rs worker) = (q, out)" by force
    have "emit_partitions_sourced ce path n p worker opts tr = Ret (q, out, tr')"
      using r(1) r(3) [OF Inr] Inr rows w by (simp add: emit_partitions_sourced_def plan_rows_def del: row.simps)
    then show ?thesis using r(2) write_output_written [OF w] by (rule ends_withI)
  qed
qed

subsection \<open>Several mapped files\<close>

definition held_files :: "mmap_chunker list \<Rightarrow> resources \<Rightarrow> resources" where
  "held_files sources R = fold (\<lambda>c. file_res (mc_mmap c)) sources R"

definition live_pointers :: "mmap_chunker list \<Rightarrow> nat list" where
  "live_pointers sources = map (\<lambda>c. mf_ptr (mc_mmap c)) (filter (\<lambda>c. mf_size (mc_mmap c) \<noteq> 0) sources)"

definition opened_ok :: "os_env \<Rightarrow> (path \<Rightarrow> bytes) \<Rightarrow> path list \<Rightarrow> mmap_chunker list \<Rightarrow> trace \<Rightarrow> bool" where
  "opened_ok env files paths sources tr \<longleftrightarrow>
     env_trace env tr \<and> distinct (live_pointers sources) \<and>
     list_all2 (\<lambda>p c. file_live env (files p) (mc_mmap c) tr \<and> file_shape (mc_mmap c)) paths sources"

lemma held_files_same: "res_same R S \<Longrightarrow> res_same (held_files cs R) (held_files cs S)"
  by (induction cs arbitrary: R S) (simp_all add: held_files_def file_res_same)

lemma held_files_swap: "res_same (held_files cs (file_res f R)) (file_res f (held_files cs R))"
proof (induction cs arbitrary: R)
  case (Cons c cs)
  have "res_same (held_files cs (file_res (mc_mmap c) (file_res f R))) (held_files cs (file_res f (file_res (mc_mmap c) R)))"
    by (intro held_files_same file_res_swap)
  with Cons [of "file_res (mc_mmap c) R"] show ?case by (simp add: held_files_def res_same_def)
qed (simp add: held_files_def)

lemma held_files_pointers:
  "fst ` set (res_maps (held_files cs R)) \<subseteq> set (live_pointers cs) \<union> fst ` set (res_maps R)"
proof (induction cs arbitrary: R)
  case (Cons c cs)
  have step: "fst ` set (res_maps (file_res (mc_mmap c) R)) \<subseteq> set (live_pointers [c]) \<union> fst ` set (res_maps R)"
    by (auto simp: file_res_def res_map_def res_open_def live_pointers_def split: os_handles.splits)
  have sub: "A \<subseteq> B \<union> C \<Longrightarrow> C \<subseteq> D \<union> E \<Longrightarrow> A \<subseteq> (D \<union> B) \<union> E" for A B C D E :: "nat set" by blast
  have eqs: "set (live_pointers (c # cs)) = set (live_pointers [c]) \<union> set (live_pointers cs)"
    "held_files (c # cs) R = held_files cs (file_res (mc_mmap c) R)" by (auto simp: live_pointers_def held_files_def)
  show ?case unfolding eqs by (rule sub [OF Cons step])
qed (simp add: held_files_def)

lemma drop_sources_spec:
  assumes "run_res tr R0 = Some S" "res_same S (held_files cs R)" "\<forall>c\<in>set cs. file_shape (mc_mmap c)"
    "distinct (live_pointers cs)" "res_maps R = []"
  shows "\<exists>S'. run_res (drop_sources env cs tr) R0 = Some S' \<and> res_same S' R"
  using assms
proof (induction cs arbitrary: tr S)
  case Nil
  then show ?case by (simp add: drop_sources_def held_files_def)
next
  case (Cons c cs)
  have same: "res_same S (file_res (mc_mmap c) (held_files cs R))"
    using Cons.prems(2) held_files_swap [of cs "mc_mmap c" R] by (auto simp: held_files_def intro: res_same_trans)
  have "mf_ptr (mc_mmap c) \<notin> fst ` set (res_maps (held_files cs R))" if "mf_size (mc_mmap c) \<noteq> 0"
    using held_files_pointers [of cs R] Cons.prems(4,5) that by (auto simp: live_pointers_def)
  then obtain S' where "run_res (chunker_drop env c tr) R0 = Some S'" "res_same S' (held_files cs R)"
    using drop_any_res [OF _ Cons.prems(1) same, of env] Cons.prems(3) by (auto simp: chunker_drop_def)
  moreover have "distinct (live_pointers cs)" using Cons.prems(4) by (auto simp: live_pointers_def split: if_splits)
  ultimately show ?case using Cons.IH [of "chunker_drop env c tr" S'] Cons.prems(3,5) by (simp add: drop_sources_def)
qed

lemma chunker_open_step:
  assumes c: "os_contract env files" and ok: "opened_ok env files paths sources tr"
    and o: "chunker_open pf env path tr = (Inr ch, tr')"
  shows "opened_ok env files (paths @ [path]) (sources @ [ch]) tr'"
proof -
  have t: "env_trace env tr" and live: "list_all2 (\<lambda>p c. file_live env (files p) (mc_mmap c) tr \<and> file_shape (mc_mmap c)) paths sources"
    and dist: "distinct (live_pointers sources)" using ok by (simp_all add: opened_ok_def)
  have m: "mmap_open_path pf env path tr = (Inr (mc_mmap ch), tr')" using o by (auto simp: chunker_open_def split: prod.splits sum.splits)
  have last: "maps_last env tr (Some (mc_mmap ch)) tr'" using mmap_open_path_last [OF m] by simp
  then have q: "quiet tr tr'" by (simp add: maps_last_def)
  have t': "env_trace env tr'" using mmap_open_path_env_trace [OF m] t by simp
  note new = mmap_open_path_live [OF c t m]
  have all_live: "\<forall>g\<in>set sources. \<exists>p. file_live env (files p) (mc_mmap g) tr"
    using live by (induction rule: list_all2_induct) auto
  have fresh: "mf_ptr (mc_mmap ch) \<notin> set (live_pointers sources)" if sz: "mf_size (mc_mmap ch) \<noteq> 0"
  proof
    assume "mf_ptr (mc_mmap ch) \<in> set (live_pointers sources)"
    then obtain g where g: "g \<in> set sources" "mf_size (mc_mmap g) \<noteq> 0" "mf_ptr (mc_mmap ch) = mf_ptr (mc_mmap g)"
      by (auto simp: live_pointers_def)
    obtain p where "file_live env (files p) (mc_mmap g) tr" using all_live g(1) by blast
    moreover have "mf_ptr (mc_mmap ch) \<noteq> 0" using new sz by (auto simp: file_shape_def)
    ultimately show False using fresh_pointer [OF c t' last sz _ _ g(2)] g(3) by blast
  qed
  have "list_all2 (\<lambda>p c. file_live env (files p) (mc_mmap c) tr' \<and> file_shape (mc_mmap c)) paths sources"
    using live by (rule list_all2_mono) (use quiet_live [OF q] in blast)
  with t' new dist fresh show ?thesis by (auto simp: opened_ok_def live_pointers_def intro!: list_all2_appendI)
qed

lemma open_sources_spec:
  assumes c: "os_contract env files" and R: "res_maps R = []"
    and ok: "opened_ok env files paths0 sources tr" "run_res tr R0 = Some (held_files sources R)"
    and o: "open_sources pf env paths sources tr = (r, tr')"
  shows "case r of
       Inl e \<Rightarrow> \<exists>S. run_res tr' R0 = Some S \<and> res_same S R
     | Inr srcs \<Rightarrow> opened_ok env files (paths0 @ paths) srcs tr' \<and> run_res tr' R0 = Some (held_files srcs R)"
  using ok o
proof (induction paths arbitrary: paths0 sources tr)
  case (Cons path paths)
  obtain r1 t1 where p: "chunker_open pf env path tr = (r1, t1)" by force
  note res = chunker_open_res [OF Cons.prems(2) disjI1 [OF p]]
  show ?case
  proof (cases r1)
    case (Inl e)
    have "\<forall>c\<in>set sources. file_shape (mc_mmap c)" "distinct (live_pointers sources)"
      using Cons.prems(1) by (auto simp: opened_ok_def list_all2_conv_all_nth in_set_conv_nth)
    with drop_sources_spec [of t1 R0 "held_files sources R" sources R env] res Inl R p Cons.prems(3) show ?thesis by auto
  next
    case (Inr ch)
    have "opened_ok env files (paths0 @ [path]) (sources @ [ch]) t1"
      using chunker_open_step [OF c Cons.prems(1)] p Inr by blast
    moreover have "run_res t1 R0 = Some (held_files (sources @ [ch]) R)" using res Inr by (simp add: held_files_def)
    moreover have "open_sources pf env paths (sources @ [ch]) t1 = (r, tr')" using p Inr Cons.prems(3) by simp
    ultimately show ?thesis using Cons.IH [of "paths0 @ [path]" "sources @ [ch]" t1] by (cases r) simp_all
  qed
qed auto

text \<open>The assignment that every way of accessing the files has to give.\<close>

definition files_plan :: "(path \<Rightarrow> bytes) \<Rightarrow> path list \<Rightarrow> bytes \<Rightarrow> nat \<Rightarrow> worker_assignment list" where
  "files_plan files paths delimiter parts =
     workers (map files paths) 0 (plan_spec (lcut delimiter (map files paths)) (logical_len (map files paths)) parts)"

definition assignments_text :: "worker_assignment list \<Rightarrow> string" where
  "assignments_text ws = concat (concat (map assignment_rows ws))"

lemma write_planned_written: "write_planned ce (Inr ws) = (r, out) \<Longrightarrow> written ce (assignments_text ws) r out"
  by (simp add: write_planned_def write_assignments_def assignments_text_def write_output_written)

lemma write_planned_Inl [simp]: "write_planned ce (Inl e) = (Inl e, [])"
  by (simp add: write_planned_def)

lemma res_same_none: "res_same S no_resources \<Longrightarrow> S = no_resources"
  by (cases S) (simp add: res_same_def no_resources_def)

lemma opened_show:
  assumes "opened_ok env files paths sources tr" "logical_len (map files paths) \<le> usize_max"
  shows "sources_show env tr sources (map files paths)"
proof -
  have n: "length sources = length paths"
    and i: "\<And>i. i < length paths \<Longrightarrow> file_live env (files (paths ! i)) (mc_mmap (sources ! i)) tr"
    and t: "env_trace env tr" using assms(1) by (auto simp: opened_ok_def list_all2_conv_all_nth)
  have "map (\<lambda>c. chunker_as_bytes env c tr) sources = map files paths"
    using n file_live_bytes [OF i t] by (intro nth_equalityI) (simp_all add: chunker_as_bytes_def)
  moreover have "map chunker_len sources = map length (map files paths)"
    using n i by (intro nth_equalityI) (simp_all add: chunker_len_def mmap_len_def file_live_def)
  moreover have "\<forall>c\<in>set (map files paths). valid_slice c"
    using i by (auto simp: file_live_def in_set_conv_nth)
  ultimately show ?thesis using assms(2) by (simp add: sources_show_def)
qed

text \<open>
  The command over several mapped files: it fails when opening one of them fails, and otherwise
  ends with the outcome of writing its text.
\<close>

definition opens_all_then :: "cli_env \<Rightarrow> path list \<Rightarrow> trace \<Rightarrow> string \<Rightarrow> (unit cli \<times> string \<times> trace) run \<Rightarrow> bool" where
  "opens_all_then ce paths tr text m \<longleftrightarrow>
     (\<exists>r out tr'. m = Ret (r, out, tr') \<and> run_res tr' no_resources = Some no_resources \<and>
        (r, out) = (case fst (open_sources (ce_pf ce) (ce_os ce) paths [] tr) of
                      Inl e \<Rightarrow> (Inl e, [])
                    | Inr sources \<Rightarrow> write_output ce text))"

lemma opens_all_then_ends: "opens_all_then ce paths tr text m \<Longrightarrow> ends_with ce no_resources no_resources text m"
  by (auto simp: opens_all_then_def split: sum.splits intro!: ends_withI dest!: write_output_written [OF sym])

lemma emit_file_partitions_spec:
  assumes c: "os_contract (ce_os ce) files" "env_trace (ce_os ce) tr" and R: "run_res tr no_resources = Some no_resources"
    and p: "valid_slice p" "p \<noteq> []" and n: "0 < n" "n \<le> usize_max" and len: "logical_len (map files paths) \<le> usize_max"
  shows "opens_all_then ce paths tr (assignments_text (files_plan files paths p n)) (emit_file_partitions ce paths n p tr)"
proof -
  obtain r t1 where o: "open_sources (ce_pf ce) (ce_os ce) paths [] tr = (r, t1)" by force
  have "opened_ok (ce_os ce) files [] [] tr" "run_res tr no_resources = Some (held_files [] no_resources)"
    using c R by (simp_all add: opened_ok_def live_pointers_def held_files_def)
  note os = open_sources_spec [OF c(1) _ this o]
  show ?thesis
  proof (cases r)
    case (Inl e)
    with os res_same_none o show ?thesis by (auto simp: emit_file_partitions_def opens_all_then_def no_resources_def)
  next
    case (Inr srcs)
    then have ok: "opened_ok (ce_os ce) files paths srcs t1" and res: "run_res t1 no_resources = Some (held_files srcs no_resources)"
      using os by (simp_all add: no_resources_def)
    have plan: "plan_logical_partitions (ce_os ce) t1 srcs n p = Ret (Inr (files_plan files paths p n))"
      unfolding files_plan_def by (rule plan_logical_spec [OF opened_show [OF ok len] p n])
    have "\<forall>c\<in>set srcs. file_shape (mc_mmap c)" "distinct (live_pointers srcs)"
      using ok by (auto simp: opened_ok_def list_all2_conv_all_nth in_set_conv_nth)
    then have "run_res (drop_sources (ce_os ce) srcs t1) no_resources = Some no_resources"
      using drop_sources_spec [OF res res_same_refl] res_same_none by (fastforce simp: no_resources_def)
    with o Inr plan show ?thesis
      by (auto simp: emit_file_partitions_def opens_all_then_def write_planned_def write_assignments_def assignments_text_def split: prod.splits)
  qed
qed

lemma emit_file_partitions_sourced_spec:
  assumes "os_contract (ce_os ce) files" "stat_ok (ce_os ce) files" "env_trace (ce_os ce) tr" "run_res tr R0 = Some R"
    "valid_slice p" "p \<noteq> []" "0 < n" "n \<le> usize_max" "logical_len (map files paths) \<le> usize_max" "po_scan_buffer_bytes opts \<le> isize_max"
  shows "ends_with ce R0 R (assignments_text (files_plan files paths p n)) (emit_file_partitions_sourced ce paths n p opts tr)"
proof -
  obtain r tr' where r: "plan_logical_partitions_sourced (ce_pf ce) (ce_os ce) paths n p opts tr = Ret (r, tr')"
    "run_res tr' R0 = Some R" "\<And>ws. r = Inr ws \<Longrightarrow> ws = files_plan files paths p n"
    using plan_sourced_spec [OF assms, of "ce_pf ce"] unfolding files_plan_def by blast
  then show ?thesis
    by (cases r) (auto simp: emit_file_partitions_sourced_def intro!: ends_withI dest: write_planned_written split: prod.splits)
qed

end
