(* ===== verification/Cli_Run.thy ===== *)
theory Cli_Run
  imports Cli
begin

section \<open>What the program does from end to end\<close>

text \<open>
  The behaviour of the commands of \<open>src/src/bin/mmap-chunker.rs\<close> over immutable files: the rows of
  each command, and the safety of the whole program for arbitrary arguments.
\<close>

subsection \<open>Arguments carry over to options\<close>

definition files_weight :: "(path \<Rightarrow> bytes) \<Rightarrow> path list \<Rightarrow> nat" where
  "files_weight files paths = sum_list (map (\<lambda>p. length (files p)) paths)"

lemma files_weight_simps [simp]:
  "files_weight files [] = 0" "files_weight files (p # ps) = length (files p) + files_weight files ps"
  "files_weight files (ps @ qs) = files_weight files ps + files_weight files qs"
  by (simp_all add: files_weight_def)

lemma files_weight_logical: "logical_len (map files paths) = files_weight files paths"
  by (simp add: logical_len_def files_weight_def comp_def)

lemma files_weight_le: "p \<in> set paths \<Longrightarrow> length (files p) \<le> files_weight files paths"
  by (induction paths) auto

text \<open>What one argument may do: the delimiter stays addressable, and a file is the argument itself.\<close>

definition carries :: "(path \<Rightarrow> bytes) \<Rightarrow> nat \<Rightarrow> cli_opts \<Rightarrow> bool" where
  "carries files w opts \<longleftrightarrow> valid_slice (co_delimiter opts) \<and> files_weight files (co_files opts) \<le> w"

lemma args_step_carries:
  assumes "carries files w opts" "\<forall>a\<in>set rest. valid_slice a"
    "args_step env multi arg rest opts = Ret (Inr (opts', rest'))"
  shows "carries files (w + length (files arg)) opts' \<and> (rest' = rest \<or> (\<exists>v. rest = v # rest'))"
proof -
  obtain s where s: "opts' = apply_setting opts s" "said_by s arg rest rest'" using args_step_is_setting [OF assms(3)] by blast
  have "valid_slice d" if "rest = v # rest'" "2 * length d = length v" for v and d :: bytes
    using assms(2) that by (auto simp: valid_slice_def)
  moreover have "valid_slice [d :: byte]" for d by (simp add: valid_slice_def max_consts)
  ultimately show ?thesis using assms(1) s by (cases s) (auto simp: carries_def said_by_def)
qed

lemma args_loop_carries:
  assumes "\<forall>a\<in>set args. valid_slice a" "carries files w opts" "args_loop env multi args opts = Ret (Inr opts')"
  shows "carries files (w + files_weight files args) opts'"
  using assms
proof (induction env multi args opts arbitrary: w rule: args_loop.induct)
  case (2 env multi arg rest opts)
  obtain opts1 rest1 where step: "args_step env multi arg rest opts = Ret (Inr (opts1, rest1))"
    and loop: "args_loop env multi rest1 opts1 = Ret (Inr opts')"
    using 2(4) by (auto simp: rcbind_Ret_Inr)
  have c: "carries files (w + length (files arg)) opts1" "rest1 = rest \<or> (\<exists>v. rest = v # rest1)"
    using args_step_carries [OF 2(3) _ step] 2(2) by auto
  have v: "\<forall>a\<in>set rest1. valid_slice a" "files_weight files rest1 \<le> files_weight files rest" using 2(2) c(2) by auto
  have "carries files (w + length (files arg) + files_weight files rest1) opts'"
    by (rule 2(1) [OF step refl v(1) c(1) loop])
  with v(2) show ?case by (auto simp: carries_def)
qed simp

lemma parsed_opts:
  assumes "\<forall>a\<in>set args. valid_slice a" "args_loop env multi args opts_default = Ret (Inr opts)"
  shows "opts_ok multi opts" "valid_slice (co_delimiter opts)" "co_delimiter opts \<noteq> []"
    "files_weight files (co_files opts) \<le> files_weight files args"
proof -
  have "carries files 0 opts_default" by (simp add: carries_def opts_default_def valid_slice_def max_consts)
  from args_loop_carries [OF assms(1) this assms(2)]
  show "valid_slice (co_delimiter opts)" "files_weight files (co_files opts) \<le> files_weight files args" by (simp_all add: carries_def)
  show ok: "opts_ok multi opts" using args_loop_total [OF opts_ok_default, of env multi args] assms(2) by auto
  then show "co_delimiter opts \<noteq> []" by (simp add: opts_ok_def)
qed

subsection \<open>The commands\<close>

lemma planner_buffers:
  "po_scan_buffer_bytes (planner_new m) \<le> isize_max" "po_scan_buffer_bytes (with_window_bytes (planner_new m) n) \<le> isize_max"
  by (simp_all add: planner_new_def planner_default_def with_window_bytes_def DEFAULT_SCAN_BUFFER_BYTES_def max_consts)

text \<open>The options with which \<open>partition\<close> plans.\<close>

definition partition_runs :: "cli_opts \<Rightarrow> path \<Rightarrow> nat \<Rightarrow> bool" where
  "partition_runs opts path parts \<longleftrightarrow>
     co_files opts = [path] \<and> co_parts opts = Some parts \<and> (\<forall>k. co_worker opts = Some k \<longrightarrow> k < parts) \<and>
     (co_window opts \<noteq> None \<longrightarrow> co_source opts = Windowed)"

lemma run_partition_plans:
  assumes c: "os_contract (ce_os ce) files" "env_trace (ce_os ce) tr" and R: "run_res tr R0 = Some R"
    and a: "\<forall>a\<in>set args. valid_slice a" "files_weight files args \<le> usize_max" "\<not> help_asked args"
      "partition_args (ce_os ce) args = Ret (Inr opts)" and runs: "partition_runs opts path parts"
  shows "ends_with ce R0 R (plan_rows (file_plan files path (co_delimiter opts) parts) (co_worker opts)) (run_partition ce args tr)"
    "co_source opts = Mmap \<Longrightarrow>
       opens_then ce R0 R path tr (plan_rows (file_plan files path (co_delimiter opts) parts) (co_worker opts)) (run_partition ce args tr)"
proof -
  note po = parsed_opts(1-3) [OF a(1) a(4) [unfolded partition_args_def]] parsed_opts(4) [OF a(1) a(4) [unfolded partition_args_def], of files]
  have parts: "0 < parts" "parts \<le> usize_max" and len: "length (files path) \<le> usize_max"
    using po(1,4) runs a(2) by (auto simp: opts_ok_def partition_runs_def)
  have k: "\<not> (case co_worker opts of Some worker \<Rightarrow> worker \<ge> parts | None \<Rightarrow> False)"
    using runs by (auto simp: partition_runs_def split: option.split)
  let ?d = "co_delimiter opts" and ?w = "co_worker opts"
  have eq: "run_partition ce args tr =
      (case co_window opts of
         Some window_bytes \<Rightarrow> emit_partitions_sourced ce path parts ?d ?w (with_window_bytes (planner_new Windowed) window_bytes) tr
       | None \<Rightarrow>
           (case co_source opts of
              Mmap \<Rightarrow> emit_partitions_for_delimiter ce path parts ?d ?w tr
            | Windowed \<Rightarrow> emit_partitions_sourced ce path parts ?d ?w (planner_new Windowed) tr
            | Pread \<Rightarrow> emit_partitions_sourced ce path parts ?d ?w (planner_new Pread) tr))"
    using a(3,4) runs k by (auto simp: run_partition_def partition_runs_def split: option.splits)
  note m = emit_for_delimiter_spec [OF c R po(2,3) parts(2), of path ?w]
  note src = emit_sourced_spec [OF c R po(2,3) parts(1) len]
  show "ends_with ce R0 R (plan_rows (file_plan files path ?d parts) ?w) (run_partition ce args tr)"
    unfolding eq using src opens_then_ends [OF m] by (auto split: option.split source_mode.split)
  assume "co_source opts = Mmap"
  moreover from this runs have "co_window opts = None" by (auto simp: partition_runs_def)
  ultimately show "opens_then ce R0 R path tr (plan_rows (file_plan files path ?d parts) ?w) (run_partition ce args tr)"
    unfolding eq using m by simp
qed

text \<open>
  How a command ends that has the text \<open>planned\<close> to write, if any: a panic only comes from
  \<open>print!\<close>, and an error when there is nothing to write, or from writing.
\<close>

definition version_text :: "cli_env \<Rightarrow> string" where
  "version_text ce = ''mmap-chunker '' @ ce_version ce @ newline"

definition print_panics :: "cli_env \<Rightarrow> string option \<Rightarrow> string \<Rightarrow> bool" where
  "print_panics ce planned msg \<longleftrightarrow>
     (\<exists>text k error. planned = Some text \<and> text \<in> {HELP, version_text ce} \<and> ce_stdout ce text = Some (k, error) \<and>
        msg = ''failed printing to stdout: '' @ err_text error)"

definition command_ends :: "cli_env \<Rightarrow> resources \<Rightarrow> resources \<Rightarrow> string option \<Rightarrow> (unit cli \<times> string \<times> trace) run \<Rightarrow> bool" where
  "command_ends ce R0 R planned m \<longleftrightarrow>
     (case m of
        Panic msg \<Rightarrow> print_panics ce planned msg
      | Ret (r, out, tr') \<Rightarrow>
          run_res tr' R0 = Some R \<and>
          (case planned of None \<Rightarrow> r \<noteq> Inr () \<and> out = [] | Some text \<Rightarrow> written ce text r out))"

lemma command_ends_error: "run_res tr R0 = Some R \<Longrightarrow> command_ends ce R0 R None (Ret (Inl e, [], tr))"
  by (simp add: command_ends_def)

lemma ends_with_command: "ends_with ce R0 R text m \<Longrightarrow> command_ends ce R0 R (Some text) m"
  by (auto simp: ends_with_def command_ends_def)

lemma print_text_ends:
  assumes "run_res tr R0 = Some R" "text \<in> {HELP, version_text ce}"
  shows "command_ends ce R0 R (Some text) (print_text ce text tr)"
  using assms by (auto simp: print_text_def command_ends_def print_panics_def written_def split: option.split)

text \<open>What \<open>partition\<close> has to write, for its arguments and the contents of the files.\<close>

definition partition_text :: "cli_env \<Rightarrow> (path \<Rightarrow> bytes) \<Rightarrow> string list \<Rightarrow> string option" where
  "partition_text ce files args =
     (if help_asked args then Some HELP
      else case partition_args (ce_os ce) args of
        Ret (Inr opts) \<Rightarrow>
          (case (co_files opts, co_parts opts) of
             ([path], Some parts) \<Rightarrow>
               (if partition_runs opts path parts
                then Some (plan_rows (file_plan files path (co_delimiter opts) parts) (co_worker opts)) else None)
           | _ \<Rightarrow> None)
      | _ \<Rightarrow> None)"

lemma run_partition_ends:
  assumes "os_contract (ce_os ce) files" "env_trace (ce_os ce) tr" "run_res tr R0 = Some R"
    "\<forall>a\<in>set args. valid_slice a" "files_weight files args \<le> usize_max"
  shows "command_ends ce R0 R (partition_text ce files args) (run_partition ce args tr)"
proof (cases "help_asked args")
  case True
  with assms(3) show ?thesis by (simp add: run_partition_def partition_text_def print_text_ends)
next
  case False
  obtain q where q: "partition_args (ce_os ce) args = Ret q"
    using args_loop_total [OF opts_ok_default] unfolding partition_args_def by blast
  show ?thesis
  proof (cases "\<exists>opts path parts. q = Inr opts \<and> partition_runs opts path parts")
    case True
    then obtain opts path parts where o: "q = Inr opts" "partition_runs opts path parts" by blast
    then have "partition_text ce files args = Some (plan_rows (file_plan files path (co_delimiter opts) parts) (co_worker opts))"
      using q False by (simp add: partition_text_def partition_runs_def)
    then show ?thesis
      using ends_with_command [OF run_partition_plans(1) [OF assms(1-5) False _ o(2)]] q o(1) by simp
  next
    case no: False
    have one: "length (co_files opts) \<le> 1" if "q = Inr opts" for opts
      using parsed_opts(1) [OF assms(4), of "ce_os ce" False opts] q that by (simp add: partition_args_def opts_ok_def)
    have "partition_text ce files args = None"
      using q no False by (auto simp: partition_text_def split: sum.splits list.splits option.splits)
    moreover have "\<exists>e. run_partition ce args tr = Ret (Inl e, [], tr)"
    proof (cases q)
      case (Inl e)
      with q False show ?thesis by (simp add: run_partition_def)
    next
      case (Inr opts)
      show ?thesis
      proof (cases "co_files opts")
        case Nil
        with Inr q False show ?thesis by (simp add: run_partition_def)
      next
        case (Cons path ps)
        with one [OF Inr] have "co_files opts = [path]" by simp
        moreover from no Inr have "\<not> partition_runs opts path (the (co_parts opts))" by blast
        ultimately show ?thesis using Inr q False
          by (cases "co_parts opts") (auto simp: run_partition_def partition_runs_def split: option.split)
      qed
    qed
    ultimately show ?thesis using command_ends_error [OF assms(3)] by auto
  qed
qed

definition files_runs :: "cli_opts \<Rightarrow> nat \<Rightarrow> bool" where
  "files_runs opts parts \<longleftrightarrow>
     co_files opts \<noteq> [] \<and> co_parts opts = Some parts \<and> (co_window opts \<noteq> None \<longrightarrow> co_source opts = Windowed)"

lemma run_partition_files_plans:
  assumes c: "os_contract (ce_os ce) files" "stat_ok (ce_os ce) files" "env_trace (ce_os ce) tr"
    and R: "run_res tr no_resources = Some no_resources"
    and a: "\<forall>a\<in>set args. valid_slice a" "files_weight files args \<le> usize_max" "\<not> help_asked args"
      "partition_files_args (ce_os ce) args = Ret (Inr opts)" and runs: "files_runs opts parts"
  shows "ends_with ce no_resources no_resources (assignments_text (files_plan files (co_files opts) (co_delimiter opts) parts))
     (run_partition_files ce args tr)"
    "co_source opts = Mmap \<Longrightarrow>
       opens_all_then ce (co_files opts) tr (assignments_text (files_plan files (co_files opts) (co_delimiter opts) parts))
         (run_partition_files ce args tr)"
proof -
  note po = parsed_opts(1-3) [OF a(1) a(4) [unfolded partition_files_args_def]] parsed_opts(4) [OF a(1) a(4) [unfolded partition_files_args_def], of files]
  have parts: "0 < parts" "parts \<le> usize_max" and len: "logical_len (map files (co_files opts)) \<le> usize_max"
    using po(1,4) runs a(2) by (auto simp: opts_ok_def files_runs_def files_weight_logical)
  let ?d = "co_delimiter opts"
  have eq: "run_partition_files ce args tr =
      (case co_window opts of
         Some window_bytes \<Rightarrow> emit_file_partitions_sourced ce (co_files opts) parts ?d (with_window_bytes (planner_new Windowed) window_bytes) tr
       | None \<Rightarrow>
           (case co_source opts of
              Mmap \<Rightarrow> emit_file_partitions ce (co_files opts) parts ?d tr
            | Windowed \<Rightarrow> emit_file_partitions_sourced ce (co_files opts) parts ?d (planner_new Windowed) tr
            | Pread \<Rightarrow> emit_file_partitions_sourced ce (co_files opts) parts ?d (planner_new Pread) tr))"
    using a(3,4) runs by (auto simp: run_partition_files_def files_runs_def split: option.splits)
  note m = emit_file_partitions_spec [OF c(1,3) R po(2,3) parts len]
  note src = emit_file_partitions_sourced_spec [OF c R po(2,3) parts len]
  show "ends_with ce no_resources no_resources (assignments_text (files_plan files (co_files opts) ?d parts)) (run_partition_files ce args tr)"
    unfolding eq using opens_all_then_ends [OF m] src planner_buffers by (auto split: option.split source_mode.split)
  assume "co_source opts = Mmap"
  moreover from this runs have "co_window opts = None" by (auto simp: files_runs_def)
  ultimately show "opens_all_then ce (co_files opts) tr (assignments_text (files_plan files (co_files opts) ?d parts))
      (run_partition_files ce args tr)" unfolding eq using m by simp
qed

definition files_text :: "cli_env \<Rightarrow> (path \<Rightarrow> bytes) \<Rightarrow> string list \<Rightarrow> string option" where
  "files_text ce files args =
     (if help_asked args then Some HELP
      else case partition_files_args (ce_os ce) args of
        Ret (Inr opts) \<Rightarrow>
          (case co_parts opts of
             Some parts \<Rightarrow>
               (if files_runs opts parts
                then Some (assignments_text (files_plan files (co_files opts) (co_delimiter opts) parts)) else None)
           | None \<Rightarrow> None)
      | _ \<Rightarrow> None)"

lemma run_partition_files_ends:
  assumes "os_contract (ce_os ce) files" "stat_ok (ce_os ce) files" "env_trace (ce_os ce) tr"
    "run_res tr no_resources = Some no_resources"
    "\<forall>a\<in>set args. valid_slice a" "files_weight files args \<le> usize_max"
  shows "command_ends ce no_resources no_resources (files_text ce files args) (run_partition_files ce args tr)"
proof (cases "help_asked args")
  case True
  with assms(4) show ?thesis by (simp add: run_partition_files_def files_text_def print_text_ends)
next
  case False
  obtain q where q: "partition_files_args (ce_os ce) args = Ret q"
    using args_loop_total [OF opts_ok_default] unfolding partition_files_args_def by blast
  show ?thesis
  proof (cases "\<exists>opts parts. q = Inr opts \<and> files_runs opts parts")
    case True
    then obtain opts parts where o: "q = Inr opts" "files_runs opts parts" by blast
    then have "files_text ce files args = Some (assignments_text (files_plan files (co_files opts) (co_delimiter opts) parts))"
      using q False by (simp add: files_text_def files_runs_def)
    then show ?thesis
      using ends_with_command [OF run_partition_files_plans(1) [OF assms(1-6) False _ o(2)]] q o(1) by simp
  next
    case no: False
    have "files_text ce files args = None"
      using q no False by (auto simp: files_text_def split: sum.splits option.splits)
    moreover have "\<exists>e. run_partition_files ce args tr = Ret (Inl e, [], tr)"
    proof (cases q)
      case (Inl e)
      with q False show ?thesis by (simp add: run_partition_files_def)
    next
      case (Inr opts)
      with no have "\<not> files_runs opts (the (co_parts opts))" by blast
      with Inr q False show ?thesis
        by (cases "co_parts opts") (auto simp: run_partition_files_def files_runs_def split: option.split)
    qed
    ultimately show ?thesis using command_ends_error [OF assms(4)] by auto
  qed
qed

text \<open>What the program has to write, for its arguments.\<close>

definition cli_text :: "cli_env \<Rightarrow> (path \<Rightarrow> bytes) \<Rightarrow> string list \<Rightarrow> string option" where
  "cli_text ce files arguments =
     (case arguments of
        [] \<Rightarrow> None
      | command # rest \<Rightarrow>
          if help_asked arguments then Some HELP
          else if rest = [] \<and> (command = ''--version'' \<or> command = ''-V'') then Some (version_text ce)
          else if command = ''partition'' then partition_text ce files rest
          else if command = ''partition-files'' then files_text ce files rest
          else None)"

lemma run_cli_ends:
  assumes "os_contract (ce_os ce) files" "stat_ok (ce_os ce) files" "\<forall>a\<in>set args. valid_slice a" "files_weight files args \<le> usize_max"
  shows "command_ends ce no_resources no_resources (cli_text ce files args) (run_cli ce args [])"
proof (cases args)
  case (Cons command rest)
  have v: "\<forall>a\<in>set rest. valid_slice a" "files_weight files rest \<le> usize_max" using assms(3,4) Cons by simp_all
  have res: "run_res [] no_resources = Some no_resources" by simp
  note part = run_partition_ends [OF assms(1) env_trace_Nil res v]
  note fls = run_partition_files_ends [OF assms(1,2) env_trace_Nil res v]
  let ?version = "rest = [] \<and> (command = ''--version'' \<or> command = ''-V'')"
  have asked: "help_asked args \<longleftrightarrow> rest = [] \<and> (command = ''--help'' \<or> command = ''-h'')" by (auto simp: help_asked_def Cons)
  have run: "run_cli ce args [] =
      (if help_asked args then print_text ce HELP []
       else if ?version then print_text ce (version_text ce) []
       else if command = ''partition'' then run_partition ce rest []
       else if command = ''partition-files'' then run_partition_files ce rest []
       else Ret (Inl (''unknown command '' @ quoted (env_lossy (ce_os ce) command)), [], []))"
    unfolding asked by (simp only: Cons run_cli_def list.case version_text_def)
  have planned: "cli_text ce files args =
      (if help_asked args then Some HELP else if ?version then Some (version_text ce)
       else if command = ''partition'' then partition_text ce files rest
       else if command = ''partition-files'' then files_text ce files rest else None)"
    by (simp only: Cons cli_text_def list.case)
  have said: "command_ends ce no_resources no_resources (Some HELP) (print_text ce HELP [])"
    "command_ends ce no_resources no_resources (Some (version_text ce)) (print_text ce (version_text ce) [])"
    using print_text_ends [OF res] by simp_all
  note ends = part fls said command_ends_error [OF res]
  consider "help_asked args" | "\<not> help_asked args" ?version | "\<not> help_asked args" "\<not> ?version" by blast
  then show ?thesis
  proof cases
    case 3
    then show ?thesis unfolding run planned if_not_P [OF 3(1)] if_not_P [OF 3(2)]
      using ends by (cases "command = ''partition''"; cases "command = ''partition-files''") (simp_all only: if_True if_False simp_thms)
  qed (use ends in \<open>simp_all only: run planned if_True if_False simp_thms\<close>)
qed (simp add: run_cli_def cli_text_def command_ends_error)

subsection \<open>Claims\<close>

text \<open>
  Claim C6: the \<open>partition\<close> command, for any source mode, window and worker, always returns and
  releases what it took. When it succeeds it has printed exactly one row (index, start, end,
  length) for each range of the slice planner on the bytes of the file, or the row of the requested
  worker if its range exists; when it fails it has printed nothing, or, when writing fails, a
  beginning of these rows. With the default mode it does succeed whenever the file can be opened
  and the output written.
\<close>

theorem cli_partition_output:
  assumes "os_contract (ce_os ce) files" "env_trace (ce_os ce) tr" "run_res tr R0 = Some R"
    "\<forall>a\<in>set args. valid_slice a" "files_weight files args \<le> usize_max" "\<not> help_asked args"
    "partition_args (ce_os ce) args = Ret (Inr opts)" "partition_runs opts path parts"
    "valid_slice (files path)" "find_partition_boundaries_pattern ptr (files path) parts (co_delimiter opts) = Ret rs"
  shows "\<exists>r out tr'. run_partition ce args tr = Ret (r, out, tr') \<and> run_res tr' R0 = Some R \<and>
     written ce (plan_rows rs (co_worker opts)) r out \<and>
     (r = Inr () \<longrightarrow> out = plan_rows rs (co_worker opts)) \<and> out = take (length out) (plan_rows rs (co_worker opts)) \<and>
     (co_source opts = Mmap \<and> (\<exists>c tr1. chunker_open (ce_pf ce) (ce_os ce) path tr = (Inr c, tr1)) \<and>
        ce_stdout ce (plan_rows rs (co_worker opts)) = None \<longrightarrow> r = Inr ())"
proof -
  note po = parsed_opts(2,3) [OF assms(4) assms(7) [unfolded partition_args_def]]
  have rs: "rs = file_plan files path (co_delimiter opts) parts"
    using assms(10) find_partition_boundaries_pattern_spec [OF assms(9) po, of ptr parts]
    by (simp add: file_plan_def plan_spec_min)
  note plans = run_partition_plans [OF assms(1-8), folded rs]
  obtain r out tr' where r: "run_partition ce args tr = Ret (r, out, tr')" "run_res tr' R0 = Some R"
    "written ce (plan_rows rs (co_worker opts)) r out" using plans(1) by (auto simp: ends_with_def)
  moreover have "r = Inr ()"
    if "co_source opts = Mmap" "chunker_open (ce_pf ce) (ce_os ce) path tr = (Inr c, tr1)"
      "ce_stdout ce (plan_rows rs (co_worker opts)) = None" for c tr1
    using plans(2) [OF that(1)] that(2,3) r(1) by (simp add: opens_then_def write_output_def)
  ultimately show ?thesis using written_prefix [OF r(3)] by blast
qed

text \<open>A process on the simulated system whose output always succeeds.\<close>

definition sim_cli :: cli_env where
  "sim_cli = \<lparr>ce_pf = Unix, ce_os = sim_env (\<lambda>_. [97, 10, 98]), ce_alloc = (\<lambda>_. True), ce_bptr = 0,
     ce_stdout = (\<lambda>_. None), ce_stderr = (\<lambda>_. None), ce_version = ''0.4.0''\<rparr>"

lemma sim_cli_sel [simp]:
  "ce_pf sim_cli = Unix" "ce_os sim_cli = sim_env (\<lambda>_. [97, 10, 98])" "ce_stdout sim_cli t = None"
  "ce_stderr sim_cli t = None"
  by (simp_all add: sim_cli_def)

lemma show_nat_two: "show_nat 2 = ''2''"
  by code_simp

lemma sim_stat: "stat_ok (sim_env files) files"
  by (simp add: stat_ok_def)

lemma sim_args:
  "partition_args (sim_env files) [''--parts'', show_nat 2, ''f''] = Ret (Inr (opts_default\<lparr>co_parts := Some 2, co_files := [''f'']\<rparr>))"
  using args_loop_settings [of "sim_env files" False opts_default "[SetParts 2, SetFile ''f'']"]
  by (simp add: partition_args_def opts_default_def option_names_def starts_with_def max_consts)

lemma sim_plan:
  "valid_slice [97, 10, 98 :: byte]" "find_partition_boundaries_pattern 0 [97, 10, 98] 2 [10] = Ret [(0, 2), (2, 3)]"
  "plan_spec (record_cut [10] [97, 10, 98 :: byte]) 3 2 = [(0, 2), (2, 3)]"
proof -
  show v: "valid_slice [97, 10, 98 :: byte]" by (simp add: valid_slice_def max_consts)
  have p: "valid_slice [10 :: byte]" "[10 :: byte] \<noteq> []" by (simp_all add: valid_slice_def max_consts)
  have t: "ideal_targets 3 2 = [1]" by (simp add: ideal_targets_def upt_rec)
  have b: "record_cut [10] [97, 10, 98 :: byte] 1 = 2"
    by (simp add: record_cut_def next_cut_def ends_after_def starts_with_def)
  show plan: "plan_spec (record_cut [10] [97, 10, 98 :: byte]) 3 2 = [(0, 2), (2, 3)]" by (simp add: plan_spec_def t b [simplified])
  have l: "length [97, 10, 98 :: byte] = 3" "min 2 (3 :: nat) = 2" by simp_all
  show "find_partition_boundaries_pattern 0 [97, 10, 98] 2 [10] = Ret [(0, 2), (2, 3)]"
    using find_partition_boundaries_pattern_spec [OF v p, of 0 2] unfolding l plan using p(2) by (simp only: if_False)
qed

theorem cli_partition_output_witness:
  "\<exists>tr'. run_partition sim_cli [''--parts'', show_nat 2, ''f''] [] = Ret (Inr (), plan_rows [(0, 2), (2, 3)] None, tr')"
proof -
  let ?args = "[''--parts'', show_nat 2, ''f'']" and ?files = "\<lambda>_ :: path. [97, 10, 98] :: byte list"
  let ?opts = "opts_default\<lparr>co_parts := Some 2, co_files := [''f'']\<rparr>"
  have a: "\<forall>a\<in>set ?args. valid_slice a" "files_weight ?files ?args \<le> usize_max" "\<not> help_asked ?args"
    by (simp_all add: show_nat_two valid_slice_def max_consts help_asked_def)
  have p: "partition_args (ce_os sim_cli) ?args = Ret (Inr ?opts)" using sim_args by simp
  have runs: "partition_runs ?opts ''f'' 2" by (simp add: partition_runs_def opts_default_def)
  have plan: "find_partition_boundaries_pattern 0 (?files ''f'') 2 (co_delimiter ?opts) = Ret [(0, 2), (2, 3)]"
    using sim_plan(2) by (simp only: opts_default_def cli_opts.simps)
  obtain c tr1 where o: "chunker_open Unix (sim_env ?files) ''f'' [] = (Inr c, tr1)" by (rule sim_chunker_open)
  have m: "co_source ?opts = Mmap" "co_worker ?opts = None" by (simp_all add: opts_default_def)
  have c: "os_contract (ce_os sim_cli) ?files" using sim_chunker_contract by simp
  show ?thesis
    using cli_partition_output [OF c env_trace_Nil _ a p runs sim_plan(1) plan, of no_resources no_resources] o m by auto
qed

text \<open>
  Claim C7: the \<open>partition-files\<close> command, for any source mode and window, always returns and
  releases what it took. In every mode, when it succeeds it has printed the rows of one and the same
  assignment, and when it fails nothing or, when writing fails, a beginning of these rows. The
  assignment numbers workers from zero, at most as many as requested, and their ranges in order are
  the bytes of all files in argument order, each range a non-empty piece of one file that starts
  and ends at record boundaries of that file or at its ends. With the default mode the command does
  succeed whenever the files can be opened and the output written.
\<close>

theorem cli_files_output:
  assumes "os_contract (ce_os ce) files" "stat_ok (ce_os ce) files" "env_trace (ce_os ce) tr"
    "run_res tr no_resources = Some no_resources"
    "\<forall>a\<in>set args. valid_slice a" "files_weight files args \<le> usize_max" "\<not> help_asked args"
    "partition_files_args (ce_os ce) args = Ret (Inr opts)" "files_runs opts parts"
  defines "ws \<equiv> files_plan files (co_files opts) (co_delimiter opts) parts" and "contents \<equiv> map files (co_files opts)"
  shows "(\<exists>r out tr'. run_partition_files ce args tr = Ret (r, out, tr') \<and> run_res tr' no_resources = Some no_resources \<and>
       written ce (assignments_text ws) r out \<and>
       (r = Inr () \<longrightarrow> out = assignments_text ws) \<and> out = take (length out) (assignments_text ws) \<and>
       (co_source opts = Mmap \<and> (\<exists>sources tr1. open_sources (ce_pf ce) (ce_os ce) (co_files opts) [] tr = (Inr sources, tr1)) \<and>
          ce_stdout ce (assignments_text ws) = None \<longrightarrow> r = Inr ())) \<and>
     map wa_worker ws = [0..<length ws] \<and> length ws \<le> parts \<and>
     concat (map (\<lambda>w. concat (map (range_bytes contents) (wa_ranges w))) ws) = concat contents \<and>
     (\<forall>w\<in>set ws. wa_ranges w \<noteq> [] \<and> (\<forall>r\<in>set (wa_ranges w). range_ok (co_delimiter opts) contents r))"
proof -
  have "0 < parts"
    using parsed_opts(1) [OF assms(5) assms(8) [unfolded partition_files_args_def]] assms(9)
    by (auto simp: opts_ok_def files_runs_def)
  note workers = workers_plan_correct [OF this, of contents "co_delimiter opts"]
  note plans = run_partition_files_plans [OF assms(1-9), folded ws_def]
  obtain r out tr' where r: "run_partition_files ce args tr = Ret (r, out, tr')" "run_res tr' no_resources = Some no_resources"
    "written ce (assignments_text ws) r out" using plans(1) by (auto simp: ends_with_def)
  moreover have "r = Inr ()"
    if "co_source opts = Mmap" "open_sources (ce_pf ce) (ce_os ce) (co_files opts) [] tr = (Inr sources, tr1)"
      "ce_stdout ce (assignments_text ws) = None" for sources tr1
    using plans(2) [OF that(1)] that(2,3) r(1) by (simp add: opens_all_then_def write_output_def)
  ultimately have "\<exists>r out tr'. run_partition_files ce args tr = Ret (r, out, tr') \<and> run_res tr' no_resources = Some no_resources \<and>
       written ce (assignments_text ws) r out \<and>
       (r = Inr () \<longrightarrow> out = assignments_text ws) \<and> out = take (length out) (assignments_text ws) \<and>
       (co_source opts = Mmap \<and> (\<exists>sources tr1. open_sources (ce_pf ce) (ce_os ce) (co_files opts) [] tr = (Inr sources, tr1)) \<and>
          ce_stdout ce (assignments_text ws) = None \<longrightarrow> r = Inr ())"
    using written_prefix [OF r(3)] by blast
  with workers show ?thesis unfolding contents_def files_plan_def ws_def by blast
qed

lemma sim_opens: "path \<in> {''f'', ''g''} \<Longrightarrow> \<exists>c. fst (chunker_open Unix (sim_env (\<lambda>_. [97, 10, 98])) path tr) = Inr c"
  by (auto simp: chunker_open_def mmap_open_path_def mmap_open_def probe_cstr_eligible_def probe_mmap_eligible_def
      probe_verdict_def cstring_new_def option_to_io_def open_unix_def Let_def sys_call_def usize_try_from_def
      sim_unit_def sim_addr_def MAP_FAILED_def split: prod.splits)

lemma sim_opens_both:
  obtains sources tr where "open_sources Unix (sim_env (\<lambda>_. [97, 10, 98])) [''f'', ''g''] [] [] = (Inr sources, tr)"
proof -
  obtain c1 tr1 where o1: "chunker_open Unix (sim_env (\<lambda>_. [97, 10, 98])) ''f'' [] = (Inr c1, tr1)"
    using sim_opens [of "''f''" "[]"] by (metis insertCI prod.collapse)
  obtain c2 tr2 where o2: "chunker_open Unix (sim_env (\<lambda>_. [97, 10, 98])) ''g'' tr1 = (Inr c2, tr2)"
    using sim_opens [of "''g''" tr1] by (metis insertCI prod.collapse)
  show thesis by (rule that [of "[c1, c2]" tr2]) (simp add: o1 o2)
qed

theorem cli_files_output_witness:
  "\<exists>tr'. run_partition_files sim_cli [''--parts'', show_nat 2, ''f'', ''g''] [] =
     Ret (Inr (), row [0, 0, 0, 3, 3] @ row [1, 1, 0, 3, 3], tr')"
proof -
  let ?args = "[''--parts'', show_nat 2, ''f'', ''g'']" and ?files = "\<lambda>_ :: path. [97, 10, 98] :: byte list"
  let ?opts = "opts_default\<lparr>co_parts := Some 2, co_files := [''f'', ''g'']\<rparr>"
  have a: "\<forall>a\<in>set ?args. valid_slice a" "files_weight ?files ?args \<le> usize_max" "\<not> help_asked ?args"
    by (simp_all add: show_nat_two valid_slice_def max_consts help_asked_def)
  have p: "partition_files_args (ce_os sim_cli) ?args = Ret (Inr ?opts)"
    using args_loop_settings [of "ce_os sim_cli" True opts_default "[SetParts 2, SetFile ''f'', SetFile ''g'']"]
    by (simp add: partition_files_args_def opts_default_def option_names_def starts_with_def max_consts)
  have runs: "files_runs ?opts 2" by (simp add: files_runs_def opts_default_def)
  have c: "os_contract (ce_os sim_cli) ?files" "stat_ok (ce_os sim_cli) ?files" using sim_chunker_contract sim_stat by simp_all
  have r: "run_res [] no_resources = Some no_resources" by simp
  have m: "co_source ?opts = Mmap" "co_files ?opts = [''f'', ''g'']" "co_delimiter ?opts = [10]" by (simp_all add: opts_default_def)
  obtain sources tr where o: "open_sources Unix (sim_env ?files) [''f'', ''g''] [] [] = (Inr sources, tr)" by (rule sim_opens_both)
  have ws: "assignments_text (files_plan ?files [''f'', ''g''] [10] 2) = row [0, 0, 0, 3, 3] @ row [1, 1, 0, 3, 3]"
    by (simp add: assignments_text_def files_plan_def logical_len_def plan_spec_def ideal_targets_def upt_rec
        assignment_rows_def numeral_3_eq_3)
  show ?thesis
    using conjunct1 [OF cli_files_output [OF c env_trace_Nil r a p runs]] o by (auto simp: m ws simp del: row.simps)
qed

text \<open>The two lines of an error report.\<close>

definition error_report :: "string \<Rightarrow> string" where
  "error_report message = ''error: '' @ message @ newline @ ''Try `mmap-chunker --help` for usage.'' @ newline"

text \<open>
  Claim C39: the whole program, for any arguments whatsoever. It panics only when \<open>print!\<close> cannot
  write the help or the version it was asked for to standard output, or \<open>eprintln!\<close> cannot write
  the error report to standard error. Otherwise it ends with an exit code. It exits with success
  and no error report after writing everything its arguments ask for; or with failure and
  an error report, having written nothing, or, when standard output fails, the characters of the
  expected text that came before, the report then naming the failure. In both cases it keeps no
  handle and no mapping, and none of the system calls it makes can create, truncate or write a file.
\<close>

theorem cli_main_safe:
  assumes "os_contract (ce_os ce) files" "stat_ok (ce_os ce) files"
    "\<forall>a\<in>set args. valid_slice a" "files_weight files args \<le> usize_max"
  defines "planned \<equiv> cli_text ce files (drop 1 args)"
  shows "case cli_main ce args [] of
     Panic msg \<Rightarrow>
       (\<exists>text k error. planned = Some text \<and> text \<in> {HELP, version_text ce} \<and> ce_stdout ce text = Some (k, error) \<and>
          msg = ''failed printing to stdout: '' @ err_text error) \<or>
       (\<exists>line error. ce_stderr ce line = Some error \<and> msg = ''failed printing to stderr: '' @ err_text error)
   | Ret (code, out, err, tr') \<Rightarrow>
       run_res tr' no_resources = Some no_resources \<and> (\<forall>e\<in>set tr'. read_only (fst e)) \<and>
       (case code of
          SUCCESS \<Rightarrow> err = [] \<and> planned = Some out \<and> ce_stdout ce out = None
        | FAILURE \<Rightarrow>
            \<exists>message. err = error_report message \<and>
              (out = [] \<or>
               (\<exists>text k error. planned = Some text \<and> ce_stdout ce text = Some (k, error) \<and> out = take k text \<and>
                  message = write_failed error)))"
proof -
  have v: "\<forall>a\<in>set (drop 1 args). valid_slice a" "files_weight files (drop 1 args) \<le> usize_max"
    using assms(3,4) by (cases args; auto)+
  note ends = run_cli_ends [OF assms(1,2) v, folded planned_def, unfolded command_ends_def]
  show ?thesis
  proof (cases "run_cli ce (drop 1 args) []")
    case (Panic msg)
    with ends show ?thesis by (simp add: cli_main_def print_panics_def)
  next
    case (Ret q)
    obtain r out tr' where q: "q = (r, out, tr')" by (cases q)
    have res: "run_res tr' no_resources = Some no_resources"
      and w: "case planned of None \<Rightarrow> r \<noteq> Inr () \<and> out = [] | Some text \<Rightarrow> written ce text r out" using ends Ret q by simp_all
    have ro: "\<forall>e\<in>set tr'. read_only (fst e)" using run_res_read_only [OF res] by blast
    show ?thesis
    proof (cases r)
      case (Inr u)
      with w obtain t where "planned = Some t" "written ce t r out" by (cases planned) auto
      with Ret q Inr res ro show ?thesis by (simp add: cli_main_def written_def)
    next
      case (Inl message)
      have out: "out = [] \<or> (\<exists>text k error. planned = Some text \<and> ce_stdout ce text = Some (k, error) \<and> out = take k text \<and>
          message = write_failed error)"
        using w Inl by (cases planned) (auto simp: written_def)
      show ?thesis
      proof (cases "cli_main ce args []")
        case (Panic msg)
        then show ?thesis using Ret q Inl by (auto simp: cli_main_def eprint_line_def Let_def split: option.splits)
      next
        case (Ret p)
        then have "p = (FAILURE, out, error_report message, tr')"
          using \<open>run_cli ce (drop 1 args) [] = Ret q\<close> q Inl
          by (auto simp: cli_main_def eprint_line_def error_report_def Let_def split: option.splits)
        then show ?thesis using Ret res ro out by auto
      qed
    qed
  qed
qed

text \<open>Standard output that accepts four characters and then fails.\<close>

definition full_cli :: cli_env where
  "full_cli = sim_cli\<lparr>ce_stdout := (\<lambda>_. Some (4, io_err (OsKind 28) ''No space left on device (os error 28)''))\<rparr>"

theorem cli_main_safe_witness:
  "\<exists>tr'. cli_main full_cli [''mmap-chunker'', ''partition'', ''--parts'', show_nat 2, ''f''] [] =
     Ret (FAILURE, take 4 (plan_rows [(0, 2), (2, 3)] None), error_report (write_failed (io_err (OsKind 28) ''No space left on device (os error 28)'')), tr') \<and>
     run_res tr' no_resources = Some no_resources"
proof -
  let ?args = "[''--parts'', show_nat 2, ''f'']" and ?files = "\<lambda>_ :: path. [97, 10, 98] :: byte list"
  let ?all = "[''mmap-chunker'', ''partition''] @ ?args"
  let ?opts = "opts_default\<lparr>co_parts := Some 2, co_files := [''f'']\<rparr>"
  have a: "\<forall>a\<in>set ?all. valid_slice a" "files_weight ?files ?all \<le> usize_max" "\<not> help_asked ?args"
    "\<forall>a\<in>set ?args. valid_slice a" "files_weight ?files ?args \<le> usize_max"
    by (simp_all add: show_nat_two valid_slice_def max_consts help_asked_def)
  have sel: "ce_pf full_cli = Unix" "ce_os full_cli = sim_env ?files" "ce_stderr full_cli t = None"
    "ce_stdout full_cli t = Some (4, io_err (OsKind 28) ''No space left on device (os error 28)'')" for t
    by (simp_all add: full_cli_def)
  have c: "os_contract (ce_os full_cli) ?files" "stat_ok (ce_os full_cli) ?files" using sim_chunker_contract sim_stat sel by simp_all
  have p: "partition_args (ce_os full_cli) ?args = Ret (Inr ?opts)" using sim_args sel by simp
  have runs: "partition_runs ?opts ''f'' 2" by (simp add: partition_runs_def opts_default_def)
  have r: "run_res [] no_resources = Some no_resources" by simp
  have m: "co_source ?opts = Mmap" "co_worker ?opts = None" "co_delimiter ?opts = [10]" by (simp_all add: opts_default_def)
  have plan: "file_plan ?files ''f'' [10] 2 = [(0, 2), (2, 3)]" using sim_plan(3) by (simp add: file_plan_def eval_nat_numeral)
  obtain ch tr1 where o: "chunker_open Unix (sim_env ?files) ''f'' [] = (Inr ch, tr1)" by (rule sim_chunker_open)
  obtain tr' where run: "run_partition full_cli ?args [] =
      Ret (Inl (write_failed (io_err (OsKind 28) ''No space left on device (os error 28)'')), take 4 (plan_rows [(0, 2), (2, 3)] None), tr')"
    using run_partition_plans(2) [OF c(1) env_trace_Nil r a(4,5,3) p runs m(1)] o
    by (auto simp: opens_then_def write_output_def sel m plan)
  then have "cli_main full_cli ?all [] = Ret (FAILURE, take 4 (plan_rows [(0, 2), (2, 3)] None),
      error_report (write_failed (io_err (OsKind 28) ''No space left on device (os error 28)'')), tr')"
    by (simp add: cli_main_def run_cli_def eprint_line_def error_report_def sel)
  with cli_main_safe [OF c a(1,2)] show ?thesis by simp
qed

end
