(* ===== verification/Read_Bounds.thy ===== *)
theory Read_Bounds
  imports Source_Backends
begin

section \<open>How much the buffered planner reads\<close>

text \<open>
  The search of \<open>src/src/source.rs\<close> starts with a probe of 4 KiB and doubles it after every miss, so
  that a dense file is not read a buffer at a time. The tests measure this with a source that
  counts what it is asked for. This theory models that source and proves the bound for every
  input, in a locale that extends the contract of a byte source by complete reads.
\<close>

subsection \<open>The counting source of the tests\<close>

record counting_source =
  cs_data :: bytes
  cs_max_read :: nat

record counting_state =
  cs_calls :: nat
  cs_requested :: nat
  cs_returned :: nat

definition counting_new :: "bytes \<Rightarrow> nat \<Rightarrow> counting_source \<times> counting_state" where
  "counting_new data max_read =
     (\<lparr>cs_data = data, cs_max_read = max_read\<rparr>, \<lparr>cs_calls = 0, cs_requested = 0, cs_returned = 0\<rparr>)"

definition counting_totals :: "counting_state \<Rightarrow> nat \<times> nat \<times> nat" where
  "counting_totals c = (cs_calls c, cs_requested c, cs_returned c)"

text \<open>\<open>AtomicU64::fetch_add\<close> wraps around.\<close>

definition fetch_add :: "nat \<Rightarrow> nat \<Rightarrow> nat" where
  "fetch_add counter n = (counter + n) mod 2 ^ 64"

definition counting_read_at ::
  "counting_source \<Rightarrow> nat \<Rightarrow> bytes \<Rightarrow> counting_state \<Rightarrow> (nat io \<times> bytes \<times> counting_state) run" where
  "counting_read_at d offset out c =
     (let c = c\<lparr>cs_calls := fetch_add (cs_calls c) 1, cs_requested := fetch_add (cs_requested c) (slen out)\<rparr> in
      if offset \<ge> slen (cs_data d) \<or> out = [] then Ret (Inr 0, out, c)
      else
        let n = min (min (slen out) (cs_max_read d)) (slen (cs_data d) - offset) in
        rbind (slice_range (cs_data d) offset (offset + n)) (\<lambda>part.
          Ret (Inr n, part @ drop n out, c\<lparr>cs_returned := fetch_add (cs_returned c) n\<rparr>)))"

definition counting_ops :: "counting_source \<Rightarrow> counting_state byte_source_ops" where
  "counting_ops d = \<lparr>bs_len = (\<lambda>c. slen (cs_data d)), bs_read_at = counting_read_at d, bs_as_slice = (\<lambda>c. None)\<rparr>"

subsection \<open>Sources that read completely\<close>

text \<open>
  What a first probe costs beyond four bytes for every byte passed: one shorter than twice the
  delimiter may advance by less than half, once.
\<close>

definition probe_cost :: "bytes \<Rightarrow> nat \<Rightarrow> nat" where
  "probe_cost p probe = (if 2 * (length p - 1) \<le> probe then probe else 3 * probe)"

lemma probe_cost_ge: "probe \<le> probe_cost p probe"
  by (simp add: probe_cost_def)

text \<open>
  A source whose reads are complete, with a measure of the bytes it was asked for. Its search
  and its planner are those of every byte source; what the locale adds is how much they read.
\<close>

locale full_source = byte_source src content sinv
  for src :: "'s byte_source_ops" and content :: bytes and sinv :: "'s \<Rightarrow> bool" +
  fixes asked :: "'s \<Rightarrow> nat"
  assumes read_asked: "sinv s \<Longrightarrow> valid_slice out \<Longrightarrow> bs_read_at src off out s = Ret (r, out', s') \<Longrightarrow>
      asked s' \<le> asked s + length out \<and> (\<forall>n. r = Inr n \<longrightarrow> n = min (length out) (length content - off))"
    and no_slice: "sinv s \<Longrightarrow> bs_as_slice src s = None"
begin

lemma fill_loop_asked:
  assumes "sinv s" "want \<le> length buffer" "valid_slice buffer" "offset + want \<le> length content"
    "fill_loop src offset want 0 buffer s = Ret (r, buffer', s')"
  shows "asked s' \<le> asked s + want"
proof (cases "want = 0")
  case False
  define part where "part = take want buffer"
  have part: "slice_range buffer 0 want = Ret part" "length part = want" "valid_slice part"
    using assms(2,3) by (auto simp: part_def slice_range_def)
  obtain r1 part' s1 where rd: "bs_read_at src offset part s = Ret (r1, part', s1)"
    using read_total [OF assms(1) part(3)] by blast
  have one: "asked s1 \<le> asked s + want" and all: "r1 = Inr n \<Longrightarrow> n = want" for n
    using read_asked [OF assms(1) part(3) rd] part(2) assms(4) by auto
  note unfold = fill_loop.simps [of src offset want]
  show ?thesis
  proof (cases r1)
    case (Inl e)
    with assms(5) False part(1) rd one show ?thesis by (subst (asm) unfold) simp
  next
    case (Inr n)
    then have "n = want" by (rule all)
    have "fill_loop src offset want want b s1 = Ret (Inr want, b, s1)" for b by (subst unfold) simp
    with assms(5) False part(1) rd Inr \<open>n = want\<close> one show ?thesis
      by (subst (asm) unfold) (auto simp: Let_def split: if_splits)
  qed
next
  case True
  with assms(5) show ?thesis by (subst (asm) fill_loop.simps) simp
qed

text \<open>
  One probe and four bytes for every byte passed: a probe that misses is followed by one at most
  twice as long, which starts at least half a probe further.
\<close>

lemma search_loop_asked:
  assumes "sinv s" "valid_slice delimiter" "delimiter \<noteq> []" "valid_slice buffer" "length delimiter \<le> probe"
    "probe \<le> length buffer" "offset \<le> length content" "2 * (length delimiter - 1) \<le> length buffer"
    "search_loop src bptr delimiter (length content) probe offset buffer s = Ret (r, buffer', s')"
  shows "offset \<le> search_end (length content) r \<and> search_end (length content) r \<le> length content \<and>
     asked s' \<le> asked s + probe_cost delimiter probe + 4 * (search_end (length content) r - offset) \<and>
     (\<forall>pos. r = Inr (Some pos) \<and> pos + length delimiter \<le> offset + probe \<longrightarrow> asked s' \<le> asked s + probe)"
  using assms
proof (induction "length content - offset" arbitrary: offset probe buffer s rule: less_induct)
  case less
  let ?L = "length content" and ?run = "search_loop src bptr delimiter (length content) probe offset buffer s"
  have vc: "valid_slice content" using valid_content less.prems(1) .
  show ?case
  proof (cases "offset < ?L")
    case False
    then have "?run = Ret (Inr None, buffer, s)" using valid_slice_usize [OF vc] by (subst search_loop.simps) simp
    with less.prems(7,9) show ?thesis by (auto simp: search_end_def)
  next
    case True
    define want where "want = min probe (?L - offset)"
    let ?occ = "first_occ delimiter (take want (drop offset content))"
    have "0 < probe" using less.prems(3,5) by (cases delimiter) auto
    from search_step [OF less.prems(1-4) this less.prems(6) True want_def, of bptr]
    obtain buffer1 s1 r1 where s1: "sinv s1" "length buffer1 = length buffer"
      and fill: "fill_loop src offset want 0 buffer s = Ret (r1, buffer1, s1)"
      and step: "(\<exists>e. ?run = Ret (Inl e, buffer1, s1)) \<or>
        ?run = (case ?occ of Some pos \<Rightarrow> rmap (\<lambda>p. (Inr (Some p), buffer1, s1)) (add_u64 offset pos)
         | None \<Rightarrow> if sat_add offset want \<ge> ?L then Ret (Inr None, buffer1, s1)
             else search_loop src bptr delimiter ?L
                    (if probe < slen buffer1 then min (sat_mul probe 2) (slen buffer1) else probe)
                    (sat_add offset (max (sat_sub want (sat_sub (slen delimiter) 1)) 1)) buffer1 s1)" (is "_ \<or> ?run = ?case")
      by blast
    have w: "want \<le> probe" "want \<le> length buffer" "offset + want \<le> ?L"
      using True less.prems(6) by (auto simp: want_def)
    have one: "asked s1 \<le> asked s + probe"
      using fill_loop_asked [OF less.prems(1) w(2) less.prems(4) w(3) fill] w(1) by simp
    then have cost: "asked s1 \<le> asked s + probe_cost delimiter probe" using probe_cost_ge [of probe delimiter] by linarith
    show ?thesis
    proof (cases "?run = ?case")
      case False
      with step less.prems(7,9) one cost show ?thesis by (auto simp: search_end_def)
    next
      case run: True
      show ?thesis
      proof (cases ?occ)
        case (Some pos)
        with window_hit [OF Some True vc] run less.prems(9) one cost show ?thesis by (auto simp: add_u64_def search_end_def)
      next
        case None
        show ?thesis
        proof (cases "offset + want \<ge> ?L")
          case True
          with run None valid_slice_usize [OF vc] less.prems(7,9) one cost show ?thesis by (auto simp: sat_add_def search_end_def)
        next
          case False
          then have full: "want = probe" by (auto simp: want_def min_def split: if_splits)
          define nxt where "nxt = offset + (probe - (length delimiter - 1))"
          define probe' where "probe' = (if probe < slen buffer1 then min (sat_mul probe 2) (slen buffer1) else probe)"
          have pos: "0 < length delimiter" using less.prems(3) by simp
          have nx: "offset < nxt" "nxt \<le> ?L" "offset + probe < nxt + length delimiter"
            using pos less.prems(5) False full unfolding nxt_def by linarith+
          have paid: "3 * probe \<le> probe_cost delimiter probe + 4 * (nxt - offset)"
            unfolding nxt_def probe_cost_def by auto
          have vb: "valid_slice buffer1" using less.prems(4) s1(2) by (simp add: valid_slice_def)
          have p': "probe \<le> probe'" "probe' \<le> 2 * probe" "probe' \<le> length buffer1"
            using less.prems(5,6) s1(2) vb valid_slice_usize [OF vb] by (auto simp: probe'_def sat_mul_def)
          have good: "2 * (length delimiter - 1) \<le> probe'"
            using less.prems(5,6,8) s1(2) vb valid_slice_usize [OF vb] by (auto simp: probe'_def sat_mul_def min_def)
          have "1 \<le> probe - (length delimiter - 1)" using pos less.prems(5) by linarith
          then have "max (probe - (length delimiter - Suc 0)) (Suc 0) = probe - (length delimiter - 1)" by simp
          then have adv: "sat_add offset (max (sat_sub want (sat_sub (slen delimiter) 1)) 1) = nxt"
            using nx(2) valid_slice_usize [OF vc] less.prems(2)
            by (simp add: full sat_sub_def nxt_def sat_add_exact)
          have not_end: "\<not> ?L \<le> sat_add offset want" using False valid_slice_usize [OF vc] by (simp add: sat_add_def)
          have eq: "search_loop src bptr delimiter ?L probe' nxt buffer1 s1 = Ret (r, buffer', s')"
            using run None not_end less.prems(9) unfolding adv probe'_def by simp
          have "?L - nxt < ?L - offset" using nx(1) True by simp
          from less.hyps [OF this s1(1) less.prems(2,3) vb _ p'(3) nx(2) _ eq]
          have IH: "nxt \<le> search_end ?L r" "search_end ?L r \<le> ?L"
            "asked s' \<le> asked s1 + probe' + 4 * (search_end ?L r - nxt)"
            using less.prems(5,8) p'(1) good s1(2) by (simp_all add: probe_cost_def)
          have "search_end ?L r - offset = (search_end ?L r - nxt) + (nxt - offset)" using IH(1) nx(1) by simp
          then have "asked s' \<le> asked s + probe_cost delimiter probe + 4 * (search_end ?L r - offset)"
            using IH(3) one p'(2) paid by linarith
          moreover have "pos + length delimiter > offset + probe" if "r = Inr (Some pos)" for pos
            using IH(1) nx(3) that by (simp add: search_end_def)
          ultimately show ?thesis using IH(1,2) nx(1) by force
        qed
      qed
    qed
  qed
qed

abbreviation first_probe :: "bytes \<Rightarrow> bytes \<Rightarrow> nat" where
  "first_probe p buffer \<equiv> min (max (length p) ADAPTIVE_INITIAL_PROBE_BYTES) (length buffer)"

lemma find_pattern_from_asked:
  assumes "sinv s" "valid_slice p" "p \<noteq> []" "valid_slice buffer" "length p \<le> length buffer" "t \<le> length content"
    "2 * (length p - 1) \<le> length buffer"
    "find_pattern_from src bptr t p buffer s = Ret (r, buffer', s')"
  shows "t \<le> search_end (length content) r \<and> search_end (length content) r \<le> length content \<and>
     asked s' \<le> asked s + probe_cost p (first_probe p buffer) + 4 * (search_end (length content) r - t) \<and>
     (\<forall>pos. r = Inr (Some pos) \<and> pos + length p \<le> t + first_probe p buffer \<longrightarrow> asked s' \<le> asked s + first_probe p buffer)"
proof -
  have "buffer \<noteq> []" using assms(3,5) by auto
  then have "search_loop src bptr p (length content) (first_probe p buffer) t buffer s = Ret (r, buffer', s')"
    using assms(2-5,8) len_content [OF assms(1)] by (simp add: find_pattern_from_def Let_def)
  from search_loop_asked [OF assms(1-4) _ _ assms(6,7) this] assms(5) show ?thesis by simp
qed

lemma target_reads_asked:
  assumes "sinv s" "valid_slice p" "p \<noteq> []" "valid_slice buffer" "length p \<le> length buffer" "t \<le> length content"
    "2 * (length p - 1) \<le> length buffer"
    "target_reads src bptr p (length content) t buffer s stop s'"
  shows "t \<le> stop \<and> stop \<le> length content \<and> asked s' \<le> asked s + length p + probe_cost p (first_probe p buffer) + 4 * (stop - t)"
proof -
  obtain r buf s0 where tr: "tail_read src p t buffer s = Ret (r, buf, s0)"
    and rest: "s' = s0 \<and> stop = t \<or>
      (\<exists>r' buf'. find_pattern_from src bptr t p buf s0 = Ret (r', buf', s') \<and> stop = search_end (length content) r')"
    using assms(8) by (auto simp: target_reads_def)
  have s0: "sinv s0" "length buf = length buffer"
    using tail_check [OF assms(1,2,4,5,6)] tr by (auto simp: tail_read_def)
  have one: "asked s0 \<le> asked s + length p"
  proof (cases "length p \<le> t")
    case True
    with tr assms(2) have "fill_loop src (t - length p) (length p) 0 buffer s = Ret (r, buf, s0)" by (simp add: tail_read_def)
    from fill_loop_asked [OF assms(1,5,4) _ this] True assms(6) show ?thesis by simp
  qed (use tr assms(2) in \<open>simp add: tail_read_def\<close>)
  have vb: "valid_slice buf" using assms(4) s0(2) by (simp add: valid_slice_def)
  from rest show ?thesis
  proof (elim disjE conjE exE)
    fix r' buf'
    assume fp: "find_pattern_from src bptr t p buf s0 = Ret (r', buf', s')" and stop: "stop = search_end (length content) r'"
    have "t \<le> search_end (length content) r' \<and> search_end (length content) r' \<le> length content \<and>
        asked s' \<le> asked s0 + probe_cost p (first_probe p buffer) + 4 * (search_end (length content) r' - t)"
      using find_pattern_from_asked [OF s0(1) assms(2,3) vb _ assms(6) _ fp] assms(5,7) s0(2) by simp
    with one show ?thesis unfolding stop by linarith
  qed (use one assms(6) in simp)
qed

lemma partition_loop_asked:
  assumes "content \<noteq> []" "valid_slice p" "p \<noteq> []" "n \<le> length content"
    "0 < i" "l \<le> length content" "sinv s" "valid_slice buffer" "length p \<le> length buffer" "2 * (length p - 1) \<le> length buffer"
    "source_partition_loop src bptr p (length content) n i l buffer s = Ret (r, s')"
  shows "asked s' \<le> asked s + (n - i) * (length p + probe_cost p (first_probe p buffer)) + 4 * (length content - l)"
  using assms(5-)
proof (induction "n - i" arbitrary: i l buffer s r rule: less_induct)
  case less
  let ?L = "length content" and ?cut = "record_cut p content"
  define K where "K = length p + probe_cost p (first_probe p buffer)"
  show ?case
  proof (cases "i < n")
    case False
    with less.prems(7) show ?thesis by (subst (asm) source_partition_loop.simps) simp
  next
    case True
    define t where "t = ?L * i div n"
    have t: "partition_target ?L i n = t" "t < ?L"
      using True assms(1,4) valid_slice_usize [OF valid_content [OF less.prems(3)]]
      by (simp_all add: t_def partition_target_exact target_less)
    have k: "(n - i) * K = K + (n - Suc i) * K" using True by (simp add: Suc_diff_Suc flip: mult_Suc)
    have dec: "n - Suc i < n - i" using True by simp
    show ?thesis
    proof (cases "t \<le> l")
      case skip: True
      then have "source_partition_loop src bptr p ?L n (Suc i) l buffer s = Ret (r, s')"
        using less.prems(7) True t by (subst (asm) source_partition_loop.simps) (simp add: Let_def)
      from less.hyps [OF dec zero_less_Suc less.prems(2-6) this] show ?thesis unfolding K_def [symmetric] k by linarith
    next
      case False
      then have lt: "l < t" by simp
      from source_partition_step [OF less.prems(3) assms(2,3) less.prems(4,5) True t lt, of bptr]
      obtain buf s1 stop where s1: "sinv s1" "length buf = length buffer"
        and reads: "target_reads src bptr p ?L t buffer s stop s1"
        and step: "(\<exists>e. source_partition_loop src bptr p ?L n i l buffer s = Ret (Inl e, s1)) \<or>
          source_partition_loop src bptr p ?L n i l buffer s = Ret (Inr [?L], s1) \<or>
          stop \<le> ?cut t \<and> source_partition_loop src bptr p ?L n i l buffer s =
            rmap (\<lambda>(r, s'). (map_sum id ((#) (?cut t)) r, s')) (source_partition_loop src bptr p ?L n (i + 1) (?cut t) buf s1)"
        by blast
      have one: "t \<le> stop" "stop \<le> ?L" "asked s1 \<le> asked s + K + 4 * (stop - t)"
        using target_reads_asked [OF less.prems(3) assms(2,3) less.prems(4,5) _ less.prems(6) reads] t(2) by (simp_all add: K_def)
      have final: ?thesis if "s' = s1"
      proof -
        have "4 * (stop - t) \<le> 4 * (?L - l)" using one(1,2) lt by simp
        then show ?thesis using one(3) le0 [of "(n - Suc i) * K"] unfolding that K_def [symmetric] k by linarith
      qed
      from step show ?thesis
      proof (elim disjE conjE exE)
        assume le: "stop \<le> ?cut t" and eq: "source_partition_loop src bptr p ?L n i l buffer s =
            rmap (\<lambda>(r, s'). (map_sum id ((#) (?cut t)) r, s')) (source_partition_loop src bptr p ?L n (i + 1) (?cut t) buf s1)"
        obtain r' where rec_run: "source_partition_loop src bptr p ?L n (Suc i) (?cut t) buf s1 = Ret (r', s')"
          using less.prems(7) unfolding eq by (auto simp: rmap_Ret_iff)
        have cut: "?cut t \<le> ?L" using t(2) by (simp add: record_cut_le)
        have b1: "valid_slice buf" "length p \<le> length buf" "2 * (length p - 1) \<le> length buf"
          using less.prems(4-6) unfolding s1(2) by (simp_all add: valid_slice_def s1(2))
        have "asked s' \<le> asked s1 + (n - Suc i) * K + 4 * (?L - ?cut t)"
          using less.hyps [OF dec zero_less_Suc cut s1(1) b1 rec_run] unfolding s1(2) K_def .
        moreover have "4 * (stop - t) + 4 * (?L - ?cut t) \<le> 4 * (?L - l)" using one(1) le lt cut by simp
        ultimately show ?thesis using one(3) unfolding K_def [symmetric] k by linarith
      qed (use less.prems(7) final in simp_all)
    qed
  qed
qed

lemma probe_cost_bound:
  "length p + probe_cost p (first_probe p buffer) \<le> ADAPTIVE_INITIAL_PROBE_BYTES + 7 * length p" if "2 * (length p - 1) \<le> length buffer"
  using that by (auto simp: probe_cost_def ADAPTIVE_INITIAL_PROBE_BYTES_def max_def min_def)

lemma planner_asked:
  assumes "sinv s" "valid_slice p" "p \<noteq> []" "2 * length p \<le> max scan 2"
    "plan_partition_boundaries alloc bptr src n p scan s = Ret (r, s')"
  shows "asked s' \<le> asked s + 4 * length content + (min n (length content) - 1) * (ADAPTIVE_INITIAL_PROBE_BYTES + 7 * length p)"
proof (cases "content = [] \<or> n \<le> 1 \<or> max (max scan (slen p)) 1 > isize_max \<or> \<not> alloc (max (max scan (slen p)) 1)")
  case True
  with assms(3,5) have "s' = s"
    by (auto simp: plan_partition_boundaries_def no_slice [OF assms(1)] len_content [OF assms(1)] Let_def split: if_splits)
  then show ?thesis by simp
next
  case False
  let ?L = "length content" and ?b = "replicate (max (max scan (slen p)) 1) (0 :: byte)" and ?n = "min n (length content)"
  have b: "valid_slice ?b" "length p \<le> length ?b" using False assms(2) by (auto simp: valid_slice_def not_less)
  have probe: "2 * (length p - 1) \<le> length ?b" using assms(2,4) by (auto simp: max_def split: if_splits)
  obtain r' where "source_partition_loop src bptr p ?L ?n 1 0 ?b s = Ret (r', s')"
    using assms(3,5) False
    by (auto simp: plan_partition_boundaries_def no_slice [OF assms(1)] len_content [OF assms(1)] Let_def rmap_Ret_iff
        simp del: replicate_Suc split: if_splits)
  from partition_loop_asked [OF _ assms(2,3) _ zero_less_one _ assms(1) b probe this] False
  have "asked s' \<le> asked s + (?n - 1) * (length p + probe_cost p (first_probe p ?b)) + 4 * ?L" by simp
  moreover have "(?n - 1) * (length p + probe_cost p (first_probe p ?b)) \<le> (?n - 1) * (ADAPTIVE_INITIAL_PROBE_BYTES + 7 * length p)"
    by (intro mult_left_mono probe_cost_bound [OF probe]) simp
  ultimately show ?thesis by linarith
qed

end

subsection \<open>The counting source reads completely\<close>

lemma fetch_add_le: "fetch_add counter n \<le> counter + n"
  by (simp add: fetch_add_def)

lemma counting_read:
  assumes "valid_slice (cs_data d)" "valid_slice out"
    "n = (if off \<ge> length (cs_data d) \<or> out = [] then 0 else min (min (length out) (cs_max_read d)) (length (cs_data d) - off))"
  obtains s1 where "bs_read_at (counting_ops d) off out s = Ret (Inr n, take n (drop off (cs_data d)) @ drop n out, s1)"
    "cs_requested s1 \<le> cs_requested s + length out" "cs_returned s1 \<le> cs_returned s + length out"
proof (cases "off \<ge> length (cs_data d) \<or> out = []")
  case True
  then show ?thesis using assms fetch_add_le [of "cs_requested s" "length out"]
    by (intro that) (auto simp: counting_ops_def counting_read_at_def Let_def)
next
  case False
  then have n: "n = min (min (length out) (cs_max_read d)) (length (cs_data d) - off)" using assms(3) by simp
  then have "off + n \<le> length (cs_data d)" "n \<le> length out" using False by auto
  moreover have "fetch_add (cs_returned s) n \<le> cs_returned s + length out"
    using fetch_add_le [of "cs_returned s" n] \<open>n \<le> length out\<close> by linarith
  ultimately show ?thesis using False assms(1,2) n
    by (intro that) (auto simp: counting_ops_def counting_read_at_def Let_def slice_range_def fetch_add_le)
qed

text \<open>Whatever it reads at most per call, it is a source; with no limit, it reads completely.\<close>

interpretation counting_any: byte_source "counting_ops d" "cs_data d" "\<lambda>c. valid_slice (cs_data d) \<and> 0 < cs_max_read d"
  for d
proof
  fix s out off
  assume s: "valid_slice (cs_data d) \<and> 0 < cs_max_read d" and out: "valid_slice (out :: bytes)"
  let ?n = "if off \<ge> length (cs_data d) \<or> out = [] then 0 else min (min (length out) (cs_max_read d)) (length (cs_data d) - off)"
  have n: "?n \<le> length out" "?n \<le> length (cs_data d) - off" by auto
  obtain s1 where eq: "bs_read_at (counting_ops d) off out s = Ret (Inr ?n, take ?n (drop off (cs_data d)) @ drop ?n out, s1)"
    using counting_read [of d out ?n off s] s out by blast
  show "\<exists>r out' s'. bs_read_at (counting_ops d) off out s = Ret (r, out', s') \<and>
      (valid_slice (cs_data d) \<and> 0 < cs_max_read d) \<and> length out' = length out"
    using s n unfolding eq by auto
  show "n \<le> length out \<and> n \<le> length (cs_data d) - off \<and> take n out' = take n (drop off (cs_data d)) \<and>
      (n = 0 \<longrightarrow> out = [] \<or> length (cs_data d) \<le> off)"
    if "bs_read_at (counting_ops d) off out s = Ret (Inr n, out', s')" for n out' s'
    using that s n unfolding eq by (auto simp: min_def split: if_splits)
qed (auto simp: counting_ops_def)

lemma counting_complete:
  assumes "valid_slice (cs_data d) \<and> isize_max \<le> cs_max_read d" "valid_slice out"
    "bs_read_at (counting_ops d) off out s = Ret (r, out', s')"
  shows "cs_requested s' \<le> cs_requested s + length out" "cs_returned s' \<le> cs_returned s + length out"
    "r = Inr n \<Longrightarrow> n = min (length out) (length (cs_data d) - off)"
proof -
  let ?n = "if off \<ge> length (cs_data d) \<or> out = [] then 0 else min (min (length out) (cs_max_read d)) (length (cs_data d) - off)"
  obtain s1 where eq: "bs_read_at (counting_ops d) off out s = Ret (Inr ?n, take ?n (drop off (cs_data d)) @ drop ?n out, s1)"
    and le: "cs_requested s1 \<le> cs_requested s + length out" "cs_returned s1 \<le> cs_returned s + length out"
    using counting_read [of d out ?n off s] assms(1,2) by blast
  show "cs_requested s' \<le> cs_requested s + length out" "cs_returned s' \<le> cs_returned s + length out"
    using assms(3) le unfolding eq by auto
  show "n = min (length out) (length (cs_data d) - off)" if "r = Inr n"
    using that assms unfolding eq by (auto simp: valid_slice_def)
qed

lemma counting_valid: "valid_slice (cs_data d) \<and> isize_max \<le> cs_max_read d \<Longrightarrow> valid_slice (cs_data d) \<and> 0 < cs_max_read d"
  by (simp add: max_consts)

interpretation counting_full: byte_source "counting_ops d" "cs_data d" "\<lambda>c. valid_slice (cs_data d) \<and> isize_max \<le> cs_max_read d"
  for d
proof
  fix s out off
  assume s: "valid_slice (cs_data d) \<and> isize_max \<le> cs_max_read d" and out: "valid_slice (out :: bytes)"
  note v = counting_valid [OF s]
  show "\<exists>r out' s'. bs_read_at (counting_ops d) off out s = Ret (r, out', s') \<and>
      (valid_slice (cs_data d) \<and> isize_max \<le> cs_max_read d) \<and> length out' = length out"
    using counting_any.read_total [OF v out] s by blast
  show "n \<le> length out \<and> n \<le> length (cs_data d) - off \<and> take n out' = take n (drop off (cs_data d)) \<and>
      (n = 0 \<longrightarrow> out = [] \<or> length (cs_data d) \<le> off)"
    if "bs_read_at (counting_ops d) off out s = Ret (Inr n, out', s')" for n out' s'
    using counting_any.read_exact [OF v out that] by blast
qed (auto simp: counting_ops_def)

interpretation counting_src: full_source "counting_ops d" "cs_data d"
    "\<lambda>c. valid_slice (cs_data d) \<and> isize_max \<le> cs_max_read d" cs_requested
  for d
  by unfold_locales (use counting_complete in \<open>auto simp: counting_ops_def\<close>)

interpretation counting_ret: full_source "counting_ops d" "cs_data d"
    "\<lambda>c. valid_slice (cs_data d) \<and> isize_max \<le> cs_max_read d" cs_returned
  for d
  by unfold_locales (use counting_complete in \<open>auto simp: counting_ops_def\<close>)

subsection \<open>Positional reads\<close>

text \<open>What a trace asked the operating system to read.\<close>

fun event_bytes :: "event \<Rightarrow> nat" where
  "event_bytes (SysPread h off n, r) = n"
| "event_bytes (c, r) = 0"

definition pread_bytes :: "trace \<Rightarrow> nat" where
  "pread_bytes tr = sum_list (map event_bytes tr)"

lemma pread_bytes_do [simp]: "pread_bytes (sys_do env c tr) = pread_bytes tr + event_bytes (c, env_sys env tr c)"
  by (simp add: pread_bytes_def sys_do_def)

text \<open>A positional read of a regular file that succeeds stops early only at the end of the file.\<close>

definition complete_reads :: "os_env \<Rightarrow> (path \<Rightarrow> bytes) \<Rightarrow> bool" where
  "complete_reads env files \<longleftrightarrow>
     (\<forall>tr h p off n bs. env_trace env tr \<and> handle_path tr h = Some p \<and> env_pread env tr h off n = Inr bs \<longrightarrow>
        length bs = min n (length (files p) - off))"

lemma pread_asked:
  assumes "complete_reads env files" "pread_source_inv env R0 R files path f tr" "valid_slice out"
    "pread_read_at env f off out tr = (r, out', tr')"
  shows "pread_bytes tr' \<le> pread_bytes tr + length out \<and> (\<forall>n. r = Inr n \<longrightarrow> n = min (length out) (length (files path) - off))"
proof (cases "out = [] \<or> length (files path) \<le> off")
  case True
  with assms(2,4) show ?thesis by (auto simp: pread_read_at_def pread_source_inv_def)
next
  case False
  let ?n = "min (length out) (length (files path) - off)" and ?h = "ps_file f"
  have tr: "env_trace env tr" "handle_path tr ?h = Some path" using assms(2) by (simp_all add: pread_source_inv_def pread_inv_def)
  have run: "pread_loop env ?h off ?n 0 out tr = (r, out', tr')"
    using False assms(2-4) by (simp add: pread_read_at_def pread_source_inv_def Let_def)
  define part where "part = take ?n out"
  have part: "length part = ?n" "0 < ?n" using False by (auto simp: part_def)
  let ?tr1 = "sys_do env (SysPread ?h off ?n) tr"
  note unfold = pread_loop.simps [of env ?h off ?n]
  have asked: "pread_bytes ?tr1 \<le> pread_bytes tr + length out" by simp
  show ?thesis
  proof (cases "env_pread env tr ?h off ?n")
    case (Inl e)
    with run part asked show ?thesis
      by (subst (asm) unfold) (auto simp: read_exact_at_def Let_def part_def [symmetric])
  next
    case (Inr bs)
    then have bs: "length bs = ?n" using assms(1) tr unfolding complete_reads_def by fastforce
    have last: "pread_loop env ?h off ?n ?n b t = (Inr ?n, b, t)" for b t by (subst unfold) simp
    have "pread_loop env ?h off ?n 0 out tr = (Inr ?n, bs @ drop ?n out, ?tr1)"
      using part Inr bs last by (subst unfold) (auto simp: read_exact_at_def Let_def part_def [symmetric])
    with run asked show ?thesis by auto
  qed
qed

interpretation pread_full: full_source "pread_source env f" "files path"
    "\<lambda>tr. pread_source_inv env R0 R files path f tr \<and> complete_reads env files" pread_bytes
  for env R0 R files path f
proof
  fix s out off
  assume s: "pread_source_inv env R0 R files path f s \<and> complete_reads env files" and out: "valid_slice (out :: bytes)"
  show "\<exists>r out' s'. bs_read_at (pread_source env f) off out s = Ret (r, out', s') \<and>
      (pread_source_inv env R0 R files path f s' \<and> complete_reads env files) \<and> length out' = length out"
    using pread_src.read_total [of env R0 R files path f s out off] s out by auto
  show "n \<le> length out \<and> n \<le> length (files path) - off \<and> take n out' = take n (drop off (files path)) \<and>
      (n = 0 \<longrightarrow> out = [] \<or> length (files path) \<le> off)"
    if "bs_read_at (pread_source env f) off out s = Ret (Inr n, out', s')" for n out' s'
    using pread_src.read_exact [of env R0 R files path f s out off n out' s'] s out that by blast
  show "pread_bytes s' \<le> pread_bytes s + length out \<and> (\<forall>n. r = Inr n \<longrightarrow> n = min (length out) (length (files path) - off))"
    if "bs_read_at (pread_source env f) off out s = Ret (r, out', s')" for r out' s'
    using pread_asked [of env files R0 R path f s out off r out' s'] s out that by (simp add: pread_source_def)
qed (auto simp: pread_source_inv_def pread_source_def)

lemma pread_open_bytes: "pread_open_path pf env path tr = (r, tr') \<Longrightarrow> pread_bytes tr' = pread_bytes tr"
  by (auto simp: pread_open_path_def probe_mmap_eligible_def std_open_def std_close_def sys_call_def Let_def
      split: sum.splits if_splits prod.splits)

lemma pread_plan_asked:
  assumes c: "os_contract env files" "complete_reads env files" "env_trace env tr" and R: "run_res tr R0 = Some R"
    and p: "valid_slice p" "p \<noteq> []" "2 * length p \<le> max (po_scan_buffer_bytes opts) 2"
    and mode: "po_mode opts = Pread" and run: "plan_partition_ranges pf env alloc bptr path n p opts tr = Ret (r, tr')"
  shows "pread_bytes tr' \<le> pread_bytes tr + 4 * length (files path) +
     (min n (length (files path)) - 1) * (ADAPTIVE_INITIAL_PROBE_BYTES + 7 * length p)"
proof (cases "n = 0")
  case True
  with run p(2) show ?thesis by (simp add: plan_partition_ranges_def)
next
  case False
  obtain ro t1 where o: "pread_open_path pf env path tr = (ro, t1)" by force
  note bytes = pread_open_bytes [OF o] and spec = pread_open_spec [OF c(1,3) o R]
  show ?thesis
  proof (cases ro)
    case (Inl e)
    with run False mode p(2) o bytes show ?thesis by (auto simp: plan_partition_ranges_def Let_def)
  next
    case (Inr f)
    define buffer where "buffer = max (po_scan_buffer_bytes opts) 1"
    from run False mode p(2) o Inr obtain t2 where
      plan: "plan_partition_boundaries alloc bptr (pread_source env f) n p buffer t1 = Ret (r, t2)"
      and tr': "tr' = std_close pf env (ps_file f) t2"
      by (auto simp: plan_partition_ranges_def Let_def rmap_Ret_iff buffer_def)
    have inv: "pread_source_inv env R0 R files path f t1 \<and> complete_reads env files" using spec Inr c(2) by blast
    have buf: "2 * length p \<le> max buffer 2" using p(3) by (auto simp: buffer_def)
    have "pread_bytes tr' = pread_bytes t2" by (simp add: tr' std_close_def)
    with pread_full.planner_asked [OF inv p(1,2) buf plan] bytes show ?thesis by simp
  qed
qed

subsection \<open>Claims\<close>

text \<open>
  Claim C19: the buffered planner reads a bounded multiple of the file. With a scan buffer of at
  least twice the delimiter, planning \<open>n\<close> ranges asks a source that reads completely for at most
  four times the file plus, for each inner boundary, one initial probe of 4 KiB and seven
  delimiters. This holds of the counting source of the tests and, in bytes requested from the
  operating system, of planning a path with positional reads.
\<close>

theorem planner_read_bound:
  assumes "os_contract env files" "complete_reads env files" "env_trace env tr" "run_res tr R0 = Some R"
    "po_mode opts = Pread" "po_scan_buffer_bytes opts = scan" "valid_slice data" "isize_max \<le> max_read"
    "valid_slice delimiter" "delimiter \<noteq> []" "2 * length delimiter \<le> max scan 2"
  shows "(\<exists>r tr'. plan_partition_ranges pf env alloc bptr path n delimiter opts tr = Ret (r, tr') \<and>
       pread_bytes tr' \<le> pread_bytes tr + 4 * length (files path) +
         (min n (length (files path)) - 1) * (4096 + 7 * length delimiter)) \<and>
     (let (source, state) = counting_new data max_read in
      \<exists>r state'. plan_partition_boundaries alloc bptr (counting_ops source) n delimiter scan state = Ret (r, state') \<and>
        fst (snd (counting_totals state')) \<le> 4 * length data + (min n (length data) - 1) * (4096 + 7 * length delimiter))"
proof -
  obtain r tr' where run: "plan_partition_ranges pf env alloc bptr path n delimiter opts tr = Ret (r, tr')"
    using plan_partition_ranges_spec [OF assms(1,3,4,9,10), of pf alloc bptr path n opts] by blast
  define d where "d = \<lparr>cs_data = data, cs_max_read = max_read\<rparr>"
  define c where "c = \<lparr>cs_calls = 0, cs_requested = 0, cs_returned = 0\<rparr>"
  have inv: "valid_slice (cs_data d) \<and> isize_max \<le> cs_max_read d" using assms(7,8) by (simp add: d_def)
  obtain r2 c2 where plan: "plan_partition_boundaries alloc bptr (counting_ops d) n delimiter scan c = Ret (r2, c2)"
    using counting_full.plan_partition_boundaries_run
      [where s = c and alloc = alloc and bptr = bptr and n = n and scan = scan, OF inv assms(9,10)] by blast
  show ?thesis
    using run plan pread_plan_asked [OF assms(1-4,9,10) _ assms(5) run] counting_src.planner_asked [OF inv assms(9-11) plan] assms(6,11)
    by (simp add: counting_new_def counting_totals_def ADAPTIVE_INITIAL_PROBE_BYTES_def flip: d_def c_def) (simp add: d_def c_def)
qed

theorem planner_read_bound_witness:
  "\<exists>r tr'. plan_partition_ranges Unix (sim_env (\<lambda>_. [97, 10, 98, 10])) (\<lambda>_. True) 0 ''f'' 2 [10] (planner_new Pread) [] = Ret (r, tr') \<and>
     pread_bytes tr' \<le> 4119"
proof -
  let ?files = "\<lambda>_ :: path. [97, 10, 98, 10] :: byte list" and ?R = "\<lparr>res_handles = [], res_maps = []\<rparr>"
  have c: "os_contract (sim_env ?files) ?files" by (rule sim_contract) (simp add: sim_unit_def)
  have all: "complete_reads (sim_env ?files) ?files" by (auto simp: complete_reads_def sim_env_def)
  have R: "run_res [] ?R = Some ?R" by simp
  have opts: "po_mode (planner_new Pread) = Pread" "po_scan_buffer_bytes (planner_new Pread) = DEFAULT_SCAN_BUFFER_BYTES"
    by (simp_all add: planner_new_def planner_default_def)
  have v: "valid_slice [97 :: byte, 10]" "isize_max \<le> usize_max" "valid_slice [10 :: byte]" "[10 :: byte] \<noteq> []"
    "2 * length [10 :: byte] \<le> max DEFAULT_SCAN_BUFFER_BYTES 2"
    by (simp_all add: valid_slice_def max_consts)
  from planner_read_bound [OF c all env_trace_Nil R opts v, of Unix "\<lambda>_. True" 0 "''f''" 2] show ?thesis by (auto simp: pread_bytes_def)
qed

end
