(* ===== verification/Fuzz_Harness.thy ===== *)
theory Fuzz_Harness
  imports Scanner_Partition
begin

section \<open>The fuzz targets\<close>

text \<open>
  The two fuzz targets of \<open>src/fuzz/fuzz_targets\<close>, complete: \<open>scanner_differential\<close> decodes
  its input into a scan or a plan, runs the scanner and its own scalar loops on it and asserts
  that they agree; \<open>fixed_extremes\<close> does the same for the fixed-size arithmetic against 128-bit
  oracles. Every assertion, index and slice of the harness is a possible panic here, so that a
  target that returns on every input is a statement about the library and about the harness.
\<close>

definition rassert :: "bool \<Rightarrow> unit run" where
  "rassert b = (if b then Ret () else Panic ''assertion failed'')"

text \<open>A \<open>for\<close> loop whose body may panic.\<close>

fun for_each :: "('a \<Rightarrow> unit run) \<Rightarrow> 'a list \<Rightarrow> unit run" where
  "for_each f [] = Ret ()"
| "for_each f (x # xs) = rbind (f x) (\<lambda>_. for_each f xs)"

subsection \<open>Decoding the input of scanner\_differential\<close>

definition max_source_len :: nat where
  "max_source_len = 4 * 1024"

definition max_pattern_len :: nat where
  "max_pattern_len = 32"

definition max_partitions :: nat where
  "max_partitions = 64"

definition byte_text :: "string \<Rightarrow> bytes" where
  "byte_text s = map of_char s"

definition fuzz_read_usize :: "bytes \<Rightarrow> nat" where
  "fuzz_read_usize bs =
     (if bs = byte_text ''ZEROZERO'' then 0
      else if bs = byte_text ''MAXXXXXX'' then usize_max
      else
        let copied = min (length bs) 8;
            word = take copied bs @ replicate (8 - copied) 0
        in unat (u64_from_le_bytes word))"

definition decode_delimiter :: "byte \<Rightarrow> byte" where
  "decode_delimiter b = (if b = of_char (CHR ''N'') then 0 else if b = of_char (CHR ''F'') then 255 else b)"

subsection \<open>The oracles and assertions of scanner\_differential\<close>

fun fuzz_cover_loop :: "bytes \<Rightarrow> nat \<Rightarrow> brange list \<Rightarrow> unit run" where
  "fuzz_cover_loop data previous_end [] = Ret ()"
| "fuzz_cover_loop data previous_end ((s, e) # rs) =
     rbind (rassert (s = previous_end)) (\<lambda>_.
     rbind (rassert (s < e)) (\<lambda>_.
     rbind (rassert (e \<le> slen data)) (\<lambda>_.
     fuzz_cover_loop data e rs)))"

definition fuzz_assert_cover :: "bytes \<Rightarrow> brange list \<Rightarrow> unit run" where
  "fuzz_assert_cover data ranges =
     (if data = [] then rassert (ranges = [])
      else
        rbind (rassert ((case ranges of [] \<Rightarrow> None | r # _ \<Rightarrow> Some (fst r)) = Some 0)) (\<lambda>_.
        rbind (rassert ((if ranges = [] then None else Some (snd (last ranges))) = Some (slen data))) (\<lambda>_.
        fuzz_cover_loop data 0 ranges)))"

text \<open>The inner loop of \<open>scalar_single\<close> and of \<open>scalar_partition\<close>.\<close>

function fuzz_scan :: "bytes \<Rightarrow> byte \<Rightarrow> nat \<Rightarrow> nat run" where
  "fuzz_scan data delimiter pos =
     (if pos < slen data then
        rbind (index_at data pos) (\<lambda>b.
          if b \<noteq> delimiter then fuzz_scan data delimiter (pos + 1) else Ret pos)
      else Ret pos)"
  by pat_completeness auto
termination
  by (relation "measure (\<lambda>(data, d, pos). slen data - pos)") auto

declare fuzz_scan.simps [simp del]

lemma fuzz_scan_ge: "fuzz_scan data d t = Ret e \<Longrightarrow> t \<le> e"
proof (induction data d t rule: fuzz_scan.induct)
  case (1 data d t)
  from "1.prems" show ?case
    using "1.IH" by (subst (asm) fuzz_scan.simps) (auto simp: rbind_Ret_iff split: if_splits dest!: Suc_leD)
qed

definition fuzz_single_end :: "bytes \<Rightarrow> nat \<Rightarrow> byte \<Rightarrow> nat \<Rightarrow> nat run" where
  "fuzz_single_end data step delimiter start =
     (let target = sat_add start step in
      if target \<ge> slen data then Ret (slen data)
      else rmap (\<lambda>pos. min (sat_add pos 1) (slen data)) (fuzz_scan data delimiter target))"

lemma fuzz_single_end_gt:
  assumes "start < slen data" "fuzz_single_end data (max n 1) d start = Ret e"
  shows "start < e"
proof (cases "slen data \<le> sat_add start (max n 1)")
  case True
  with assms show ?thesis by (simp add: fuzz_single_end_def)
next
  case False
  then obtain pos where pos: "fuzz_scan data d (sat_add start (max n 1)) = Ret pos" "e = min (sat_add pos 1) (slen data)"
    using assms(2) by (auto simp: fuzz_single_end_def)
  have "start < pos" using sat_step_gt [OF assms(1), of n] fuzz_scan_ge [OF pos(1)] by simp
  then show ?thesis using assms(1) pos(2) slen_le_usize_max [of data] by (auto simp: sat_add_def)
qed

function fuzz_single_loop :: "bytes \<Rightarrow> nat \<Rightarrow> byte \<Rightarrow> nat \<Rightarrow> brange list run" where
  "fuzz_single_loop data chunk_size delimiter start =
     (if start < slen data then
        rbind (fuzz_single_end data (max chunk_size 1) delimiter start) (\<lambda>e.
          rmap ((#) (start, e)) (fuzz_single_loop data chunk_size delimiter e))
      else Ret [])"
  by pat_completeness auto
termination
proof (relation "measure (\<lambda>(data, n, d, start). slen data - start)")
  fix data n d start e
  assume "start < slen data" "fuzz_single_end data (max n 1) d start = Ret e"
  then show "((data, n, d, e), data, n, d, start) \<in> measure (\<lambda>(data, n, d, start). slen data - start)"
    using fuzz_single_end_gt [of start data n d e] by (simp add: diff_less_mono2)
qed simp

declare fuzz_single_loop.simps [simp del]

definition scalar_single :: "bytes \<Rightarrow> nat \<Rightarrow> byte \<Rightarrow> brange list run" where
  "scalar_single data chunk_size delimiter = fuzz_single_loop data chunk_size delimiter 0"

text \<open>
  The inner loop of \<open>scalar_pattern\<close>. The bound of the loop saturates: for a pattern longer than
  the data it is 0, and the slice of a candidate at 0 would be out of range.
\<close>

function fuzz_pattern_scan :: "bytes \<Rightarrow> bytes \<Rightarrow> nat \<Rightarrow> nat run" where
  "fuzz_pattern_scan data pattern candidate =
     (if candidate \<le> sat_sub (slen data) (slen pattern) then
        rbind (slice_range data candidate (candidate + slen pattern)) (\<lambda>w.
          if w = pattern then Ret (candidate + slen pattern)
          else fuzz_pattern_scan data pattern (candidate + 1))
      else Ret (slen data))"
  by pat_completeness auto
termination
  by (relation "measure (\<lambda>(data, p, c). Suc (slen data) - c)") (auto simp: sat_sub_def)

declare fuzz_pattern_scan.simps [simp del]

definition fuzz_pattern_end :: "bytes \<Rightarrow> nat \<Rightarrow> bytes \<Rightarrow> nat \<Rightarrow> nat run" where
  "fuzz_pattern_end data step pattern start =
     (let target = sat_add start step in
      if target \<ge> slen data then Ret (slen data) else fuzz_pattern_scan data pattern target)"

lemma fuzz_pattern_scan_ge: "fuzz_pattern_scan data p c = Ret e \<Longrightarrow> c \<le> e \<or> e = slen data"
proof (induction data p c rule: fuzz_pattern_scan.induct)
  case (1 data p c)
  from "1.prems" show ?case
    using "1.IH" by (subst (asm) fuzz_pattern_scan.simps) (auto simp: rbind_Ret_iff split: if_splits)
qed

lemma fuzz_pattern_end_gt:
  assumes "start < slen data" "fuzz_pattern_end data (max n 1) p start = Ret e"
  shows "start < e"
  using assms sat_step_gt [OF assms(1), of n] fuzz_pattern_scan_ge [of data p "sat_add start (max n 1)" e]
  by (auto simp: fuzz_pattern_end_def Let_def split: if_splits)

function fuzz_pattern_loop :: "bytes \<Rightarrow> nat \<Rightarrow> bytes \<Rightarrow> nat \<Rightarrow> brange list run" where
  "fuzz_pattern_loop data chunk_size pattern start =
     (if start < slen data then
        rbind (fuzz_pattern_end data (max chunk_size 1) pattern start) (\<lambda>e.
          rmap ((#) (start, e)) (fuzz_pattern_loop data chunk_size pattern e))
      else Ret [])"
  by pat_completeness auto
termination
proof (relation "measure (\<lambda>(data, n, d, start). slen data - start)")
  fix data n d start e
  assume "start < slen data" "fuzz_pattern_end data (max n 1) d start = Ret e"
  then show "((data, n, d, e), data, n, d, start) \<in> measure (\<lambda>(data, n, d, start). slen data - start)"
    using fuzz_pattern_end_gt [of start data n d e] by (simp add: diff_less_mono2)
qed simp

declare fuzz_pattern_loop.simps [simp del]

definition scalar_pattern :: "bytes \<Rightarrow> nat \<Rightarrow> bytes \<Rightarrow> brange list run" where
  "scalar_pattern data chunk_size pattern =
     rbind (rassert (pattern \<noteq> [])) (\<lambda>_. fuzz_pattern_loop data chunk_size pattern 0)"

function fuzz_partition_loop :: "bytes \<Rightarrow> byte \<Rightarrow> nat \<Rightarrow> nat \<Rightarrow> nat \<Rightarrow> nat list run" where
  "fuzz_partition_loop data delimiter n i last_cut =
     (if i < n then
        let target = partition_target (slen data) i n
        in if target \<le> last_cut then fuzz_partition_loop data delimiter n (i + 1) last_cut
           else rbind (index_at data (target - 1)) (\<lambda>b.
             if b = delimiter then rmap ((#) target) (fuzz_partition_loop data delimiter n (i + 1) target)
             else rbind (fuzz_scan data delimiter target) (\<lambda>pos.
               let cut_at = min (sat_add pos 1) (slen data)
               in rmap ((#) cut_at)
                    (if cut_at = slen data then Ret []
                     else fuzz_partition_loop data delimiter n (i + 1) cut_at)))
      else Ret [])"
  by pat_completeness auto
termination
  by (relation "measure (\<lambda>(data, d, n, i, last). n - i)") auto

declare fuzz_partition_loop.simps [simp del]

fun fuzz_ranges_loop :: "nat \<Rightarrow> nat \<Rightarrow> nat list \<Rightarrow> brange list" where
  "fuzz_ranges_loop len start [] = (if start < len then [(start, len)] else [])"
| "fuzz_ranges_loop len start (e # cuts) =
     (if e > start then [(start, e)] else []) @ fuzz_ranges_loop len e cuts"

definition scalar_partition :: "bytes \<Rightarrow> nat \<Rightarrow> byte \<Rightarrow> brange list run" where
  "scalar_partition data partitions delimiter =
     (if data = [] \<or> partitions = 0 then Ret []
      else if partitions = 1 then Ret [(0, slen data)]
      else rmap (fuzz_ranges_loop (slen data) 0)
             (fuzz_partition_loop data delimiter (min partitions (slen data)) 1 0))"

text \<open>The last assertion of the partition mode: every inner range ends after the delimiter.\<close>

definition fuzz_inner_end :: "bytes \<Rightarrow> byte \<Rightarrow> brange list \<Rightarrow> nat \<Rightarrow> unit run" where
  "fuzz_inner_end data delimiter actual index =
     (if index + 1 < length actual then
        let e = snd (actual ! index) in
        if e = 0 then Panic ''attempt to subtract with overflow''
        else rbind (index_at data (e - 1)) (\<lambda>b. rassert (b = delimiter))
      else Ret ())"

subsection \<open>The target scanner\_differential\<close>

text \<open>The addresses of the slices are those of the parts of the input buffer.\<close>

definition fuzz_single_arm :: "nat \<Rightarrow> bytes \<Rightarrow> unit run" where
  "fuzz_single_arm ptr rest =
     rbind (index_at rest 0) (\<lambda>b.
     let delimiter = decode_delimiter b in
     rbind (slice_range rest 1 9) (\<lambda>word.
     let chunk_size = fuzz_read_usize word in
     rbind (slice_range rest 9 (min (length rest) (9 + max_source_len))) (\<lambda>data.
     rbind (find_chunk_boundaries (ptr + 9) data chunk_size delimiter) (\<lambda>actual.
     rbind (scalar_single data chunk_size delimiter) (\<lambda>expected.
     rbind (rassert (actual = expected)) (\<lambda>_.
     rbind (fuzz_assert_cover data actual) (\<lambda>_.
     rbind (find_chunk_boundaries (ptr + 9) data chunk_size delimiter) (\<lambda>again.
     rassert (again = actual)))))))))"

definition fuzz_pattern_arm :: "nat \<Rightarrow> bytes \<Rightarrow> unit run" where
  "fuzz_pattern_arm ptr rest =
     rbind (index_at rest 0) (\<lambda>b.
     let declared_len = unat b mod max_pattern_len + 1;
         available = length rest - 9;
         pattern_len = min declared_len available in
     rbind (slice_range rest 9 (9 + pattern_len)) (\<lambda>pattern.
     let data_start = 9 + pattern_len in
     rbind (slice_range rest data_start (min (length rest) (data_start + max_source_len))) (\<lambda>data.
     rbind (slice_range rest 1 9) (\<lambda>word.
     let chunk_size = fuzz_read_usize word in
     rbind (find_chunk_boundaries_pattern (ptr + data_start) data chunk_size pattern) (\<lambda>actual.
     rbind (scalar_pattern data chunk_size pattern) (\<lambda>expected.
     rbind (rassert (actual = expected)) (\<lambda>_.
     rbind (fuzz_assert_cover data actual) (\<lambda>_.
     rbind (find_chunk_boundaries_pattern (ptr + data_start) data chunk_size pattern) (\<lambda>again.
     rassert (again = actual))))))))))"

definition fuzz_partition_arm :: "nat \<Rightarrow> bytes \<Rightarrow> unit run" where
  "fuzz_partition_arm ptr rest =
     rbind (index_at rest 0) (\<lambda>b.
     let delimiter = decode_delimiter b in
     rbind (index_at rest 1) (\<lambda>c.
     let partitions = unat c mod max_partitions + 1 in
     rbind (slice_range rest 2 (min (length rest) (2 + max_source_len))) (\<lambda>data.
     rbind (find_partition_boundaries (ptr + 2) data partitions delimiter) (\<lambda>actual.
     rbind (scalar_partition data partitions delimiter) (\<lambda>expected.
     rbind (rassert (actual = expected)) (\<lambda>_.
     rbind (fuzz_assert_cover data actual) (\<lambda>_.
     rbind (for_each (fuzz_inner_end data delimiter actual) [0..<length actual]) (\<lambda>_.
     rbind (find_partition_boundaries (ptr + 2) data partitions delimiter) (\<lambda>again.
     rassert (again = actual))))))))))"

definition scanner_differential :: "nat \<Rightarrow> bytes \<Rightarrow> unit run" where
  "scanner_differential ptr input =
     (case input of
        [] \<Rightarrow> Ret ()
      | mode # rest \<Rightarrow>
          (let arm = unat mode mod 3 in
           if arm = 0 \<and> length rest \<ge> 9 then fuzz_single_arm (ptr + 1) rest
           else if arm = 1 \<and> length rest \<ge> 10 then fuzz_pattern_arm (ptr + 1) rest
           else if arm = 2 \<and> length rest \<ge> 2 then fuzz_partition_arm (ptr + 1) rest
           else Ret ()))"

subsection \<open>The target fixed\_extremes\<close>

definition extremes_read_usize :: "bytes \<Rightarrow> nat \<Rightarrow> nat" where
  "extremes_read_usize input offset =
     (let tail = (if offset \<le> length input then drop offset input else []);
          available = min (length tail) 8;
          word = take available tail @ replicate (8 - available) 0
      in unat (u64_from_le_bytes word))"

definition assert_case :: "nat \<Rightarrow> nat \<Rightarrow> nat \<Rightarrow> unit run" where
  "assert_case file_len chunk_size index =
     (let actual_count = fixed_chunk_count file_len chunk_size;
          actual = fixed_chunk_bounds file_len chunk_size index in
      rbind (rassert (actual_count = oracle_count file_len chunk_size)) (\<lambda>_.
      rbind (rassert (actual = oracle_bounds file_len chunk_size index)) (\<lambda>_.
      if file_len = 0 then
        rbind (rassert (actual_count = 0)) (\<lambda>_. rassert (actual = None))
      else
        rbind (case actual of
                 Some (s, e) \<Rightarrow> rbind (rassert (s < e)) (\<lambda>_. rassert (e \<le> file_len))
               | None \<Rightarrow> Ret ()) (\<lambda>_.
        rbind (rassert (fixed_chunk_bounds file_len chunk_size actual_count = None)) (\<lambda>_.
        if actual_count = 0 then Panic ''attempt to subtract with overflow''
        else
          (case fixed_chunk_bounds file_len chunk_size (actual_count - 1) of
             None \<Rightarrow> Panic ''called `Option::unwrap()` on a `None` value''
           | Some final \<Rightarrow> rassert (snd final = file_len)))))))"

definition extremes :: "bytes \<Rightarrow> nat list" where
  "extremes input =
     (let bit = unat (case input of [] \<Rightarrow> 0 | b # _ \<Rightarrow> b) mod 64;
          power = as_usize (2 ^ bit)
      in [0, 1, usize_max, usize_max - 1, power, sat_sub power 1, sat_add power 1])"

definition fixed_extremes :: "bytes \<Rightarrow> unit run" where
  "fixed_extremes input =
     (let file_len = extremes_read_usize input 0;
          chunk_size = extremes_read_usize input 8;
          index = extremes_read_usize input 16 in
      rbind (assert_case file_len chunk_size index) (\<lambda>_.
      for_each (\<lambda>len. for_each (\<lambda>size. assert_case len size index) (extremes input)) (extremes input)))"

subsection \<open>The oracles compute the specifications\<close>

lemma rassert_True [simp]: "rassert True = Ret ()"
  by (simp add: rassert_def)

lemma for_each_Ret: "(\<And>x. x \<in> set xs \<Longrightarrow> f x = Ret ()) \<Longrightarrow> for_each f xs = Ret ()"
  by (induction xs) simp_all

lemma fuzz_scan_spec:
  "valid_slice data \<Longrightarrow> t \<le> length data \<Longrightarrow> fuzz_scan data d t = scalar_forward data d t"
proof (induction data d t rule: fuzz_scan.induct)
  case (1 data d t)
  then show ?case
    by (subst fuzz_scan.simps, subst scalar_forward.simps) (auto simp: index_at_def Suc_le_eq)
qed

lemma fuzz_scan_cut:
  assumes "valid_slice data" "t \<le> length data"
  shows "rmap (\<lambda>pos. min (sat_add pos 1) (slen data)) (fuzz_scan data d t) = Ret (next_cut [d] data t)"
proof -
  obtain pos where "scalar_forward data d t = Ret pos" "pos \<le> length data"
    "next_cut [d] data t = (if pos < length data then pos + 1 else length data)"
    using scalar_forward_next_cut [OF assms, of d] by blast
  then show ?thesis using assms valid_slice_usize [OF assms(1)] by (simp add: fuzz_scan_spec sat_add_def)
qed

lemma fuzz_single_end_spec:
  assumes "valid_slice data" "start < length data"
  shows "fuzz_single_end data (max n 1) d start = Ret (next_cut [d] data (start + max n 1))"
proof (cases "sat_add start (max n 1) \<ge> length data")
  case True
  with assms sat_step_cut(1) [OF assms True, of "[d]"] show ?thesis by (simp add: fuzz_single_end_def)
next
  case False
  then have "sat_add start (max n 1) = start + max n 1" "start + max n 1 < length data"
    using sat_step_cut(2) [OF assms, of n] by simp_all
  with assms fuzz_scan_cut [OF assms(1), of "start + max n 1" d] show ?thesis
    by (simp add: fuzz_single_end_def Let_def)
qed

lemma fuzz_pattern_scan_spec:
  assumes "valid_slice data" "valid_slice p" "p \<noteq> []"
  shows "0 < c \<Longrightarrow> fuzz_pattern_scan data p c = Ret (next_cut p data c)"
proof (induction "length data - c" arbitrary: c rule: less_induct)
  case less
  have len: "0 < length p" using assms(3) by simp
  show ?case
  proof (cases "c \<le> length data - length p")
    case True
    then have fit: "c + length p \<le> length data" "c < length data" using less.prems len by linarith+
    then have "slice_range data c (c + length p) = Ret (take (length p) (drop c data))"
      by (simp add: slice_range_def)
    moreover have "take (length p) (drop c data) = p \<longleftrightarrow> starts_with (drop c data) p"
      by (simp add: starts_with_def)
    ultimately show ?thesis
      using True fit assms less.hyps [of "c + 1"] next_cut_step [OF fit(2) assms(3)]
      by (subst fuzz_pattern_scan.simps) (simp add: sat_sub_def diff_less_mono2)
  next
    case False
    with assms less.prems show ?thesis
      by (subst fuzz_pattern_scan.simps) (simp add: sat_sub_def next_cut_short)
  qed
qed

lemma fuzz_pattern_end_spec:
  assumes "valid_slice data" "start < length data" "valid_slice p" "p \<noteq> []"
  shows "fuzz_pattern_end data (max n 1) p start = Ret (next_cut p data (start + max n 1))"
proof (cases "sat_add start (max n 1) \<ge> length data")
  case True
  with assms sat_step_cut(1) [OF assms(1,2) True, of p] show ?thesis by (simp add: fuzz_pattern_end_def)
next
  case False
  then have "sat_add start (max n 1) = start + max n 1" "start + max n 1 < length data"
    using sat_step_cut(2) [OF assms(1,2), of n] by simp_all
  with assms fuzz_pattern_scan_spec [OF assms(1,3,4), of "start + max n 1"] show ?thesis
    by (simp add: fuzz_pattern_end_def)
qed

lemma scalar_single_chunks:
  assumes "valid_slice data"
  shows "fuzz_single_loop data n d start = Ret (chunks_from [d] data n start)"
proof (induction "length data - start" arbitrary: start rule: less_induct)
  case less
  show ?case
  proof (cases "start < length data")
    case True
    with assms less next_cut_step_gt [OF True, of "[d]" n] show ?thesis
      by (subst fuzz_single_loop.simps, subst chunks_from.simps)
        (simp add: Let_def fuzz_single_end_spec [simplified] diff_less_mono2)
  next
    case False
    with assms show ?thesis by (subst fuzz_single_loop.simps, subst chunks_from.simps) simp
  qed
qed

lemma scalar_pattern_chunks:
  assumes "valid_slice data" "valid_slice p" "p \<noteq> []"
  shows "fuzz_pattern_loop data n p start = Ret (chunks_from p data n start)"
proof (induction "length data - start" arbitrary: start rule: less_induct)
  case less
  show ?case
  proof (cases "start < length data")
    case True
    with assms less next_cut_step_gt [OF True, of p n] show ?thesis
      by (subst fuzz_pattern_loop.simps, subst chunks_from.simps)
        (simp add: Let_def fuzz_pattern_end_spec [simplified] diff_less_mono2)
  next
    case False
    with assms show ?thesis by (subst fuzz_pattern_loop.simps, subst chunks_from.simps) simp
  qed
qed


lemma fuzz_partition_loop_spec:
  assumes "valid_slice data" "data \<noteq> []" "n \<le> length data" "0 < i"
  shows "fuzz_partition_loop data d n i l =
     Ret (plan_cuts (record_cut [d] data) (map (\<lambda>j. length data * j div n) [i..<n]) l)"
  using assms(4)
proof (induction "n - i" arbitrary: i l rule: less_induct)
  case less
  let ?L = "length data" and ?cut = "record_cut [d] data"
  show ?case
  proof (cases "i < n")
    case False
    then show ?thesis by (subst fuzz_partition_loop.simps) simp
  next
    case True
    define t where "t = ?L * i div n"
    have t: "partition_target (slen data) i n = t" "t < ?L"
      using True assms valid_slice_usize [OF assms(1)]
      by (simp_all add: t_def partition_target_exact target_less)
    have IH: "fuzz_partition_loop data d n (i + 1) l' =
        Ret (plan_cuts ?cut (map (\<lambda>j. ?L * j div n) [Suc i..<n]) l')" for l'
      using less.hyps [of "i + 1" l'] True by simp
    note upt = targets_unfold [OF True, of ?L, folded t_def]
    obtain pos where pos: "fuzz_scan data d t = Ret pos" "min (sat_add pos 1) (slen data) = next_cut [d] data t"
      using fuzz_scan_cut [OF assms(1), of t d] t(2) by auto
    note unfold = fuzz_partition_loop.simps [of data d n i l]
    show ?thesis
    proof (cases "l < t \<and> data ! (t - 1) \<noteq> d")
      case True
      then have "?cut t = next_cut [d] data t" by (simp add: record_cut_def ends_after_single)
      with True \<open>i < n\<close> IH t pos assms(2) later_targets_done [of ?L ?cut n "Suc i"] show ?thesis
        by (auto simp: unfold upt Let_def index_at_def assms(1))
    next
      case False
      moreover have "?cut t = t" if "l < t" using False that t by (simp add: record_cut_def ends_after_single)
      ultimately show ?thesis using \<open>i < n\<close> IH t by (auto simp: unfold upt Let_def index_at_def)
    qed
  qed
qed

lemma fuzz_ranges_cuts:
  "(\<forall>t\<in>set ts. t \<le> length data) \<Longrightarrow>
     fuzz_ranges_loop len l (plan_cuts (record_cut p data) ts l) = ranges_loop len l (plan_cuts (record_cut p data) ts l)"
proof (induction ts arbitrary: l)
  case (Cons t ts)
  then show ?case using record_cut_ge [of t data p] by simp
qed simp

lemma scalar_partition_spec:
  assumes "valid_slice data"
  shows "scalar_partition data n d = Ret (plan_spec (record_cut [d] data) (length data) (min n (length data)))"
proof -
  let ?n = "min n (length data)"
  consider "data = [] \<or> n = 0" | "data \<noteq> []" "n = 1" | (many) "data \<noteq> []" "n > 1" by linarith
  then show ?thesis
  proof cases
    case many
    have "scalar_partition data n d =
        Ret (fuzz_ranges_loop (length data) 0 (plan_cuts (record_cut [d] data) (ideal_targets (length data) ?n) 0))"
      using many assms fuzz_partition_loop_spec [OF assms many(1), of ?n 1 d 0]
      by (simp add: scalar_partition_def ideal_targets_def)
    moreover have "(?n = 0) = False" "(length data = 0) = False" using many by (auto simp: min_def)
    moreover have "\<forall>t\<in>set (ideal_targets (length data) ?n). t \<le> length data" by (blast intro: rec.ideal_targets_le)
    ultimately show ?thesis
      by (simp only: plan_spec_def fuzz_ranges_cuts simp_thms if_False)
  qed (use assms in \<open>auto simp: scalar_partition_def plan_spec_def plan_spec_one [simplified] min_def ideal_targets_def\<close>)
qed

subsection \<open>The assertions hold\<close>

lemma fuzz_cover_tiles: "valid_slice data \<Longrightarrow> tiles s rs (length data) \<Longrightarrow> fuzz_cover_loop data s rs = Ret ()"
  by (induction s rs "length data" rule: tiles.induct) (auto dest: tiles_le)

lemma fuzz_assert_cover_tiles:
  assumes "valid_slice data" "tiles 0 rs (length data)"
  shows "fuzz_assert_cover data rs = Ret ()"
  using assms tiles_Nil_iff [OF assms(2)] tiles_hd_last [OF assms(2)] fuzz_cover_tiles [OF assms]
  by (cases rs) (simp_all add: fuzz_assert_cover_def)

lemma tiles_inner: "tiles s rs e \<Longrightarrow> i + 1 < length rs \<Longrightarrow> snd (rs ! i) < e"
proof (induction s rs e arbitrary: i rule: tiles.induct)
  case (2 s a b rs e)
  then show ?case using tiles_nonempty_less [of b rs e] by (cases i) auto
qed simp

lemma fuzz_inner_ends:
  assumes "tiles 0 rs (length data)" "aligned [d] data rs"
  shows "for_each (fuzz_inner_end data d rs) [0..<length rs] = Ret ()"
proof (rule for_each_Ret)
  fix i assume "i \<in> set [0..<length rs]"
  then have "ends_after [d] data (snd (rs ! i))" if "i + 1 < length rs"
    using assms(2) tiles_inner [OF assms(1) that] nth_mem [of i rs] that unfolding aligned_def by fastforce
  then show "fuzz_inner_end data d rs i = Ret ()"
    by (auto simp: fuzz_inner_end_def ends_after_single index_at_def Let_def)
qed

lemma fuzz_single_arm_returns:
  assumes "valid_slice rest" "9 \<le> length rest"
  shows "fuzz_single_arm ptr rest = Ret ()"
proof -
  define data where "data = take (min (length rest) (9 + max_source_len) - 9) (drop 9 rest)"
  have slices: "slice_range rest 9 (min (length rest) (9 + max_source_len)) = Ret data"
    "slice_range rest 1 9 = Ret (take 8 (drop 1 rest))" "index_at rest 0 = Ret (rest ! 0)"
    using assms(2) by (auto simp: slice_range_def index_at_def data_def)
  have "valid_slice data" "scan_fits data n" for n
    using assms(1) by (simp_all add: data_def max_source_len_def scan_fits_small)
  then show ?thesis
    unfolding fuzz_single_arm_def Let_def slices rbind.simps
    using chunks_from_tiles [of 0 data]
    by (simp add: find_chunk_boundaries_spec scan_result_simps scalar_single_def scalar_single_chunks fuzz_assert_cover_tiles)
qed

lemma fuzz_pattern_arm_returns:
  assumes "valid_slice rest" "10 \<le> length rest"
  shows "fuzz_pattern_arm ptr rest = Ret ()"
proof -
  define k where "k = min (unat (rest ! 0) mod max_pattern_len + 1) (length rest - 9)"
  define p where "p = take k (drop 9 rest)"
  define data where "data = take (min (length rest) (9 + k + max_source_len) - (9 + k)) (drop (9 + k) rest)"
  have k: "0 < k" "9 + k \<le> length rest" using assms(2) by (simp_all add: k_def)
  have slices: "slice_range rest 9 (9 + k) = Ret p"
    "slice_range rest (9 + k) (min (length rest) (9 + k + max_source_len)) = Ret data"
    "slice_range rest 1 9 = Ret (take 8 (drop 1 rest))" "index_at rest 0 = Ret (rest ! 0)"
    using k assms(2) by (auto simp: slice_range_def index_at_def p_def data_def)
  have p: "p \<noteq> []" "valid_slice p" "valid_slice data" "scan_fits data n" for n
    using k assms(1) by (auto simp: p_def data_def max_source_len_def scan_fits_small)
  show ?thesis
    unfolding fuzz_pattern_arm_def Let_def slices(4) rbind.simps k_def [symmetric] slices(1-3)
    using p chunks_from_tiles [of 0 data p]
    by (simp add: find_chunk_boundaries_pattern_spec scan_result_simps scalar_pattern_def scalar_pattern_chunks fuzz_assert_cover_tiles)
qed

lemma fuzz_partition_arm_returns:
  assumes "valid_slice rest" "2 \<le> length rest"
  shows "fuzz_partition_arm ptr rest = Ret ()"
proof -
  define n where "n = unat (rest ! 1) mod max_partitions + 1"
  define d where "d = decode_delimiter (rest ! 0)"
  define data where "data = take (min (length rest) (2 + max_source_len) - 2) (drop 2 rest)"
  define rs where "rs = plan_spec (record_cut [d] data) (length data) (min n (length data))"
  have inp: "index_at rest 0 = Ret (rest ! 0)" "index_at rest 1 = Ret (rest ! 1)"
    "slice_range rest 2 (min (length rest) (2 + max_source_len)) = Ret data"
    using assms(2) by (auto simp: slice_range_def index_at_def data_def)
  have v: "valid_slice data" using assms(1) by (simp add: data_def)
  have t: "tiles 0 rs (length data)"
    using rec.plan_spec_tiles [of "min n (length data)" "[d]" data]
    by (cases "data = []") (auto simp: rs_def plan_spec_def n_def)
  have "aligned [d] data rs" unfolding rs_def by (rule plan_spec_aligned)
  then show ?thesis
    unfolding fuzz_partition_arm_def Let_def inp rbind.simps n_def [symmetric] d_def [symmetric]
    using v t fuzz_inner_ends [OF t]
    by (simp add: find_partition_boundaries_spec scalar_partition_spec rs_def [symmetric] fuzz_assert_cover_tiles)
qed

lemma assert_case_returns:
  assumes "file_len \<le> usize_max" "chunk_size \<le> usize_max"
  shows "assert_case file_len chunk_size index = Ret ()"
proof -
  let ?m = "max chunk_size 1" and ?k = "fixed_chunk_count file_len chunk_size"
  have none: "fixed_chunk_bounds file_len chunk_size ?k = None"
    using fixed_chunk_count_iff [of ?k file_len chunk_size] by (simp add: fixed_chunk_bounds_exact [OF assms(1)])
  have final: "\<exists>s. 0 < ?k \<and> fixed_chunk_bounds file_len chunk_size (?k - 1) = Some (s, file_len)" if "0 < file_len"
  proof -
    have k: "0 < ?k" using that fixed_chunk_count_iff [of 0 file_len chunk_size] by simp
    then have "(?k - 1) * ?m < file_len" "\<not> ?k * ?m < file_len"
      using fixed_chunk_count_iff [of "?k - 1" file_len chunk_size] fixed_chunk_count_iff [of ?k file_len chunk_size]
      by simp_all
    moreover have "Suc (?k - 1) = ?k" using k by simp
    ultimately show ?thesis using k by (simp add: fixed_chunk_bounds_exact [OF assms(1)] min_def)
  qed
  have ordered: "s < e \<and> e \<le> file_len" if "fixed_chunk_bounds file_len chunk_size index = Some (s, e)" for s e
    using that by (auto simp: fixed_chunk_bounds_exact [OF assms(1)] split: if_splits)
  show ?thesis
  proof (cases "file_len = 0")
    case True
    then show ?thesis
      by (simp add: assert_case_def oracle_count_def oracle_bounds_def fixed_chunk_count_def fixed_chunk_bounds_def)
  next
    case False
    then obtain s where "0 < ?k" "fixed_chunk_bounds file_len chunk_size (?k - 1) = Some (s, file_len)"
      using final by auto
    with False none ordered show ?thesis
      by (auto simp: assert_case_def Let_def oracle_count_eq [OF assms] oracle_bounds_eq [OF assms]
          split: option.split)
  qed
qed

lemma unat_usize: "unat (w :: 64 word) \<le> usize_max"
proof -
  have "unat w < 2 ^ LENGTH(64)" by (rule unsigned_less)
  then show ?thesis by (simp add: usize_max_def)
qed

lemma extremes_usize: "x \<in> set (extremes input) \<Longrightarrow> x \<le> usize_max"
proof -
  assume x: "x \<in> set (extremes input)"
  have "as_usize n \<le> usize_max" for n using mod_less_divisor [of "2 ^ 64" n] by (simp add: as_usize_def usize_max_def)
  with x show ?thesis by (auto simp: extremes_def Let_def sat_sub_def sat_add_def max_consts intro: le_trans [OF diff_le_self])
qed

text \<open>
  Claim C14: no input makes a fuzz target panic. On every input buffer \<open>scanner_differential\<close>
  returns: the slices and indices of the input it takes are in range, and so are those that the
  scans, the planner and the searches below them take of the data; the scans can allocate their
  result; the scalar loops return, they compute the ranges of the scans and of the planner, and
  the ranges pass the coverage and record assertions. \<open>fixed_extremes\<close> returns too, for the sizes read from the input and for every
  pair of its extreme values.
\<close>

theorem fuzz_targets_never_panic:
  assumes "valid_slice input"
  shows "scanner_differential ptr input = Ret () \<and> fixed_extremes input = Ret ()"
proof
  show "scanner_differential ptr input = Ret ()"
  proof (cases input)
    case (Cons mode rest)
    then have "valid_slice rest" using assms by (simp add: valid_slice_def)
    with Cons show ?thesis
      by (simp add: scanner_differential_def Let_def fuzz_single_arm_returns fuzz_pattern_arm_returns
          fuzz_partition_arm_returns)
  qed (simp add: scanner_differential_def)
  show "fixed_extremes input = Ret ()"
    by (simp add: fixed_extremes_def extremes_read_usize_def Let_def assert_case_returns unat_usize
        for_each_Ret extremes_usize)
qed

theorem fuzz_targets_never_panic_witness:
  "scanner_differential 0 (byte_text ''2N0one,two'') = Ret () \<and> fixed_extremes (byte_text ''2N0one,two'') = Ret ()"
  by (rule fuzz_targets_never_panic) (simp add: byte_text_def valid_slice_def max_consts)

end
