(* ===== verification/Differential_Tests.thy ===== *)
theory Differential_Tests
  imports Fuzz_Harness
begin

section \<open>The differential test suite of the scanner\<close>

text \<open>
  The module \<open>differential_tests\<close> of \<open>src/src/scanner.rs\<close>: a linear congruential generator, four
  generators of test cases, and the sixteen tests that run the scanner, its cursors and its
  planners against scalar oracles on fixed and on generated cases. Generators and tests are
  translated with their panics: an index out of range, an overflow of the generator's own
  arithmetic, a failing assertion. A buffer lives at an arbitrary address, given by the argument
  \<open>addr\<close> for each case.
\<close>

subsection \<open>The random numbers\<close>

record lcg =
  lcg_state :: "64 word"

definition SINGLE_SEED :: "64 word" where "SINGLE_SEED = 0x53494e474c450001"
definition CURSOR_SEED :: "64 word" where "CURSOR_SEED = 0x435552534f520002"
definition PATTERN_SEED :: "64 word" where "PATTERN_SEED = 0x5041545445520003"
definition PATTERN_CURSOR_SEED :: "64 word" where "PATTERN_CURSOR_SEED = 0x50435552534f0004"
definition SWAR_SEED :: "64 word" where "SWAR_SEED = 0x5357415200000005"
definition PARTITION_SEED :: "64 word" where "PARTITION_SEED = 0x5041525400000006"
definition PARTITION_PATTERN_SEED :: "64 word" where "PARTITION_PATTERN_SEED = 0x5041525450410007"

definition lcg_new :: "64 word \<Rightarrow> lcg" where
  "lcg_new seed = \<lparr>lcg_state = seed\<rparr>"

definition next_u64 :: "lcg \<Rightarrow> 64 word \<times> lcg" where
  "next_u64 rng = (let s = lcg_state rng * 6364136223846793005 + 1442695040888963407 in (s, rng\<lparr>lcg_state := s\<rparr>))"

definition next_u8 :: "lcg \<Rightarrow> byte \<times> lcg" where
  "next_u8 rng = (let (w, rng1) = next_u64 rng in (ucast w, rng1))"

definition next_usize :: "lcg \<Rightarrow> nat \<Rightarrow> nat \<times> lcg" where
  "next_usize rng upper_exclusive =
     (if upper_exclusive = 0 then (0, rng)
      else let (w, rng1) = next_u64 rng in (unat (w mod word_of_nat upper_exclusive), rng1))"

text \<open>\<open>vec![0; n]\<close> and the loop that sets every byte of it\<close>

fun random_bytes :: "nat \<Rightarrow> lcg \<Rightarrow> bytes \<times> lcg" where
  "random_bytes 0 rng = ([], rng)"
| "random_bytes (Suc n) rng =
     (let (b, rng1) = next_u8 rng; (bs, rng2) = random_bytes n rng1 in (b # bs, rng2))"

subsection \<open>Building blocks that may panic\<close>

definition add_usize :: "nat \<Rightarrow> nat \<Rightarrow> nat run" where
  "add_usize a b = (if a + b > usize_max then Panic ''attempt to add with overflow'' else Ret (a + b))"

definition mul_usize :: "nat \<Rightarrow> nat \<Rightarrow> nat run" where
  "mul_usize a b = (if a * b > usize_max then Panic ''attempt to multiply with overflow'' else Ret (a * b))"

definition store_at :: "'a list \<Rightarrow> nat \<Rightarrow> 'a \<Rightarrow> 'a list run" where
  "store_at xs i v = (if i < length xs then Ret (xs[i := v]) else Panic ''index out of bounds'')"

definition copy_into :: "'a list \<Rightarrow> nat \<Rightarrow> 'a list \<Rightarrow> 'a list run" where
  "copy_into xs start src =
     (if start + length src > length xs then Panic ''range end index out of range''
      else Ret (take start xs @ src @ drop (start + length src) xs))"

text \<open>A \<open>for\<close> loop with a state, whose body may panic.\<close>

fun for_fold :: "('a \<Rightarrow> 's \<Rightarrow> 's run) \<Rightarrow> 'a list \<Rightarrow> 's \<Rightarrow> 's run" where
  "for_fold f [] s = Ret s"
| "for_fold f (x # xs) s = rbind (f x s) (for_fold f xs)"

subsection \<open>The generated cases\<close>

text \<open>The length of the data: from a table for every \<open>m\<close>-th case, otherwise random.\<close>

definition pick_length :: "nat \<Rightarrow> nat list \<Rightarrow> nat \<Rightarrow> nat \<Rightarrow> lcg \<Rightarrow> (nat \<times> lcg) run" where
  "pick_length m lengths upper i rng =
     (if i mod m = 0 then rmap (\<lambda>n. (n, rng)) (index_at lengths ((i div m) mod slen lengths))
      else Ret (next_usize rng upper))"

definition single_lengths :: "nat list" where
  "single_lengths = [0, 1, 2, 3, 7, 8, 9, 15, 16, 17, 31, 32, 63, 64, 127, 255]"

definition single_delimiter :: "nat \<Rightarrow> lcg \<Rightarrow> byte \<times> lcg" where
  "single_delimiter i rng =
     (if i mod 8 = 0 then (0, rng)
      else if i mod 8 = 1 then (255, rng)
      else if i mod 8 = 2 then (10, rng)
      else if i mod 8 = 3 then (128, rng)
      else next_u8 rng)"

definition single_inject :: "nat \<Rightarrow> byte \<Rightarrow> bytes \<Rightarrow> bytes run" where
  "single_inject i delimiter data =
     (if i mod 11 = 0 then Ret (replicate (length data) delimiter)
      else if data \<noteq> [] then
        let len = slen data in
        rbind (store_at data (i mod len) delimiter) (\<lambda>data.
          if i mod 3 = 1 \<and> len > 1 then
            rbind (mul_usize i 7) (\<lambda>a. rbind (add_usize a 1) (\<lambda>k. store_at data (k mod len) delimiter))
          else Ret data)
      else Ret data)"

definition single_chunk_size :: "nat \<Rightarrow> bytes \<Rightarrow> lcg \<Rightarrow> nat" where
  "single_chunk_size i data rng =
     (if i mod 10 = 0 then 0
      else if i mod 10 = 1 then 1
      else if i mod 10 = 2 then 2
      else if i mod 10 = 3 then slen data
      else if i mod 10 = 4 then sat_add (slen data) 1
      else if i mod 10 = 5 then usize_max
      else fst (next_usize rng 128))"

definition generated_single_case :: "64 word \<Rightarrow> nat \<Rightarrow> (bytes \<times> nat \<times> byte) run" where
  "generated_single_case seed i =
     rbind (pick_length 3 single_lengths 256 i (lcg_new (seed XOR word_of_nat i * 0x9e3779b97f4a7c15))) (\<lambda>(len, rng).
     let (data, rng) = random_bytes len rng;
         (delimiter, rng) = single_delimiter i rng
     in rbind (single_inject i delimiter data) (\<lambda>data.
        Ret (data, single_chunk_size i data rng, delimiter)))"

definition pattern_data_lengths :: "nat list" where
  "pattern_data_lengths = [0, 1, 2, 3, 7, 8, 15, 16, 31, 32, 63, 64, 127]"

definition pattern_lengths :: "nat list" where
  "pattern_lengths = [1, 2, 3, 4, 5, 8, 16, 32, 64]"

text \<open>The pattern of letters \<open>a\<close> that ends in \<open>b\<close> when it is longer than one byte\<close>

definition adversarial_pattern :: "nat \<Rightarrow> bytes" where
  "adversarial_pattern n = (let p = replicate n 97 in if n > 1 then p[n - 1 := 98] else p)"

definition pattern_chunk_size :: "nat \<Rightarrow> nat \<Rightarrow> lcg \<Rightarrow> nat \<times> lcg" where
  "pattern_chunk_size i data_len rng =
     (if i mod 9 = 0 then (0, rng)
      else if i mod 9 = 1 then (1, rng)
      else if i mod 9 = 2 then (2, rng)
      else if i mod 9 = 3 then (data_len, rng)
      else if i mod 9 = 4 then (sat_add data_len 1, rng)
      else if i mod 9 = 5 then (usize_max, rng)
      else next_usize rng 96)"

definition pattern_plant :: "nat \<Rightarrow> nat \<Rightarrow> lcg \<Rightarrow> bytes \<Rightarrow> bytes \<Rightarrow> bytes run" where
  "pattern_plant i chunk_size rng pattern data =
     (if slen data \<ge> slen pattern then
        let max_start = slen data - slen pattern;
            start =
              (if i mod 4 = 0 then 0
               else if i mod 4 = 1 then max_start
               else if i mod 4 = 2 then min (max chunk_size 1) max_start
               else fst (next_usize rng (max_start + 1)))
        in copy_into data start pattern
      else Ret data)"

definition generated_pattern_case :: "64 word \<Rightarrow> nat \<Rightarrow> (bytes \<times> nat \<times> bytes) run" where
  "generated_pattern_case seed i =
     rbind (pick_length 3 pattern_data_lengths 192 i (lcg_new (seed XOR word_of_nat i * 0xd6e8feb86659fd93))) (\<lambda>(data_len, rng).
     rbind (index_at pattern_lengths (i mod slen pattern_lengths)) (\<lambda>pattern_len.
     let (data, rng) = random_bytes data_len rng;
         (pattern, rng) = random_bytes pattern_len rng;
         (chunk_size, rng) = pattern_chunk_size i data_len rng;
         data = (if i mod 5 = 0 then replicate (length data) 97 else data);
         pattern = (if i mod 5 = 0 then adversarial_pattern (length pattern) else pattern)
     in rbind (pattern_plant i chunk_size rng pattern data) (\<lambda>data. Ret (data, chunk_size, pattern))))"

definition partition_lengths :: "nat list" where
  "partition_lengths = [0, 1, 2, 3, 7, 8, 15, 16, 31, 32, 63, 64, 127, 255]"

definition partition_delimiter :: "nat \<Rightarrow> lcg \<Rightarrow> byte \<times> lcg" where
  "partition_delimiter i rng =
     (if i mod 7 = 0 then (0, rng)
      else if i mod 7 = 1 then (255, rng)
      else if i mod 7 = 2 then (10, rng)
      else next_u8 rng)"

definition injection_index :: "nat \<Rightarrow> nat \<Rightarrow> nat run" where
  "injection_index i offset =
     rbind (mul_usize i 13) (\<lambda>a. rbind (mul_usize offset 17) (\<lambda>b. add_usize a b))"

definition partition_inject :: "nat \<Rightarrow> byte \<Rightarrow> bytes \<Rightarrow> bytes run" where
  "partition_inject i delimiter data =
     (if i mod 10 = 0 then Ret (replicate (length data) delimiter)
      else if i mod 10 = 1 then Ret data
      else if data \<noteq> [] then
        let injections = 1 + i mod 5; len = slen data in
        for_fold (\<lambda>offset data. rbind (injection_index i offset) (\<lambda>k. store_at data (k mod len) delimiter))
          [0..<injections] data
      else Ret data)"

text \<open>The number of partitions, the same in both partition generators\<close>

definition partition_request :: "nat \<Rightarrow> lcg \<Rightarrow> nat" where
  "partition_request i rng =
     (if i mod 9 = 0 then 0
      else if i mod 9 = 1 then 1
      else if i mod 9 = 2 then 2
      else if i mod 9 = 3 then 4
      else if i mod 9 = 4 then 8
      else if i mod 9 = 5 then 16
      else if i mod 9 = 6 then 64
      else 1 + fst (next_usize rng 128))"

definition generated_partition_case :: "64 word \<Rightarrow> nat \<Rightarrow> (bytes \<times> nat \<times> byte) run" where
  "generated_partition_case seed i =
     rbind (pick_length 4 partition_lengths 256 i (lcg_new (seed XOR word_of_nat i * 0xa4093822299f31d0))) (\<lambda>(len, rng).
     let (data, rng) = random_bytes len rng;
         (delimiter, rng) = partition_delimiter i rng
     in rbind (partition_inject i delimiter data) (\<lambda>data. Ret (data, partition_request i rng, delimiter)))"

definition partition_pattern_lengths :: "nat list" where
  "partition_pattern_lengths = [1, 2, 2, 3, 4, 8, 16]"

definition pattern_inject :: "nat \<Rightarrow> nat \<Rightarrow> bytes \<Rightarrow> bytes \<Rightarrow> bytes run" where
  "pattern_inject i pattern_len pattern data =
     (if i mod 10 = 0 then rmap (replicate (length data)) (index_at pattern 0)
      else if i mod 10 = 1 then Ret data
      else if data \<noteq> [] then
        let injections = 1 + i mod 5; data_len = slen data in
        for_fold (\<lambda>offset data.
            if data_len \<ge> pattern_len then
              rbind (injection_index i offset) (\<lambda>k. copy_into data (k mod (data_len - pattern_len + 1)) pattern)
            else Ret data)
          [0..<injections] data
      else Ret data)"

definition generated_partition_pattern_case :: "64 word \<Rightarrow> nat \<Rightarrow> (bytes \<times> nat \<times> bytes) run" where
  "generated_partition_pattern_case seed i =
     rbind (pick_length 4 partition_lengths 256 i (lcg_new (seed XOR word_of_nat i * 0x9e3779b97f4a7c15))) (\<lambda>(len, rng).
     let (data, rng) = random_bytes len rng in
     rbind (index_at partition_pattern_lengths (i mod slen partition_pattern_lengths)) (\<lambda>pattern_len.
     let (pattern, rng) = random_bytes pattern_len rng;
         pattern = (if i mod 6 = 0 then adversarial_pattern pattern_len else pattern)
     in rbind (pattern_inject i pattern_len pattern data) (\<lambda>data. Ret (data, partition_request i rng, pattern))))"

subsection \<open>The tests of scans and cursors\<close>

definition check_single_case :: "nat \<Rightarrow> bytes \<times> nat \<times> byte \<Rightarrow> unit run" where
  "check_single_case ptr = (\<lambda>(data, chunk_size, delimiter).
     rbind (scalar_single_byte_boundaries data chunk_size delimiter) (\<lambda>expected.
     rbind (find_chunk_boundaries ptr data chunk_size delimiter) (\<lambda>actual.
     rbind (rassert (actual = expected)) (\<lambda>_. rassert (assert_cover data expected)))))"

definition single_corpus :: "(bytes \<times> nat \<times> byte) list" where
  "single_corpus =
     [([], 4, 10),
      (byte_text ''x'', 4, 10),
      (byte_text ''xxxx'' @ [10], 4, 10),
      (byte_text ''xx'' @ [10] @ byte_text ''xx'' @ [10], 2, 10),
      ([10, 10, 10], 1, 10),
      (byte_text ''a'' @ [0] @ byte_text ''b'' @ [0] @ byte_text ''c'', 2, 0),
      (byte_text ''no delimiter'', 3, 10)]"

definition single_byte_oracle_matches_deterministic_corpus :: "nat \<Rightarrow> unit run" where
  "single_byte_oracle_matches_deterministic_corpus ptr = for_each (check_single_case ptr) single_corpus"

definition single_byte_oracle_matches_generated_cases :: "(nat \<Rightarrow> nat) \<Rightarrow> unit run" where
  "single_byte_oracle_matches_generated_cases addr =
     for_each (\<lambda>i. rbind (generated_single_case SINGLE_SEED i) (check_single_case (addr i))) [0..<4096]"

text \<open>
  The helpers that collect the ranges of a cursor: every chunk is compared with the bytes at its
  own offsets, and the cursor is exhausted afterwards.
\<close>

definition check_chunk :: "bytes \<Rightarrow> brange \<times> bytes \<Rightarrow> unit run" where
  "check_chunk data = (\<lambda>((s, e), chunk). rbind (slice_range data s e) (\<lambda>part. rassert (part = chunk)))"

definition test_cursor_ranges :: "nat \<Rightarrow> bytes \<Rightarrow> nat \<Rightarrow> byte \<Rightarrow> brange list run" where
  "test_cursor_ranges ptr data chunk_size delimiter =
     rbind (cursor_ranges (cursor_new ptr data chunk_size delimiter)) (\<lambda>(items, cursor).
     rbind (for_each (check_chunk data) items) (\<lambda>_.
     rbind (cursor_next cursor) (\<lambda>(item, cursor).
     rbind (rassert (item = None)) (\<lambda>_.
     rbind (rassert (cursor_is_empty cursor)) (\<lambda>_.
     rbind (rassert (cursor_position cursor = slen data)) (\<lambda>_.
     Ret (map fst items)))))))"

definition test_pattern_cursor_ranges :: "nat \<Rightarrow> bytes \<Rightarrow> nat \<Rightarrow> bytes \<Rightarrow> brange list run" where
  "test_pattern_cursor_ranges ptr data chunk_size pattern =
     rbind (pattern_cursor_new ptr data chunk_size pattern) (\<lambda>cursor.
     rbind (pattern_cursor_ranges cursor) (\<lambda>(items, cursor).
     rbind (for_each (check_chunk data) items) (\<lambda>_.
     rbind (pattern_cursor_next cursor) (\<lambda>(item, cursor).
     rbind (rassert (item = None)) (\<lambda>_.
     rbind (rassert (pattern_cursor_is_empty cursor)) (\<lambda>_.
     rbind (rassert (pattern_cursor_position cursor = slen data)) (\<lambda>_.
     Ret (map fst items))))))))"

definition check_cursor_case :: "nat \<Rightarrow> bytes \<times> nat \<times> byte \<Rightarrow> unit run" where
  "check_cursor_case ptr = (\<lambda>(data, chunk_size, delimiter).
     rbind (scalar_single_byte_boundaries data chunk_size delimiter) (\<lambda>expected.
     rbind (find_chunk_boundaries ptr data chunk_size delimiter) (\<lambda>eager.
     rbind (test_cursor_ranges ptr data chunk_size delimiter) (\<lambda>cursor.
     rbind (rassert (eager = expected)) (\<lambda>_.
     rbind (rassert (cursor = expected)) (\<lambda>_.
     rbind (rassert (assert_cover data cursor)) (\<lambda>_.
     rbind (test_cursor_ranges ptr data chunk_size delimiter) (\<lambda>again.
     rassert (again = cursor)))))))))"

definition cursor_ranges_match_single_byte_oracle :: "(nat \<Rightarrow> nat) \<Rightarrow> unit run" where
  "cursor_ranges_match_single_byte_oracle addr =
     for_each (\<lambda>i. rbind (generated_single_case CURSOR_SEED i) (check_cursor_case (addr i))) [0..<2048]"

definition check_pattern_case :: "nat \<Rightarrow> bytes \<times> nat \<times> bytes \<Rightarrow> unit run" where
  "check_pattern_case ptr = (\<lambda>(data, chunk_size, pattern).
     rbind (scalar_pattern_boundaries data chunk_size pattern) (\<lambda>expected.
     rbind (find_chunk_boundaries_pattern ptr data chunk_size pattern) (\<lambda>actual.
     rbind (rassert (actual = expected)) (\<lambda>_. rassert (assert_cover data expected)))))"

definition pattern_fixtures :: "(bytes \<times> nat \<times> bytes) list" where
  "pattern_fixtures =
     [([], 4, [13, 10]),
      (byte_text ''a'' @ [13, 10] @ byte_text ''b'' @ [13, 10] @ byte_text ''c'', 4, [13, 10]),
      (byte_text ''a'' @ [0, 255, 0] @ byte_text ''b'' @ [0, 255, 0] @ byte_text ''c'', 2, [0, 255, 0]),
      (byte_text ''aaaaaa'', 1, byte_text ''aa''),
      (byte_text ''prefixEND_RECORDsuffix'', 3, byte_text ''END_RECORD''),
      (byte_text ''no delimiter'', 2, [13, 10, 13, 10]),
      (byte_text ''abc'', 1, byte_text ''abcdef''),
      (byte_text ''xx'' @ [13, 10, 13, 10] @ byte_text ''xx'', 1, [13, 10, 13, 10])]"

definition pattern_oracle_matches_deterministic_fixtures :: "nat \<Rightarrow> unit run" where
  "pattern_oracle_matches_deterministic_fixtures ptr = for_each (check_pattern_case ptr) pattern_fixtures"

definition pattern_oracle_matches_generated_cases :: "(nat \<Rightarrow> nat) \<Rightarrow> unit run" where
  "pattern_oracle_matches_generated_cases addr =
     for_each (\<lambda>i. rbind (generated_pattern_case PATTERN_SEED i) (check_pattern_case (addr i))) [0..<4096]"

definition check_pattern_cursor_case :: "nat \<Rightarrow> bytes \<times> nat \<times> bytes \<Rightarrow> unit run" where
  "check_pattern_cursor_case ptr = (\<lambda>(data, chunk_size, pattern).
     rbind (scalar_pattern_boundaries data chunk_size pattern) (\<lambda>expected.
     rbind (find_chunk_boundaries_pattern ptr data chunk_size pattern) (\<lambda>eager.
     rbind (test_pattern_cursor_ranges ptr data chunk_size pattern) (\<lambda>cursor.
     rbind (rassert (eager = expected)) (\<lambda>_.
     rbind (rassert (cursor = expected)) (\<lambda>_.
     rbind (rassert (assert_cover data cursor)) (\<lambda>_.
     rbind (test_pattern_cursor_ranges ptr data chunk_size pattern) (\<lambda>again.
     rassert (again = cursor)))))))))"

definition pattern_cursor_ranges_match_pattern_oracle :: "(nat \<Rightarrow> nat) \<Rightarrow> unit run" where
  "pattern_cursor_ranges_match_pattern_oracle addr =
     for_each (\<lambda>i. rbind (generated_pattern_case PATTERN_CURSOR_SEED i) (check_pattern_cursor_case (addr i))) [0..<2048]"

subsection \<open>The test of the byte search\<close>

definition swar_lengths :: "nat list" where
  "swar_lengths = [0, 1, 2, 3, 4, 5, 6, 7, 8, 9, 15, 16, 17, 31, 32, 33, 63, 64, 65, 127]"

text \<open>All 256 delimiters on one haystack; the state is the number of comparisons.\<close>

definition swar_delimiters :: "nat \<Rightarrow> bytes \<Rightarrow> nat \<Rightarrow> nat run" where
  "swar_delimiters ptr haystack =
     for_fold (\<lambda>delimiter comparisons.
         rbind (find_byte_swar ptr haystack delimiter) (\<lambda>found.
         rbind (scalar_byte_position haystack delimiter) (\<lambda>expected.
         rbind (rassert (found = expected)) (\<lambda>_. add_usize comparisons 1))))
       (map word_of_nat [0..<256])"

definition swar_haystack :: "nat \<Rightarrow> nat \<Rightarrow> nat \<Rightarrow> lcg \<times> nat \<Rightarrow> (lcg \<times> nat) run" where
  "swar_haystack ptr prefix len = (\<lambda>(rng, comparisons).
     let (bytes, rng) = random_bytes len rng; backing = replicate prefix 0 @ bytes in
     rbind (slice_from backing prefix) (\<lambda>haystack.
     rmap (\<lambda>n. (rng, n)) (swar_delimiters (ptr + prefix) haystack comparisons)))"

definition swar_matches_scalar_byte_search_across_offsets_and_lengths :: "(nat \<Rightarrow> nat) \<Rightarrow> unit run" where
  "swar_matches_scalar_byte_search_across_offsets_and_lengths addr =
     rbind (for_fold (\<lambda>i comparisons.
         rmap snd (for_fold (\<lambda>prefix. for_fold (swar_haystack (addr i) prefix) swar_lengths) [0..<8]
           (lcg_new (SWAR_SEED XOR word_of_nat i), comparisons))) [0..<16] 0) (\<lambda>comparisons.
     rassert (comparisons = 16 * 8 * slen swar_lengths * 256))"

subsection \<open>The tests of the planners\<close>

definition check_partition_case :: "nat \<Rightarrow> bytes \<times> nat \<times> byte \<Rightarrow> unit run" where
  "check_partition_case ptr = (\<lambda>(data, num_partitions, delimiter).
     rbind (scalar_partition_boundaries data num_partitions delimiter) (\<lambda>expected.
     rbind (find_partition_boundaries ptr data num_partitions delimiter) (\<lambda>actual.
     rbind (rassert (actual = expected)) (\<lambda>_.
     rassert (assert_partition_invariants data num_partitions delimiter actual)))))"

definition partition_fixtures :: "(bytes \<times> nat \<times> byte) list" where
  "partition_fixtures =
     [([], 4, 10),
      (byte_text ''x'', 1, 10),
      (byte_text ''no delimiter'', 8, 10),
      (byte_text ''a'' @ [10, 10, 10] @ byte_text ''b'' @ [10], 8, 10),
      (byte_text ''aa'' @ [10] @ byte_text ''bbbb'' @ [10] @ byte_text ''cccccccccccc'' @ [10] @ byte_text ''dd'' @ [10], 4, 10),
      (byte_text ''aaaa'' @ [0] @ byte_text ''bbbb'' @ [0] @ byte_text ''cccc'', 2, 0),
      (byte_text ''123456789'', 0, 10),
      (byte_text ''123456789'', 1, 10),
      (byte_text ''123456789'', 64, 10)]"

definition giant_records :: bytes where
  "giant_records =
     replicate 10000 (of_char (CHR ''x'')) @ [10] @ byte_text ''small'' @ [10] @ byte_text ''records'' @ [10]"

definition partition_oracle_matches_deterministic_fixtures :: "nat \<Rightarrow> unit run" where
  "partition_oracle_matches_deterministic_fixtures ptr =
     rbind (for_each (check_partition_case ptr) partition_fixtures) (\<lambda>_.
     check_partition_case ptr (giant_records, 64, 10))"

definition partition_oracle_matches_generated_cases :: "(nat \<Rightarrow> nat) \<Rightarrow> unit run" where
  "partition_oracle_matches_generated_cases addr =
     for_each (\<lambda>i. rbind (generated_partition_case PARTITION_SEED i) (\<lambda>(data, num_partitions, delimiter).
         rbind (scalar_partition_boundaries data num_partitions delimiter) (\<lambda>expected.
         rbind (find_partition_boundaries (addr i) data num_partitions delimiter) (\<lambda>actual.
         rbind (rassert (actual = expected)) (\<lambda>_.
         rbind (rassert (assert_partition_invariants data num_partitions delimiter actual)) (\<lambda>_.
         rbind (find_partition_boundaries (addr i) data num_partitions delimiter) (\<lambda>again.
         rassert (again = actual)))))))) [0..<4096]"

definition partition_request_above_file_len_matches_file_len_oracle :: "(nat \<Rightarrow> nat) \<Rightarrow> unit run" where
  "partition_request_above_file_len_matches_file_len_oracle addr =
     for_each (\<lambda>i. rbind (generated_partition_case PARTITION_SEED i) (\<lambda>(data, _, delimiter).
         if data = [] then Ret ()
         else
           rbind (find_partition_boundaries (addr i) data (slen data) delimiter) (\<lambda>expected.
           rbind (add_usize (slen data) 1) (\<lambda>above.
           for_each (\<lambda>requested. rbind (find_partition_boundaries (addr i) data requested delimiter) (\<lambda>actual.
               rassert (actual = expected))) [above, usize_max])))) [0..<4096]"

definition check_partition_pattern_case :: "nat \<Rightarrow> bytes \<times> nat \<times> bytes \<Rightarrow> unit run" where
  "check_partition_pattern_case ptr = (\<lambda>(data, num_partitions, pattern).
     rbind (scalar_partition_boundaries_pattern data num_partitions pattern) (\<lambda>expected.
     rbind (find_partition_boundaries_pattern ptr data num_partitions pattern) (\<lambda>actual.
     rbind (rassert (actual = expected)) (\<lambda>_.
     rassert (assert_partition_invariants_pattern data num_partitions pattern actual)))))"

definition partition_pattern_fixtures :: "(bytes \<times> nat \<times> bytes) list" where
  "partition_pattern_fixtures =
     [([], 4, [13, 10]),
      (byte_text ''x'', 1, [13, 10]),
      (byte_text ''no delimiter'', 8, [13, 10]),
      (byte_text ''a'' @ [13, 10, 13, 10] @ byte_text ''b'' @ [13, 10], 8, [13, 10]),
      (byte_text ''aa'' @ [13, 10] @ byte_text ''bbbb'' @ [13, 10] @ byte_text ''cccccccccccc'' @ [13, 10] @ byte_text ''dd'' @ [13, 10],
         4, [13, 10]),
      (byte_text ''one'' @ [13, 10, 13, 10] @ byte_text ''two'' @ [13, 10, 13, 10] @ byte_text ''three'' @ [13, 10, 13, 10],
         2, [13, 10, 13, 10]),
      (byte_text ''a'' @ [0, 1] @ byte_text ''b'' @ [0, 1] @ byte_text ''c'', 3, [0, 1]),
      (byte_text ''pattern longer than the entire file'', 8, byte_text ''<missing>''),
      (byte_text ''123456789'', 0, [13, 10]),
      (byte_text ''123456789'', 1, [13, 10]),
      (byte_text ''123456789'', 64, [13, 10])]"

definition giant_crlf_records :: bytes where
  "giant_crlf_records =
     replicate 10000 (of_char (CHR ''x'')) @ [13, 10] @ byte_text ''small'' @ [13, 10] @ byte_text ''records'' @ [13, 10]"

definition partition_pattern_matches_scalar_oracle_for_fixtures :: "nat \<Rightarrow> unit run" where
  "partition_pattern_matches_scalar_oracle_for_fixtures ptr =
     rbind (for_each (check_partition_pattern_case ptr) partition_pattern_fixtures) (\<lambda>_.
     check_partition_pattern_case ptr (giant_crlf_records, 64, [13, 10]))"

definition partition_pattern_matches_generated_cases :: "(nat \<Rightarrow> nat) \<Rightarrow> unit run" where
  "partition_pattern_matches_generated_cases addr =
     for_each (\<lambda>i. rbind (generated_partition_pattern_case PARTITION_PATTERN_SEED i) (\<lambda>(data, num_partitions, pattern).
         rbind (scalar_partition_boundaries_pattern data num_partitions pattern) (\<lambda>expected.
         rbind (find_partition_boundaries_pattern (addr i) data num_partitions pattern) (\<lambda>actual.
         rbind (rassert (actual = expected)) (\<lambda>_.
         rbind (rassert (assert_partition_invariants_pattern data num_partitions pattern actual)) (\<lambda>_.
         rbind (find_partition_boundaries_pattern (addr i) data num_partitions pattern) (\<lambda>again.
         rassert (again = actual)))))))) [0..<4096]"

definition partition_pattern_delegates_to_single_byte_path :: "(nat \<Rightarrow> nat) \<Rightarrow> unit run" where
  "partition_pattern_delegates_to_single_byte_path addr =
     for_each (\<lambda>i. rbind (generated_partition_case PARTITION_SEED i) (\<lambda>(data, num_partitions, delimiter).
         rbind (find_partition_boundaries (addr i) data num_partitions delimiter) (\<lambda>single.
         rbind (find_partition_boundaries_pattern (addr i) data num_partitions [delimiter]) (\<lambda>pattern.
         rassert (pattern = single))))) [0..<2048]"

definition partition_pattern_accepts_exact_target_boundaries :: "nat \<Rightarrow> unit run" where
  "partition_pattern_accepts_exact_target_boundaries ptr =
     (let data = byte_text ''a'' @ [13, 10] @ byte_text ''b'' @ [13, 10] @ byte_text ''c'' @ [13, 10] @ byte_text ''d'' @ [13, 10] in
      rbind (find_partition_boundaries_pattern ptr data 4 [13, 10]) (\<lambda>actual.
      rbind (rassert (actual = [(0, 3), (3, 6), (6, 9), (9, 12)])) (\<lambda>_.
      rbind (scalar_partition_boundaries_pattern data 4 [13, 10]) (\<lambda>expected.
      rassert (expected = [(0, 3), (3, 6), (6, 9), (9, 12)])))))"

definition partition_pattern_request_above_file_len_matches_file_len_oracle :: "(nat \<Rightarrow> nat) \<Rightarrow> unit run" where
  "partition_pattern_request_above_file_len_matches_file_len_oracle addr =
     for_each (\<lambda>i. rbind (generated_partition_pattern_case PARTITION_PATTERN_SEED i) (\<lambda>(data, _, pattern).
         if data = [] then Ret ()
         else
           rbind (find_partition_boundaries_pattern (addr i) data (slen data) pattern) (\<lambda>expected.
           rbind (add_usize (slen data) 1) (\<lambda>above.
           for_each (\<lambda>requested. rbind (find_partition_boundaries_pattern (addr i) data requested pattern) (\<lambda>actual.
               rassert (actual = expected))) [above, usize_max])))) [0..<4096]"

text \<open>This test has to panic with the text of the assertion.\<close>

definition partition_pattern_rejects_empty_delimiter :: "nat \<Rightarrow> unit run" where
  "partition_pattern_rejects_empty_delimiter ptr =
     rmap (\<lambda>_. ()) (find_partition_boundaries_pattern ptr (byte_text ''data'') 2 [])"

subsection \<open>Reasoning about runs that return\<close>

definition returns :: "'a run \<Rightarrow> ('a \<Rightarrow> bool) \<Rightarrow> bool" where
  "returns m Q \<longleftrightarrow> (\<exists>x. m = Ret x \<and> Q x)"

lemma returns_Ret [simp]: "returns (Ret x) Q \<longleftrightarrow> Q x"
  by (simp add: returns_def)

lemma returns_mono: "returns m P \<Longrightarrow> (\<And>x. P x \<Longrightarrow> Q x) \<Longrightarrow> returns m Q"
  by (auto simp: returns_def)

lemma returns_bind: "returns m P \<Longrightarrow> (\<And>x. P x \<Longrightarrow> returns (f x) Q) \<Longrightarrow> returns (rbind m f) Q"
  by (auto simp: returns_def)

lemma returns_rmap: "returns m (\<lambda>x. Q (f x)) \<Longrightarrow> returns (rmap f m) Q"
  by (auto simp: returns_def)

lemma returns_unit: "returns m Q \<Longrightarrow> m = Ret ()"
  by (auto simp: returns_def)

lemma returns_if: "(b \<Longrightarrow> returns m Q) \<Longrightarrow> (\<not> b \<Longrightarrow> returns m' Q) \<Longrightarrow> returns (if b then m else m') Q"
  by simp

lemma returns_index: "i < length xs \<Longrightarrow> (\<And>x. x \<in> set xs \<Longrightarrow> Q x) \<Longrightarrow> returns (index_at xs i) Q"
  by (simp add: index_at_def)

lemma returns_store: "i < length xs \<Longrightarrow> (\<And>ys. length ys = length xs \<Longrightarrow> Q ys) \<Longrightarrow> returns (store_at xs i v) Q"
  by (simp add: store_at_def)

lemma returns_copy:
  "start + length src \<le> length xs \<Longrightarrow> (\<And>ys. length ys = length xs \<Longrightarrow> Q ys) \<Longrightarrow> returns (copy_into xs start src) Q"
  by (simp add: copy_into_def)

lemma returns_add: "a + b \<le> usize_max \<Longrightarrow> Q (a + b) \<Longrightarrow> returns (add_usize a b) Q"
  by (simp add: add_usize_def)

lemma returns_fold:
  assumes "I s" "\<And>x s. x \<in> set xs \<Longrightarrow> I s \<Longrightarrow> returns (f x s) I"
  shows "returns (for_fold f xs s) I"
  using assms by (induction xs arbitrary: s) (auto intro: returns_bind)

lemma returns_bind_store:
  "i < length xs \<Longrightarrow> (\<And>ys. length ys = length xs \<Longrightarrow> returns (f ys) Q) \<Longrightarrow> returns (rbind (store_at xs i v) f) Q"
  by (simp add: store_at_def)

lemma returns_bind_add: "a + b \<le> usize_max \<Longrightarrow> returns (f (a + b)) Q \<Longrightarrow> returns (rbind (add_usize a b) f) Q"
  by (simp add: add_usize_def)

lemma returns_bind_mul: "a * b \<le> usize_max \<Longrightarrow> returns (f (a * b)) Q \<Longrightarrow> returns (rbind (mul_usize a b) f) Q"
  by (simp add: mul_usize_def)

lemma returns_bind_index:
  "i < length xs \<Longrightarrow> (\<And>x. x \<in> set xs \<Longrightarrow> returns (f x) Q) \<Longrightarrow> returns (rbind (index_at xs i) f) Q"
  by (simp add: index_at_def)

lemmas returns_rules = returns_rmap returns_index returns_store returns_copy returns_add
  returns_bind_store returns_bind_add returns_bind_mul returns_bind_index

text \<open>A loop in which every step adds \<open>k\<close> to a counter of the state.\<close>

lemma returns_count:
  assumes "\<And>x s. x \<in> set xs \<Longrightarrow> c s + k \<le> b \<Longrightarrow> returns (f x s) (\<lambda>s'. c s' = c s + k)" "c s + k * length xs \<le> b"
  shows "returns (for_fold f xs s) (\<lambda>s'. c s' = c s + k * length xs)"
  using assms
proof (induction xs arbitrary: s)
  case (Cons x xs)
  show ?case unfolding for_fold.simps
  proof (rule returns_bind)
    show "returns (f x s) (\<lambda>s'. c s' = c s + k)" using Cons.prems by simp
    fix s1
    assume s1: "c s1 = c s + k"
    then have "returns (for_fold f xs s1) (\<lambda>s'. c s' = c s1 + k * length xs)"
      using Cons.prems by (intro Cons.IH) simp_all
    then show "returns (for_fold f xs s1) (\<lambda>s'. c s' = c s + k * length (x # xs))" by (simp add: s1 add.assoc)
  qed
qed simp

subsection \<open>The generators return\<close>

lemma random_bytes_length: "random_bytes n rng = (bs, rng') \<Longrightarrow> length bs = n"
  by (induction n arbitrary: rng bs rng') (auto simp: Let_def split: prod.splits)

lemma next_usize_less: "0 < n \<Longrightarrow> n \<le> usize_max \<Longrightarrow> fst (next_usize rng n) < n"
proof -
  assume n: "0 < n" "n \<le> usize_max"
  then have "unat (word_of_nat n :: 64 word) = n"
    by (simp add: unat_of_nat max_consts)
  with n show ?thesis by (simp add: next_usize_def Let_def unat_mod split: prod.split)
qed

lemma adversarial_length [simp]: "length (adversarial_pattern n) = n"
  by (simp add: adversarial_pattern_def Let_def)

lemma adversarial_Nil [simp]: "adversarial_pattern n = [] \<longleftrightarrow> n = 0"
  using adversarial_length [of n] by (metis length_0_conv)

lemma len_small [simp]: "length xs \<le> 256 \<Longrightarrow> slen xs = length xs"
  by (simp add: slen_def as_usize_def)

lemma pick_length_ok:
  assumes "lengths \<noteq> []" "\<forall>n\<in>set lengths. n \<le> 256" "0 < upper" "upper \<le> 256" "length lengths \<le> 256"
  shows "returns (pick_length m lengths upper i rng) (\<lambda>(len, rng). len \<le> 256)"
  using assms next_usize_less [of upper rng]
  by (auto simp: pick_length_def max_consts split: prod.split intro!: returns_rmap returns_index)

lemma single_inject_ok:
  assumes "i < 4096" "length data \<le> 256"
  shows "returns (single_inject i d data) (\<lambda>data. length data \<le> 256)"
  unfolding single_inject_def Let_def
  using assms by (auto simp: max_consts intro!: returns_if returns_rules)

lemma generated_single_ok:
  assumes "i < 4096"
  shows "returns (generated_single_case seed i) (\<lambda>(data, n, d). length data \<le> 256)"
  unfolding generated_single_case_def
  by (rule returns_bind [OF pick_length_ok])
    (auto simp: single_lengths_def Let_def split: prod.split dest!: random_bytes_length
      intro!: returns_bind [OF single_inject_ok [OF assms]])

lemma pattern_plant_ok:
  assumes "length data \<le> 256" "length p \<le> 256"
  shows "returns (pattern_plant i n rng p data) (\<lambda>data. length data \<le> 256)"
proof -
  have "fst (next_usize rng (length data - length p + 1)) < length data - length p + 1"
    using assms by (intro next_usize_less) (simp_all add: max_consts)
  then show ?thesis unfolding pattern_plant_def Let_def
    using assms by (auto simp: min_def intro!: returns_rules)
qed

lemma generated_pattern_ok:
  "returns (generated_pattern_case seed i) (\<lambda>(data, n, p). length data \<le> 256 \<and> 0 < length p \<and> length p \<le> 64)"
  unfolding generated_pattern_case_def
proof (rule returns_bind [OF pick_length_ok], simp_all add: pattern_data_lengths_def, clarify, rule returns_bind_index)
  show "i mod slen pattern_lengths < length pattern_lengths" by (simp add: pattern_lengths_def)
qed (auto simp: pattern_lengths_def Let_def split: prod.split dest!: random_bytes_length
    intro!: returns_bind [OF pattern_plant_ok])

lemma injection_index_bound:
  "i < 4096 \<Longrightarrow> offset < 6 \<Longrightarrow> (\<And>k. returns (f k) Q) \<Longrightarrow> returns (rbind (injection_index i offset) f) Q"
  by (simp add: injection_index_def mul_usize_def add_usize_def max_consts)

lemma partition_inject_ok:
  assumes "i < 4096" "length data \<le> 256"
  shows "returns (partition_inject i d data) (\<lambda>data. length data \<le> 256)"
proof (cases "data = []")
  case False
  have "returns (for_fold (\<lambda>offset data'. rbind (injection_index i offset) (\<lambda>k. store_at data' (k mod slen data) d)) [0..<1 + i mod 5] data)
      (\<lambda>data'. length data' = length data)"
    using assms False by (intro returns_fold) (auto intro!: injection_index_bound returns_rules)
  with assms show ?thesis by (auto simp: partition_inject_def Let_def elim: returns_mono)
qed (simp add: partition_inject_def)

lemma generated_partition_ok:
  assumes "i < 4096"
  shows "returns (generated_partition_case seed i) (\<lambda>(data, n, d). length data \<le> 256)"
  unfolding generated_partition_case_def
  by (rule returns_bind [OF pick_length_ok])
    (auto simp: partition_lengths_def Let_def split: prod.split dest!: random_bytes_length
      intro!: returns_bind [OF partition_inject_ok [OF assms]])

lemma partition_request_bound: "partition_request i rng \<le> 128"
  using next_usize_less [of 128 rng] by (simp add: partition_request_def max_consts)

lemma pattern_inject_ok:
  assumes "i < 4096" "length data \<le> 256" "length p = n" "0 < n" "n \<le> 64"
  shows "returns (pattern_inject i n p data) (\<lambda>data. length data \<le> 256)"
proof -
  let ?step = "\<lambda>offset data'. if n \<le> length data
      then rbind (injection_index i offset) (\<lambda>k. copy_into data' (k mod (length data - n + 1)) p) else Ret data'"
  have fit: "k mod (length data - n + 1) + n \<le> length data" if "n \<le> length data" for k
    using that mod_less_divisor [of "length data - n + 1" k] by linarith
  have "returns (for_fold ?step [0..<1 + i mod 5] data) (\<lambda>data'. length data' = length data)"
    using assms fit by (intro returns_fold) (auto intro!: injection_index_bound returns_rules)
  with assms show ?thesis by (auto simp: pattern_inject_def Let_def elim: returns_mono intro!: returns_rules)
qed

lemma generated_partition_pattern_ok:
  assumes "i < 4096"
  shows "returns (generated_partition_pattern_case seed i)
     (\<lambda>(data, n, p). length data \<le> 256 \<and> n \<le> 128 \<and> 0 < length p \<and> length p \<le> 64)"
  unfolding generated_partition_pattern_case_def
proof (rule returns_bind [OF pick_length_ok], simp_all add: partition_lengths_def, clarify, split prod.split, clarify, rule returns_bind_index)
  show "i mod slen partition_pattern_lengths < length partition_pattern_lengths" by (simp add: partition_pattern_lengths_def)
qed (auto simp: partition_pattern_lengths_def Let_def partition_request_bound split: prod.split dest!: random_bytes_length
    intro!: returns_bind [OF pattern_inject_ok [OF assms]])

subsection \<open>The tests pass\<close>

lemma rassert_bind [simp]: "b \<Longrightarrow> rbind (rassert b) f = f ()"
  by simp

lemma small_valid [simp]: "length xs \<le> 256 \<Longrightarrow> valid_slice xs"
  by (simp add: valid_slice_def max_consts)

lemma small_fits [simp]: "length data \<le> 256 \<Longrightarrow> scan_fits data n"
  by (rule scan_fits_small) simp

lemma oracle_single_chunks: "valid_slice data \<Longrightarrow> scalar_single_byte_boundaries data n d = Ret (chunks_from [d] data n 0)"
  by (simp add: scalar_single_byte_boundaries_def scalar_single_spec)

lemma oracle_pattern_chunks:
  "valid_slice data \<Longrightarrow> valid_slice p \<Longrightarrow> p \<noteq> [] \<Longrightarrow> scalar_pattern_boundaries data n p = Ret (chunks_from p data n 0)"
  by (simp add: scalar_pattern_boundaries_def scalar_pattern_spec)

lemma chunks_cover: "valid_slice data \<Longrightarrow> assert_cover data (chunks_from p data n 0)"
  by (simp add: assert_cover_iff chunks_from_tiles)

lemma check_single_ok: "length data \<le> 256 \<Longrightarrow> check_single_case ptr (data, n, d) = Ret ()"
  by (simp add: check_single_case_def Let_def oracle_single_chunks find_chunk_boundaries_spec chunks_cover)

lemma check_pattern_ok:
  "length data \<le> 256 \<Longrightarrow> valid_slice p \<Longrightarrow> p \<noteq> [] \<Longrightarrow> check_pattern_case ptr (data, n, p) = Ret ()"
  by (simp add: check_pattern_case_def oracle_pattern_chunks find_chunk_boundaries_pattern_spec chunks_cover)

lemma check_chunks_ok:
  assumes "tiles 0 rs (length data)"
  shows "for_each (check_chunk data) (map (\<lambda>r. (r, subslice data r)) rs) = Ret ()"
  using tiles_mem [OF assms]
  by (intro for_each_Ret) (fastforce simp: check_chunk_def slice_range_def subslice_def)

lemma test_cursor_ok:
  assumes "valid_slice data"
  shows "test_cursor_ranges ptr data n d = Ret (chunks_from [d] data n 0)"
  using cursor_ranges_spec [of "cursor_new ptr data n d"] assms
  by (simp add: test_cursor_ranges_def cursor_new_def check_chunks_ok chunks_from_tiles cursor_next_def cursor_is_empty_def
      cursor_position_def comp_def)

lemma test_pattern_cursor_ok:
  assumes "valid_slice data" "valid_slice p" "p \<noteq> []"
  shows "test_pattern_cursor_ranges ptr data n p = Ret (chunks_from p data n 0)"
  using pattern_cursor_ranges_spec [of "\<lparr>pc_ptr = ptr, pc_data = data, pc_chunk_size = n, pc_delimiter = p, pc_position = 0\<rparr>"] assms
  by (simp add: test_pattern_cursor_ranges_def pattern_cursor_new_def check_chunks_ok chunks_from_tiles pattern_cursor_next_def
      pattern_cursor_is_empty_def pattern_cursor_position_def comp_def)

lemma check_cursor_ok: "length data \<le> 256 \<Longrightarrow> check_cursor_case ptr (data, n, d) = Ret ()"
  by (simp add: check_cursor_case_def Let_def oracle_single_chunks find_chunk_boundaries_spec chunks_cover test_cursor_ok)

lemma check_pattern_cursor_ok:
  "length data \<le> 256 \<Longrightarrow> valid_slice p \<Longrightarrow> p \<noteq> [] \<Longrightarrow> check_pattern_cursor_case ptr (data, n, p) = Ret ()"
  by (simp add: check_pattern_cursor_case_def oracle_pattern_chunks find_chunk_boundaries_pattern_spec chunks_cover
      test_pattern_cursor_ok)

text \<open>A generated test passes when its body does on every case that the generator can produce.\<close>

lemma generated_ok:
  assumes "\<And>i. i < m \<Longrightarrow> returns (gen i) P" "\<And>i x. P x \<Longrightarrow> body i x = Ret ()"
  shows "for_each (\<lambda>i. rbind (gen i) (body i)) [0..<m] = Ret ()"
  using assms by (intro for_each_Ret) (force simp: returns_def)

lemma corpus_ok: "\<forall>x\<in>set xs. f x = Ret () \<Longrightarrow> for_each f xs = Ret ()"
  by (intro for_each_Ret) blast

lemma length_byte_text [simp]: "length (byte_text s) = length s" "byte_text s = [] \<longleftrightarrow> s = []"
  by (simp_all add: byte_text_def)

lemma scan_tests_ok:
  "single_byte_oracle_matches_deterministic_corpus ptr = Ret ()"
  "single_byte_oracle_matches_generated_cases addr = Ret ()"
  "cursor_ranges_match_single_byte_oracle addr = Ret ()"
  "pattern_oracle_matches_deterministic_fixtures ptr = Ret ()"
  "pattern_oracle_matches_generated_cases addr = Ret ()"
  "pattern_cursor_ranges_match_pattern_oracle addr = Ret ()"
proof -
  show "single_byte_oracle_matches_deterministic_corpus ptr = Ret ()"
    unfolding single_byte_oracle_matches_deterministic_corpus_def
    by (rule corpus_ok) (simp add: single_corpus_def check_single_ok)
  show "pattern_oracle_matches_deterministic_fixtures ptr = Ret ()"
    unfolding pattern_oracle_matches_deterministic_fixtures_def
    by (rule corpus_ok) (simp add: pattern_fixtures_def check_pattern_ok)
  show "single_byte_oracle_matches_generated_cases addr = Ret ()"
    unfolding single_byte_oracle_matches_generated_cases_def
    by (rule generated_ok [OF generated_single_ok]) (auto simp: check_single_ok)
  show "cursor_ranges_match_single_byte_oracle addr = Ret ()"
    unfolding cursor_ranges_match_single_byte_oracle_def
    by (rule generated_ok [OF generated_single_ok]) (auto simp: check_cursor_ok)
  show "pattern_oracle_matches_generated_cases addr = Ret ()"
    unfolding pattern_oracle_matches_generated_cases_def
    by (rule generated_ok [OF generated_pattern_ok]) (auto simp: check_pattern_ok)
  show "pattern_cursor_ranges_match_pattern_oracle addr = Ret ()"
    unfolding pattern_cursor_ranges_match_pattern_oracle_def
    by (rule generated_ok [OF generated_pattern_ok]) (auto simp: check_pattern_cursor_ok)
qed

lemma swar_delimiters_ok:
  assumes "valid_slice haystack" "n + 256 \<le> usize_max"
  shows "returns (swar_delimiters ptr haystack n) (\<lambda>n'. n' = n + 256)"
proof -
  have "returns (for_fold (\<lambda>delimiter comparisons.
         rbind (find_byte_swar ptr haystack delimiter) (\<lambda>found.
         rbind (scalar_byte_position haystack delimiter) (\<lambda>expected.
         rbind (rassert (found = expected)) (\<lambda>_. add_usize comparisons 1)))) ds n) (\<lambda>n'. id n' = id n + 1 * length ds)" if "length ds = 256" for ds
    using assms that
    by (intro returns_count [where b = usize_max])
      (simp_all add: find_byte_swar_position scalar_byte_position_eq returns_add)
  from this [of "map word_of_nat [0..<256]"] show ?thesis
    by (simp only: swar_delimiters_def id_apply length_map length_upt) simp
qed

lemma swar_haystack_ok:
  assumes "len \<le> 256" "snd st + 256 \<le> usize_max"
  shows "returns (swar_haystack ptr prefix len st) (\<lambda>st'. snd st' = snd st + 256)"
proof -
  obtain rng n bs rng' where st: "st = (rng, n)" "random_bytes len rng = (bs, rng')" by (cases st) force
  then have "valid_slice bs" using assms(1) random_bytes_length [OF st(2)] by simp
  with swar_delimiters_ok [of bs n "ptr + prefix"] assms st show ?thesis
    by (simp add: swar_haystack_def Let_def slice_from_def returns_rmap)
qed

lemma swar_test_ok: "swar_matches_scalar_byte_search_across_offsets_and_lengths addr = Ret ()"
proof -
  have lens: "\<forall>len\<in>set swar_lengths. len \<le> 256" "length swar_lengths = 20" by (simp_all add: swar_lengths_def)
  have one: "returns (for_fold (swar_haystack ptr prefix) swar_lengths st) (\<lambda>st'. snd st' = snd st + 5120)"
    if "snd st + 5120 \<le> usize_max" for ptr prefix st
    using returns_count [of swar_lengths snd 256 usize_max "swar_haystack ptr prefix" st] swar_haystack_ok lens that by simp
  have all: "returns (for_fold (\<lambda>prefix. for_fold (swar_haystack ptr prefix) swar_lengths) [0..<8] st) (\<lambda>st'. snd st' = snd st + 40960)"
    if "snd st + 40960 \<le> usize_max" for ptr st
    using returns_count [of "[0..<8]" snd 5120 usize_max "\<lambda>prefix. for_fold (swar_haystack ptr prefix) swar_lengths" st] one that
    by simp
  have "returns (for_fold (\<lambda>i comparisons.
         rmap snd (for_fold (\<lambda>prefix. for_fold (swar_haystack (addr i) prefix) swar_lengths) [0..<8]
           (lcg_new (SWAR_SEED XOR word_of_nat i), comparisons))) [0..<16] 0) (\<lambda>n. id n = id 0 + 40960 * length [0..<16])"
    by (rule returns_count [where b = usize_max]) (auto simp: max_consts intro!: returns_rmap all [THEN returns_mono])
  then show ?thesis
    unfolding swar_matches_scalar_byte_search_across_offsets_and_lengths_def
    by (auto simp: returns_def swar_lengths_def)
qed

lemma partition_plan:
  fixes data :: bytes and d :: byte and n :: nat
  assumes "valid_slice data"
  obtains rs where "\<And>ptr. find_partition_boundaries ptr data n d = Ret rs"
    "scalar_partition_boundaries data n d = Ret rs" "assert_partition_invariants data n d rs"
proof (rule that)
  let ?rs = "plan_spec (record_cut [d] data) (length data) (min n (length data))"
  show eq: "find_partition_boundaries ptr data n d = Ret ?rs" for ptr using assms by (rule find_partition_boundaries_spec)
  then show "scalar_partition_boundaries data n d = Ret ?rs" using find_partition_scalar [OF assms] by metis
  show "assert_partition_invariants data n d ?rs"
    using plan_spec_invariants_byte [OF assms, of "min n (length data)" d] invariants_mono(2) by simp
qed

lemma partition_pattern_plan:
  fixes data p :: bytes and n :: nat
  assumes "valid_slice data" "valid_slice p" "p \<noteq> []" "length data * n \<le> usize_max"
  obtains rs where "\<And>ptr. find_partition_boundaries_pattern ptr data n p = Ret rs"
    "scalar_partition_boundaries_pattern data n p = Ret rs" "assert_partition_invariants_pattern data n p rs"
proof (rule that)
  let ?rs = "plan_spec (record_cut p data) (length data) (min n (length data))"
  show eq: "find_partition_boundaries_pattern ptr data n p = Ret ?rs" for ptr
    using assms(1-3) by (rule find_partition_boundaries_pattern_spec)
  then show "scalar_partition_boundaries_pattern data n p = Ret ?rs"
    using find_partition_pattern_scalar [OF assms] by metis
  show "assert_partition_invariants_pattern data n p ?rs"
    using plan_spec_invariants [OF assms(1,3,2), of "min n (length data)"] invariants_mono(1) by simp
qed

lemma check_partition_ok:
  assumes "valid_slice data"
  shows "check_partition_case ptr (data, n, d) = Ret ()"
  by (rule partition_plan [OF assms, of n d]) (simp add: check_partition_case_def)

lemma check_partition_pattern_ok:
  assumes "valid_slice data" "valid_slice p" "p \<noteq> []" "length data * n \<le> usize_max"
  shows "check_partition_pattern_case ptr (data, n, p) = Ret ()"
  by (rule partition_pattern_plan [OF assms]) (simp add: check_partition_pattern_case_def)

lemma partition_capped:
  assumes "valid_slice data" "length data < n"
  shows "find_partition_boundaries ptr data n d = find_partition_boundaries ptr data (length data) d"
  using assms by (simp add: find_partition_boundaries_spec min_def)

lemma partition_pattern_capped:
  assumes "valid_slice data" "valid_slice p" "p \<noteq> []" "length data < n"
  shows "find_partition_boundaries_pattern ptr data n p = find_partition_boundaries_pattern ptr data (length data) p"
  using assms by (simp add: find_partition_boundaries_pattern_spec min_def)

lemma partition_tests_ok:
  "partition_oracle_matches_deterministic_fixtures ptr = Ret ()"
  "partition_oracle_matches_generated_cases addr = Ret ()"
  "partition_request_above_file_len_matches_file_len_oracle addr = Ret ()"
  "partition_pattern_delegates_to_single_byte_path addr = Ret ()"
proof -
  have "for_each (check_partition_case ptr) partition_fixtures = Ret ()"
    by (rule corpus_ok) (simp add: partition_fixtures_def check_partition_ok)
  moreover have "valid_slice giant_records" by (simp add: giant_records_def valid_slice_def max_consts)
  ultimately show "partition_oracle_matches_deterministic_fixtures ptr = Ret ()"
    by (simp add: partition_oracle_matches_deterministic_fixtures_def check_partition_ok)
  have body: "rbind (scalar_partition_boundaries data n d) (\<lambda>expected.
         rbind (find_partition_boundaries ptr data n d) (\<lambda>actual.
         rbind (rassert (actual = expected)) (\<lambda>_.
         rbind (rassert (assert_partition_invariants data n d actual)) (\<lambda>_.
         rbind (find_partition_boundaries ptr data n d) (\<lambda>again.
         rassert (again = actual)))))) = Ret ()" if "length data \<le> 256" for ptr n :: nat and data :: bytes and d
    by (rule partition_plan [of data n d]) (use that in simp_all)
  show "partition_oracle_matches_generated_cases addr = Ret ()"
    unfolding partition_oracle_matches_generated_cases_def
    by (rule generated_ok [OF generated_partition_ok]) (auto simp: body)
  show "partition_pattern_delegates_to_single_byte_path addr = Ret ()"
    unfolding partition_pattern_delegates_to_single_byte_path_def
    by (rule generated_ok [OF generated_partition_ok]) (auto simp: find_partition_boundaries_spec find_partition_boundaries_pattern_def)
  show "partition_request_above_file_len_matches_file_len_oracle addr = Ret ()"
    unfolding partition_request_above_file_len_matches_file_len_oracle_def
    by (rule generated_ok [OF generated_partition_ok])
      (auto simp: add_usize_def max_consts partition_capped less_Suc_eq
        find_partition_boundaries_spec [where n = "length xs" for xs])
qed

lemma partition_pattern_tests_ok:
  "partition_pattern_matches_scalar_oracle_for_fixtures ptr = Ret ()"
  "partition_pattern_matches_generated_cases addr = Ret ()"
  "partition_pattern_request_above_file_len_matches_file_len_oracle addr = Ret ()"
proof -
  have "for_each (check_partition_pattern_case ptr) partition_pattern_fixtures = Ret ()"
    by (rule corpus_ok) (simp add: partition_pattern_fixtures_def check_partition_pattern_ok max_consts)
  moreover have "valid_slice giant_crlf_records" "length giant_crlf_records * 64 \<le> usize_max"
    by (simp_all add: giant_crlf_records_def valid_slice_def max_consts)
  ultimately show "partition_pattern_matches_scalar_oracle_for_fixtures ptr = Ret ()"
    by (simp add: partition_pattern_matches_scalar_oracle_for_fixtures_def check_partition_pattern_ok)
  have body: "rbind (scalar_partition_boundaries_pattern data n p) (\<lambda>expected.
         rbind (find_partition_boundaries_pattern ptr data n p) (\<lambda>actual.
         rbind (rassert (actual = expected)) (\<lambda>_.
         rbind (rassert (assert_partition_invariants_pattern data n p actual)) (\<lambda>_.
         rbind (find_partition_boundaries_pattern ptr data n p) (\<lambda>again.
         rassert (again = actual)))))) = Ret ()"
    if c: "length data \<le> 256" "n \<le> 128" "p \<noteq> []" "length p \<le> 64" for ptr n :: nat and data p :: bytes
  proof -
    have "length data * n \<le> 256 * 128" using c by (intro mult_le_mono) simp_all
    then have "length data * n \<le> usize_max" by (simp add: max_consts)
    then obtain rs where "\<And>ptr. find_partition_boundaries_pattern ptr data n p = Ret rs"
      "scalar_partition_boundaries_pattern data n p = Ret rs" "assert_partition_invariants_pattern data n p rs"
      using partition_pattern_plan [of data p n] c by auto
    then show ?thesis by simp
  qed
  show "partition_pattern_matches_generated_cases addr = Ret ()"
    unfolding partition_pattern_matches_generated_cases_def
    by (rule generated_ok [OF generated_partition_pattern_ok]) (auto simp: body)
  show "partition_pattern_request_above_file_len_matches_file_len_oracle addr = Ret ()"
    unfolding partition_pattern_request_above_file_len_matches_file_len_oracle_def
    by (rule generated_ok [OF generated_partition_pattern_ok])
      (auto simp: add_usize_def max_consts partition_pattern_capped
        find_partition_boundaries_pattern_spec [where n = "length xs" for xs])
qed

lemma exact_target_test_ok: "partition_pattern_accepts_exact_target_boundaries ptr = Ret ()"
proof -
  define data :: bytes where "data = [97, 13, 10, 98, 13, 10, 99, 13, 10, 100, 13, 10]"
  have eq: "byte_text ''a'' @ [13, 10] @ byte_text ''b'' @ [13, 10] @ byte_text ''c'' @ [13, 10] @ byte_text ''d'' @ [13, 10] = data"
    by (simp add: data_def byte_text_def)
  have len: "length data = 12" by (simp add: data_def)
  then have v: "valid_slice data" "valid_slice [13, 10 :: byte]" "[13, 10 :: byte] \<noteq> []" "length data * 4 \<le> usize_max"
    by (simp_all add: max_consts)
  have "map (\<lambda>i. 12 * i div 4) [1..<4] = [3, 6, 9 :: nat]" by (simp add: upt_rec)
  moreover have "record_cut [13, 10] data t = t" if "t \<in> {3, 6, 9}" for t
    using that by (auto simp: record_cut_def ends_after_def starts_with_def data_def)
  ultimately have plan: "plan_spec (record_cut [13, 10] data) 12 4 = [(0, 3), (3, 6), (6, 9), (9, 12)]"
    by (simp add: plan_spec_def ideal_targets_def)
  have four: "min 4 (12 :: nat) = 4" by simp
  have actual: "find_partition_boundaries_pattern ptr data 4 [13, 10] = Ret [(0, 3), (3, 6), (6, 9), (9, 12)]" for ptr
    using find_partition_boundaries_pattern_spec [OF v(1-3), of ptr 4] unfolding len four plan .
  then have "scalar_partition_boundaries_pattern data 4 [13, 10] = Ret [(0, 3), (3, 6), (6, 9), (9, 12)]"
    using find_partition_pattern_scalar [OF v, of 0] by metis
  with actual show ?thesis
    unfolding partition_pattern_accepts_exact_target_boundaries_def eq Let_def by (simp only: rbind.simps rassert_True simp_thms)
qed

lemma differential_tests_ok:
  "single_byte_oracle_matches_deterministic_corpus ptr = Ret () \<and>
   single_byte_oracle_matches_generated_cases addr = Ret () \<and>
   cursor_ranges_match_single_byte_oracle addr = Ret () \<and>
   pattern_oracle_matches_deterministic_fixtures ptr = Ret () \<and>
   pattern_oracle_matches_generated_cases addr = Ret () \<and>
   pattern_cursor_ranges_match_pattern_oracle addr = Ret () \<and>
   swar_matches_scalar_byte_search_across_offsets_and_lengths addr = Ret () \<and>
   partition_oracle_matches_deterministic_fixtures ptr = Ret () \<and>
   partition_oracle_matches_generated_cases addr = Ret () \<and>
   partition_request_above_file_len_matches_file_len_oracle addr = Ret () \<and>
   partition_pattern_matches_scalar_oracle_for_fixtures ptr = Ret () \<and>
   partition_pattern_matches_generated_cases addr = Ret () \<and>
   partition_pattern_delegates_to_single_byte_path addr = Ret () \<and>
   partition_pattern_accepts_exact_target_boundaries ptr = Ret () \<and>
   partition_pattern_request_above_file_len_matches_file_len_oracle addr = Ret () \<and>
   partition_pattern_rejects_empty_delimiter ptr = Panic ''delimiter must not be empty''"
  using scan_tests_ok swar_test_ok partition_tests_ok partition_pattern_tests_ok exact_target_test_ok
  by (simp add: partition_pattern_rejects_empty_delimiter_def find_partition_boundaries_pattern_def empty_delimiter_msg_def)

end
