(* ===== verification/Source_Tests.thy ===== *)
theory Source_Tests
  imports Read_Bounds Differential_Tests
begin

section \<open>The unit tests of the byte sources\<close>

text \<open>
  The tests of \<open>src/src/source.rs\<close> that need no file: the buffered planner over the short-reading
  source and over the counting source, on fixed and computed contents, with every assertion,
  \<open>unwrap\<close> and \<open>expect\<close> as a possible panic. The contents lie at the address \<open>ptr\<close>, the scan
  buffers at \<open>bptr\<close>; \<open>alloc\<close> says which buffer sizes can be allocated.
\<close>

subsection \<open>Tests of parity\<close>

text \<open>\<open>plan_partition_boundaries(..).unwrap()\<close>\<close>

definition plan_unwrap :: "('a io \<times> 's) run \<Rightarrow> ('a \<times> 's) run" where
  "plan_unwrap m = rbind m (\<lambda>(r, s). case r of
     Inl e \<Rightarrow> Panic ''called `Result::unwrap()` on an `Err` value''
   | Inr x \<Rightarrow> Ret (x, s))"

text \<open>The plan of the slice scanner, the plan over a source, and the assertion that they agree.\<close>

definition plan_parity ::
  "(nat \<Rightarrow> bool) \<Rightarrow> nat \<Rightarrow> nat \<Rightarrow> 's byte_source_ops \<Rightarrow> bytes \<Rightarrow> nat \<Rightarrow> bytes \<Rightarrow> nat \<Rightarrow> 's \<Rightarrow> (brange list \<times> 's) run" where
  "plan_parity alloc bptr ptr src content parts delimiter scan s =
     rbind (find_partition_boundaries_pattern ptr content parts delimiter) (\<lambda>expected.
     rbind (plan_unwrap (plan_partition_boundaries alloc bptr src parts delimiter scan s)) (\<lambda>(actual, s').
     rbind (rassert (actual = expected)) (\<lambda>_. Ret (actual, s'))))"

definition dribble_source_matches_reference_for_patterns :: "(nat \<Rightarrow> bool) \<Rightarrow> nat \<Rightarrow> nat \<Rightarrow> unit run" where
  "dribble_source_matches_reference_for_patterns alloc bptr ptr =
     (let content = byte_text ''a'' @ [13, 10] @ byte_text ''bb'' @ [13, 10] @ byte_text ''ccc'' @ [13, 10] @
        byte_text ''dddd'' @ [13, 10] @ byte_text ''eeeee'' @ [13, 10] @ byte_text ''ffff'' @ [13, 10] in
      for_each (\<lambda>parts.
        for_each (\<lambda>delimiter. rassert (assert_sources_match alloc bptr ptr content parts delimiter))
          [[10], [13, 10], [13, 10, 13, 10]]) [1, 2, 3, 8, 64])"

text \<open>Record \<open>i\<close> of the generated content: up to 22 copies of a letter, and one of two terminators\<close>

definition generated_record :: "nat \<Rightarrow> bytes" where
  "generated_record i =
     replicate (i mod 23) (of_char (CHR ''a'') + of_nat (i mod 26)) @ (if i mod 3 = 0 then [13, 10] else [10])"

definition dribble_source_matches_reference_for_generated_content :: "(nat \<Rightarrow> bool) \<Rightarrow> nat \<Rightarrow> nat \<Rightarrow> unit run" where
  "dribble_source_matches_reference_for_generated_content alloc bptr ptr =
     (let content = concat (map generated_record [0..<500]) in
      for_each (\<lambda>parts.
        rbind (rassert (assert_sources_match alloc bptr ptr content parts [13, 10])) (\<lambda>_.
        rassert (assert_sources_match alloc bptr ptr content parts [10]))) [1, 2, 5, 17, 100, 1000])"

definition dribble_source_matches_reference_with_tiny_reads :: "(nat \<Rightarrow> bool) \<Rightarrow> nat \<Rightarrow> nat \<Rightarrow> unit run" where
  "dribble_source_matches_reference_with_tiny_reads alloc bptr ptr =
     (let content = byte_text ''a'' @ [13, 10] @ byte_text ''bb'' @ [13, 10] @ byte_text ''ccc'' @ [13, 10] @
        byte_text ''dddd'' @ [13, 10] in
      for_each (\<lambda>parts.
        for_each (\<lambda>delimiter.
          let source = \<lparr>dr_data = content, dr_max_read = 1\<rparr> in
          rbind (plan_parity alloc bptr ptr (dribble_source source) content parts delimiter 8 ()) (\<lambda>_. Ret ()))
          [[10], [13, 10]]) [1, 2, 3, 4, 8])"

definition dribble_source_edge_cases :: "(nat \<Rightarrow> bool) \<Rightarrow> nat \<Rightarrow> unit run" where
  "dribble_source_edge_cases alloc bptr =
     rbind (plan_unwrap (plan_partition_boundaries alloc bptr (dribble_source \<lparr>dr_data = [], dr_max_read = 1\<rparr>) 4 [13, 10] 8 ()))
       (\<lambda>(actual, _). rbind (rassert (actual = [])) (\<lambda>_.
     rbind (plan_unwrap (plan_partition_boundaries alloc bptr (dribble_source \<lparr>dr_data = byte_text ''x'', dr_max_read = 1\<rparr>) 0 [13, 10] 8 ()))
       (\<lambda>(actual, _). rbind (rassert (actual = [])) (\<lambda>_.
     rbind (plan_unwrap (plan_partition_boundaries alloc bptr (dribble_source \<lparr>dr_data = byte_text ''only record'', dr_max_read = 2\<rparr>) 8 [13, 10] 8 ()))
       (\<lambda>(actual, _). rassert (actual = [(0, 11)]))))))"

subsection \<open>Tests of the adaptive probe\<close>

definition jsonl_line :: bytes where
  "jsonl_line = byte_text ''2024-01-15T10:30:00Z,event_type_alpha,192.168.1.100,user_12345,session_abc,payload_00042,status_ok'' @ [10]"

lemma length_jsonl_line: "length jsonl_line = 99"
  by (simp add: jsonl_line_def)

lemma as_usize_add: "as_usize n + m \<le> usize_max \<Longrightarrow> as_usize (n + m) = as_usize n + m"
  using mod_add_left_eq [of n "2 ^ 64" m] by (simp only: as_usize_def max_consts) simp

text \<open>The loop that repeats the line up to a mebibyte\<close>

function fill_lines :: "bytes \<Rightarrow> bytes" where
  "fill_lines content = (if slen content < 1024 * 1024 then fill_lines (content @ jsonl_line) else content)"
  by pat_completeness auto
termination
proof (relation "measure (\<lambda>content. 1024 * 1024 - slen content)")
  fix content :: bytes
  assume "slen content < 1024 * 1024"
  moreover from this have "slen (content @ jsonl_line) = slen content + 99"
    using as_usize_add [of "length content" 99] by (simp add: slen_def length_jsonl_line max_consts)
  ultimately show "(content @ jsonl_line, content) \<in> measure (\<lambda>content. 1024 * 1024 - slen content)" by simp
qed simp

declare fill_lines.simps [simp del]

definition adaptive_probe_reduces_dense_read_amplification :: "(nat \<Rightarrow> bool) \<Rightarrow> nat \<Rightarrow> nat \<Rightarrow> unit run" where
  "adaptive_probe_reduces_dense_read_amplification alloc bptr ptr =
     (let content = fill_lines []; (source, state) = counting_new content usize_max in
      rbind (plan_unwrap (rmap (\<lambda>(r, _, s). (r, s))
          (find_pattern_from (counting_ops source) bptr 1 [10] (replicate DEFAULT_SCAN_BUFFER_BYTES 0) state))) (\<lambda>(result, state).
      case result of
        None \<Rightarrow> Panic ''delimiter must be found''
      | Some found \<Rightarrow>
          rbind (rassert (found = slen jsonl_line - 1)) (\<lambda>_.
          let (_, requested, returned) = counting_totals state in
          rbind (rassert (requested \<le> 4096)) (\<lambda>_.
          rbind (rassert (returned \<le> 4096)) (\<lambda>_.
          let misaligned = content @ replicate 37 (of_char (CHR ''x'')); (source, state) = counting_new misaligned usize_max in
          rbind (plan_parity alloc bptr ptr (counting_ops source) misaligned 16 [10] DEFAULT_SCAN_BUFFER_BYTES state)
            (\<lambda>(actual, _). rassert (partition_inv_loop misaligned [10] 0 actual = Some (slen misaligned))))))))"

definition adversarial_cases :: "(bytes \<times> nat \<times> bytes) list" where
  "adversarial_cases =
     [([], 4, [10]),
      (byte_text ''only record'', 8, [10]),
      (byte_text ''no delimiter here'', 4, [10]),
      (byte_text ''a'' @ [10] @ byte_text ''b'' @ [10] @ byte_text ''c'' @ [10] @ byte_text ''d'' @ [10] @ byte_text ''e'' @ [10] @
         byte_text ''f'' @ [10] @ byte_text ''g'' @ [10] @ byte_text ''h'' @ [10], 4, [10]),
      (replicate (1024 * 1024) (of_char (CHR ''x'')), 4, [10]),
      (byte_text ''aaa'' @ [10], 4, [10]),
      (byte_text ''a'' @ [10, 10, 10] @ byte_text ''b'' @ [10], 8, [10]),
      ([10] @ byte_text ''abc'' @ [10], 4, [10]),
      (byte_text ''aaaaaa'', 3, byte_text ''aa''),
      (byte_text ''a'' @ [13, 10, 13, 10] @ byte_text ''b'' @ [13, 10], 4, [13, 10]),
      (byte_text ''one'' @ [13, 10, 13, 10] @ byte_text ''two'' @ [13, 10, 13, 10] @ byte_text ''three'' @ [13, 10, 13, 10],
         2, [13, 10, 13, 10]),
      (replicate 4095 (of_char (CHR ''x'')) @ [13, 10] @ replicate 4095 (of_char (CHR ''y'')) @ [13, 10], 4, [13, 10]),
      (byte_text ''abc'' @ [13], 2, [13, 10]),
      (byte_text ''a'' @ [13, 10] @ byte_text ''b'' @ [13, 10] @ byte_text ''c'' @ [13, 10] @ byte_text ''d'' @ [13, 10], 100, [13, 10]),
      (byte_text ''a'' @ [13, 10] @ byte_text ''b'' @ [13, 10] @ byte_text ''c'' @ [13, 10] @ byte_text ''d'' @ [13, 10], 4, [13, 10]),
      (byte_text ''a'' @ [10] @ byte_text ''b'' @ [10] @ byte_text ''c'' @ [10], usize_max, [10])]"

definition check_adversarial_case :: "(nat \<Rightarrow> bool) \<Rightarrow> nat \<Rightarrow> nat \<Rightarrow> bytes \<times> nat \<times> bytes \<Rightarrow> nat \<Rightarrow> unit run" where
  "check_adversarial_case alloc bptr ptr = (\<lambda>(content, parts, delimiter) max_read.
     let (source, state) = counting_new content max_read in
     rbind (plan_parity alloc bptr ptr (counting_ops source) content parts delimiter DEFAULT_SCAN_BUFFER_BYTES state) (\<lambda>(actual, _).
     if content = [] \<or> parts = 0 then rassert (actual = [])
     else rassert (partition_inv_loop content delimiter 0 actual = Some (slen content))))"

definition adaptive_probe_matches_oracle_across_adversarial_matrix :: "(nat \<Rightarrow> bool) \<Rightarrow> nat \<Rightarrow> nat \<Rightarrow> unit run" where
  "adaptive_probe_matches_oracle_across_adversarial_matrix alloc bptr ptr =
     rbind (for_each (\<lambda>c. for_each (check_adversarial_case alloc bptr ptr c) [usize_max, 1]) adversarial_cases) (\<lambda>_.
     let content = byte_text ''a'' @ [13, 10] @ byte_text ''b'' @ [13, 10] @ byte_text ''c'' @ [13, 10] @ byte_text ''d'' @ [13, 10] @
           byte_text ''e'' @ [13, 10] @ byte_text ''f'' @ [13, 10];
         (source, state) = counting_new content usize_max;
         plan = plan_unwrap (plan_partition_boundaries alloc bptr (counting_ops source) 3 [13, 10] DEFAULT_SCAN_BUFFER_BYTES state)
     in
     rbind plan (\<lambda>(first, _).
     rbind (for_each (\<lambda>_. rbind plan (\<lambda>(again, _). rassert (again = first))) [0..<8 :: nat]) (\<lambda>_.
     rbind (find_partition_boundaries ptr content 3 10) (\<lambda>single.
     rbind (find_partition_boundaries_pattern ptr content 3 [10]) (\<lambda>via_pattern.
     rassert (single = via_pattern))))))"

definition adaptive_probe_handles_long_delimiter_without_unbounded_alloc :: "(nat \<Rightarrow> bool) \<Rightarrow> nat \<Rightarrow> nat \<Rightarrow> unit run" where
  "adaptive_probe_handles_long_delimiter_without_unbounded_alloc alloc bptr ptr =
     (let delimiter = replicate (10 * 1024) (of_char (CHR ''D''));
          content = replicate 4000 (of_char (CHR ''x'')) @ delimiter @ replicate 4000 (of_char (CHR ''y'')) @ delimiter @
            replicate 100 (of_char (CHR ''z''));
          (source, state) = counting_new content usize_max
      in
      rbind (plan_parity alloc bptr ptr (counting_ops source) content 3 delimiter DEFAULT_SCAN_BUFFER_BYTES state) (\<lambda>(_, state).
      let (_, requested, _) = counting_totals state in
      rassert (requested \<le> 2 * DEFAULT_SCAN_BUFFER_BYTES + 2 * slen delimiter)))"

subsection \<open>Tests of the scan buffer\<close>

text \<open>The plan must fail with an error of the given kind (\<open>expect_err\<close>).\<close>

definition expect_plan_error :: "string \<Rightarrow> (brange list io \<times> unit) run \<Rightarrow> io_kind \<Rightarrow> unit run" where
  "expect_plan_error msg m kind = rbind m (\<lambda>(r, _). case r of
     Inr _ \<Rightarrow> Panic msg
   | Inl e \<Rightarrow> rassert (err_kind e = kind))"

definition lines_a_to_f :: bytes where
  "lines_a_to_f = byte_text ''a'' @ [10] @ byte_text ''b'' @ [10] @ byte_text ''c'' @ [10] @ byte_text ''d'' @ [10] @
     byte_text ''e'' @ [10] @ byte_text ''f'' @ [10]"

definition scan_buffer_extreme_size_returns_invalid_input :: "(nat \<Rightarrow> bool) \<Rightarrow> nat \<Rightarrow> unit run" where
  "scan_buffer_extreme_size_returns_invalid_input alloc bptr =
     expect_plan_error ''extreme scan buffer must not succeed''
       (plan_partition_boundaries alloc bptr (dribble_source \<lparr>dr_data = lines_a_to_f, dr_max_read = usize_max\<rparr>)
       2 [10] usize_max ()) InvalidInput"

definition scan_buffer_unallocatable_size_returns_out_of_memory :: "(nat \<Rightarrow> bool) \<Rightarrow> nat \<Rightarrow> unit run" where
  "scan_buffer_unallocatable_size_returns_out_of_memory alloc bptr =
     expect_plan_error ''unallocatable scan buffer must not succeed''
       (plan_partition_boundaries alloc bptr (dribble_source \<lparr>dr_data = lines_a_to_f, dr_max_read = usize_max\<rparr>)
       2 [10] isize_max ()) OutOfMemory"

definition scan_buffer_zero_matches_slice_oracle :: "(nat \<Rightarrow> bool) \<Rightarrow> nat \<Rightarrow> nat \<Rightarrow> unit run" where
  "scan_buffer_zero_matches_slice_oracle alloc bptr ptr =
     (let content = byte_text ''a'' @ [13, 10] @ byte_text ''bb'' @ [13, 10] @ byte_text ''ccc'' @ [13, 10] @ byte_text ''dddd'' @ [13, 10] in
      rbind (plan_parity alloc bptr ptr (dribble_source \<lparr>dr_data = content, dr_max_read = usize_max\<rparr>) content 3 [13, 10] 0 ()) (\<lambda>_.
      Ret ()))"

subsection \<open>No assertion fails\<close>

text \<open>A source that reports no error plans what the slice scanner plans.\<close>

context byte_source
begin

lemma plan_parity_ok:
  assumes "sinv s" "valid_slice p" "p \<noteq> []" "max scan (length p) \<le> isize_max" "alloc (max scan (length p))"
    "\<And>e. \<not> source_error src sinv e"
  obtains s' where
    "plan_partition_boundaries alloc bptr src n p scan s =
       Ret (Inr (plan_spec (record_cut p content) (length content) (min n (length content))), s')"
    "plan_parity alloc bptr ptr src content n p scan s =
       Ret (plan_spec (record_cut p content) (length content) (min n (length content)), s')"
proof -
  obtain r s' where r: "plan_partition_boundaries alloc bptr src n p scan s = Ret (r, s')"
    "case r of
       Inl e \<Rightarrow> source_error src sinv e \<or> max scan (length p) > isize_max \<and> err_kind e = InvalidInput \<or>
         \<not> alloc (max scan (length p)) \<and> err_kind e = OutOfMemory
     | Inr rs \<Rightarrow> rs = plan_spec (record_cut p content) (length content) (min n (length content))"
    using plan_partition_boundaries_spec [OF assms(1-3), of alloc bptr n scan] by blast
  then have "r = Inr (plan_spec (record_cut p content) (length content) (min n (length content)))"
    using assms(4-6) by (cases r) auto
  with r(1) show thesis
    using assms(1-3) valid_content [OF assms(1)]
    by (intro that) (simp_all add: plan_parity_def plan_unwrap_def find_partition_boundaries_pattern_spec)
qed

end

lemma counting_no_error: "\<not> source_error (counting_ops d) (\<lambda>c. valid_slice (cs_data d) \<and> 0 < cs_max_read d) e"
proof
  assume "source_error (counting_ops d) (\<lambda>c. valid_slice (cs_data d) \<and> 0 < cs_max_read d) e"
  then obtain s off out out' s' where v: "valid_slice (cs_data d)" "valid_slice out"
    and rd: "bs_read_at (counting_ops d) off out s = Ret (Inl e, out', s')"
    by (auto simp: source_error_def)
  from counting_read [OF v refl, of off s] obtain n b s1 where "bs_read_at (counting_ops d) off out s = Ret (Inr n, b, s1)" by blast
  with rd show False by simp
qed

lemma plan_covers:
  assumes "content \<noteq> []" "0 < parts" "valid_slice delimiter" "valid_slice content"
  shows "partition_inv_loop content delimiter 0
     (plan_spec (record_cut delimiter content) (length content) (min parts (length content))) = Some (slen content)"
  using assms partition_inv_loop_tiles [OF assms(3) rec.plan_spec_tiles plan_spec_aligned] by simp

text \<open>Buffers up to the default size can be allocated.\<close>

definition buffers_ok :: "(nat \<Rightarrow> bool) \<Rightarrow> bool" where
  "buffers_ok alloc \<longleftrightarrow> (\<forall>k \<le> DEFAULT_SCAN_BUFFER_BYTES. alloc k)"

lemma buffers_okD: "buffers_ok alloc \<Longrightarrow> k \<le> 1048576 \<Longrightarrow> alloc k"
  by (simp add: buffers_ok_def DEFAULT_SCAN_BUFFER_BYTES_def)

lemma counting_parity:
  assumes "buffers_ok alloc" "valid_slice content" "delimiter \<noteq> []" "length delimiter \<le> DEFAULT_SCAN_BUFFER_BYTES" "0 < m"
  obtains c' where
    "plan_partition_boundaries alloc bptr (counting_ops \<lparr>cs_data = content, cs_max_read = m\<rparr>) parts delimiter DEFAULT_SCAN_BUFFER_BYTES c =
       Ret (Inr (plan_spec (record_cut delimiter content) (length content) (min parts (length content))), c')"
    "plan_parity alloc bptr ptr (counting_ops \<lparr>cs_data = content, cs_max_read = m\<rparr>) content parts delimiter DEFAULT_SCAN_BUFFER_BYTES c =
       Ret (plan_spec (record_cut delimiter content) (length content) (min parts (length content)), c')"
proof -
  let ?d = "\<lparr>cs_data = content, cs_max_read = m\<rparr>"
  have i: "valid_slice (cs_data ?d) \<and> 0 < cs_max_read ?d" using assms(2,5) by simp
  have v: "valid_slice delimiter" using assms(4) by (simp add: valid_slice_def max_consts DEFAULT_SCAN_BUFFER_BYTES_def)
  have "max DEFAULT_SCAN_BUFFER_BYTES (length delimiter) = DEFAULT_SCAN_BUFFER_BYTES" using assms(4) by simp
  moreover have "alloc DEFAULT_SCAN_BUFFER_BYTES" "DEFAULT_SCAN_BUFFER_BYTES \<le> isize_max"
    using assms(1) by (simp_all add: buffers_ok_def DEFAULT_SCAN_BUFFER_BYTES_def max_consts)
  ultimately show thesis
    using counting_any.plan_parity_ok [OF i v assms(3) _ _ counting_no_error, of DEFAULT_SCAN_BUFFER_BYTES alloc bptr parts c ptr] that
    by auto
qed

lemma check_adversarial_ok:
  assumes "buffers_ok alloc" "valid_slice content" "delimiter \<noteq> []" "length delimiter \<le> DEFAULT_SCAN_BUFFER_BYTES" "0 < max_read"
  shows "check_adversarial_case alloc bptr ptr (content, parts, delimiter) max_read = Ret ()"
proof -
  have "valid_slice delimiter" using assms(4) by (simp add: valid_slice_def max_consts DEFAULT_SCAN_BUFFER_BYTES_def)
  moreover obtain c' where "plan_parity alloc bptr ptr (counting_ops \<lparr>cs_data = content, cs_max_read = max_read\<rparr>) content parts
      delimiter DEFAULT_SCAN_BUFFER_BYTES \<lparr>cs_calls = 0, cs_requested = 0, cs_returned = 0\<rparr> =
       Ret (plan_spec (record_cut delimiter content) (length content) (min parts (length content)), c')"
    using counting_parity [OF assms] by metis
  ultimately show ?thesis
    using plan_covers [of content parts delimiter] assms(2)
    by (auto simp: check_adversarial_case_def counting_new_def plan_spec_def)
qed

lemma for_each_all: "\<forall>x\<in>set xs. f x = Ret () \<Longrightarrow> for_each f xs = Ret ()"
  by (rule for_each_Ret) blast

lemma sources_match_ok:
  "buffers_ok alloc \<Longrightarrow> valid_slice content \<Longrightarrow> delimiter \<noteq> [] \<Longrightarrow> length delimiter \<le> 16 \<Longrightarrow> 0 < parts \<Longrightarrow>
    rassert (assert_sources_match alloc bptr ptr content parts delimiter) = Ret ()"
  by (simp add: sources_match_always buffers_okD rassert_def)

lemma dribble_parity_ok:
  assumes "buffers_ok alloc" "valid_slice content" "0 < m" "delimiter \<noteq> []" "max scan (length delimiter) \<le> 256"
  shows "\<exists>s'. plan_partition_boundaries alloc bptr (dribble_source \<lparr>dr_data = content, dr_max_read = m\<rparr>) n delimiter scan () =
       Ret (Inr (plan_spec (record_cut delimiter content) (length content) (min n (length content))), s') \<and>
     plan_parity alloc bptr ptr (dribble_source \<lparr>dr_data = content, dr_max_read = m\<rparr>) content n delimiter scan () =
       Ret (plan_spec (record_cut delimiter content) (length content) (min n (length content)), s')"
proof -
  have i: "dribble_inv \<lparr>dr_data = content, dr_max_read = m\<rparr> ()" using assms(2,3) by (simp add: dribble_inv_def)
  have "max scan (length delimiter) \<le> isize_max" "alloc (max scan (length delimiter))"
    using assms(1,5) by (simp_all add: buffers_okD max_consts)
  with dribble_src.plan_parity_ok [OF i _ assms(4) _ _ dribble_no_error, of scan alloc bptr n ptr] assms(5)
  show ?thesis by auto
qed

lemma dribble_tests_ok:
  assumes "buffers_ok alloc"
  shows "dribble_source_matches_reference_for_patterns alloc bptr ptr = Ret ()"
    "dribble_source_matches_reference_for_generated_content alloc bptr ptr = Ret ()"
    "dribble_source_matches_reference_with_tiny_reads alloc bptr ptr = Ret ()"
    "scan_buffer_zero_matches_slice_oracle alloc bptr ptr = Ret ()"
proof -
  note match = sources_match_ok [OF assms]
  show "dribble_source_matches_reference_for_patterns alloc bptr ptr = Ret ()"
    by (simp add: dribble_source_matches_reference_for_patterns_def Let_def match)
  have "i mod 23 \<le> 22" for i :: nat by presburger
  then have one: "length (generated_record i) \<le> 24" for i by (simp add: generated_record_def)
  have "length (concat (map generated_record [0..<n])) \<le> n * 24" for n
  proof (induction n)
    case (Suc n)
    with one [of n] show ?case by simp
  qed simp
  from this [of 500] have "valid_slice (concat (map generated_record [0..<500]))" by (simp add: valid_slice_def max_consts)
  then show "dribble_source_matches_reference_for_generated_content alloc bptr ptr = Ret ()"
    by (simp add: dribble_source_matches_reference_for_generated_content_def Let_def match)
  have parity: "rbind (plan_parity alloc bptr ptr (dribble_source \<lparr>dr_data = content, dr_max_read = m\<rparr>) content n delimiter scan ())
      (\<lambda>_. Ret ()) = Ret ()"
    if "length content \<le> 256" "0 < m" "delimiter \<noteq> []" "max scan (length delimiter) \<le> 256" for content m n delimiter scan
    using dribble_parity_ok [OF assms _ that(2-4), of content bptr n ptr] that(1) by auto
  have usize: "0 < usize_max" by (simp add: max_consts)
  show "dribble_source_matches_reference_with_tiny_reads alloc bptr ptr = Ret ()"
    by (simp add: dribble_source_matches_reference_with_tiny_reads_def Let_def parity)
  show "scan_buffer_zero_matches_slice_oracle alloc bptr ptr = Ret ()"
    by (simp add: scan_buffer_zero_matches_slice_oracle_def Let_def parity usize)
qed

lemma edge_cases_ok:
  assumes "buffers_ok alloc"
  shows "dribble_source_edge_cases alloc bptr = Ret ()"
proof -
  have plan: "\<exists>s'. plan_unwrap (plan_partition_boundaries alloc bptr (dribble_source \<lparr>dr_data = content, dr_max_read = m\<rparr>) n [13, 10] 8 ()) =
      Ret (plan_spec (record_cut [13, 10] content) (length content) (min n (length content)), s')"
    if "length content \<le> 256" "0 < m" for content m n
    using dribble_parity_ok [OF assms _ that(2), of content "[13, 10]" 8 bptr n 0] that(1) by (auto simp: plan_unwrap_def)
  have "13 \<notin> set (byte_text ''only record'')" by (simp add: byte_text_def)
  then have none: "\<not> starts_with (drop t (byte_text ''only record'')) [13, 10]" for t
    using in_set_dropD [of 13 t "byte_text ''only record''"]
    by (cases "drop t (byte_text ''only record'')") (auto simp: starts_with_def)
  have len: "length (byte_text ''only record'') = 11" by simp
  have "record_cut [13, 10] (byte_text ''only record'') t = 11" if "t \<le> 11" for t
  proof -
    have "first_occ [13, 10] (drop t (byte_text ''only record'')) = None"
      unfolding first_occ_None_iff drop_drop using none by blast
    moreover have "\<not> ends_after [13, 10] (byte_text ''only record'') t" using none unfolding ends_after_def by blast
    ultimately show ?thesis unfolding record_cut_def next_cut_def len by simp
  qed
  then have "plan_spec (record_cut [13, 10] (byte_text ''only record'')) 11 8 = [(0, 11)]"
    by (simp add: plan_spec_def ideal_targets_def upt_rec)
  moreover have "min 8 (11 :: nat) = 8" by simp
  ultimately obtain u where "plan_unwrap (plan_partition_boundaries alloc bptr
      (dribble_source \<lparr>dr_data = byte_text ''only record'', dr_max_read = 2\<rparr>) 8 [13, 10] 8 ()) = Ret ([(0, 11)], u)" (is ?last)
    using plan [of "byte_text ''only record''" 2 8] unfolding len by auto
  have small: "\<exists>u. plan_unwrap (plan_partition_boundaries alloc bptr
      (dribble_source \<lparr>dr_data = content, dr_max_read = 1\<rparr>) n [13, 10] 8 ()) = Ret ([], u)"
    if "content = [] \<or> n = 0" "length content \<le> 256" for content n
    using plan [of content 1 n] that by (auto simp: plan_spec_def)
  obtain u1 where "plan_unwrap (plan_partition_boundaries alloc bptr
      (dribble_source \<lparr>dr_data = [], dr_max_read = 1\<rparr>) 4 [13, 10] 8 ()) = Ret ([], u1)"
    using small [of "[]" 4] by auto
  moreover obtain u2 where "plan_unwrap (plan_partition_boundaries alloc bptr
      (dribble_source \<lparr>dr_data = byte_text ''x'', dr_max_read = 1\<rparr>) 0 [13, 10] 8 ()) = Ret ([], u2)"
    using small [of "byte_text ''x''" 0] by auto
  ultimately show ?thesis using \<open>?last\<close> by (simp only: dribble_source_edge_cases_def rbind.simps prod.case rassert_True simp_thms)
qed

lemma scan_buffer_tests_ok:
  "scan_buffer_extreme_size_returns_invalid_input alloc bptr = Ret ()"
  "\<not> alloc isize_max \<Longrightarrow> scan_buffer_unallocatable_size_returns_out_of_memory alloc bptr = Ret ()"
  by (simp_all add: scan_buffer_extreme_size_returns_invalid_input_def scan_buffer_unallocatable_size_returns_out_of_memory_def
      expect_plan_error_def plan_partition_boundaries_def dribble_source_def lines_a_to_f_def max_consts io_err_def rassert_def)

lemma adversarial_ok:
  assumes "buffers_ok alloc"
  shows "adaptive_probe_matches_oracle_across_adversarial_matrix alloc bptr ptr = Ret ()"
proof -
  have check: "check_adversarial_case alloc bptr ptr (content, parts, delimiter) max_read = Ret ()"
    if "length content \<le> 1048576" "delimiter \<noteq> []" "length delimiter \<le> 256" "0 < max_read" for content parts delimiter max_read
    using check_adversarial_ok [OF assms, of content delimiter max_read bptr ptr parts] that
    by (simp add: valid_slice_def max_consts DEFAULT_SCAN_BUFFER_BYTES_def)
  have cases: "for_each (\<lambda>c. for_each (check_adversarial_case alloc bptr ptr c) [usize_max, 1]) adversarial_cases = Ret ()"
    by (rule for_each_all) (simp add: adversarial_cases_def check max_consts)
  let ?content = "byte_text ''a'' @ [13, 10] @ byte_text ''b'' @ [13, 10] @ byte_text ''c'' @ [13, 10] @ byte_text ''d'' @ [13, 10] @
           byte_text ''e'' @ [13, 10] @ byte_text ''f'' @ [13, 10]"
  let ?d = "\<lparr>cs_data = ?content, cs_max_read = usize_max\<rparr>" and ?c = "\<lparr>cs_calls = 0, cs_requested = 0, cs_returned = 0\<rparr>"
  have v: "valid_slice ?content" "[13, 10 :: byte] \<noteq> []" "length [13, 10 :: byte] \<le> DEFAULT_SCAN_BUFFER_BYTES" "0 < usize_max"
    by (simp_all add: max_consts DEFAULT_SCAN_BUFFER_BYTES_def)
  obtain c' where "plan_partition_boundaries alloc bptr (counting_ops ?d) 3 [13, 10] DEFAULT_SCAN_BUFFER_BYTES ?c =
      Ret (Inr (plan_spec (record_cut [13, 10] ?content) (length ?content) (min 3 (length ?content))), c')"
    using counting_parity [OF assms v] by metis
  then have plan: "plan_unwrap (plan_partition_boundaries alloc bptr (counting_ops ?d) 3 [13, 10] DEFAULT_SCAN_BUFFER_BYTES ?c) =
      Ret (plan_spec (record_cut [13, 10] ?content) (length ?content) (min 3 (length ?content)), c')"
    by (simp only: plan_unwrap_def rbind.simps prod.case sum.case)
  obtain rs where "\<And>ptr. find_partition_boundaries ptr ?content 3 10 = Ret rs" using partition_plan [OF v(1), of 3 10] by metis
  then have single: "find_partition_boundaries ptr ?content 3 10 = Ret rs" "find_partition_boundaries_pattern ptr ?content 3 [10] = Ret rs"
    by (simp_all add: find_partition_boundaries_pattern_def)
  have each: "for_each (\<lambda>_. Ret ()) xs = Ret ()" for xs :: "nat list" by (rule for_each_all) simp
  show ?thesis
    unfolding adaptive_probe_matches_oracle_across_adversarial_matrix_def cases counting_new_def Let_def prod.case
    by (simp only: plan single each rbind.simps prod.case rassert_True simp_thms)
qed

lemma fill_lines_prefix: "\<exists>ys. fill_lines content = content @ ys"
proof (induction content rule: fill_lines.induct)
  case (1 content)
  then show ?case by (subst fill_lines.simps) auto
qed

lemma fill_lines_length: "length content < 1048700 \<Longrightarrow> length (fill_lines content) < 1048700"
proof (induction content rule: fill_lines.induct)
  case (1 content)
  then show ?case by (subst fill_lines.simps) (auto simp: length_jsonl_line slen_def max_consts)
qed

lemma first_occ_after: "d \<notin> set xs \<Longrightarrow> first_occ [d] (xs @ d # ys) = Some (length xs)"
  by (induction xs) (auto simp: starts_with_def)

lemma first_line:
  obtains ys where "drop 1 (fill_lines []) = tl (butlast jsonl_line) @ 10 # ys"
proof -
  have "slen ([] :: bytes) < 1024 * 1024" by (simp add: max_consts)
  then have "fill_lines [] = fill_lines jsonl_line" by (subst fill_lines.simps) simp
  moreover obtain ys where "fill_lines jsonl_line = jsonl_line @ ys" using fill_lines_prefix by blast
  moreover have "jsonl_line = hd jsonl_line # tl (butlast jsonl_line) @ [10]" by (simp add: jsonl_line_def byte_text_def)
  ultimately have "drop 1 (fill_lines []) = tl (butlast jsonl_line) @ 10 # ys"
    by (metis append_Cons append_Nil append_assoc drop0 drop_Suc_Cons One_nat_def)
  then show thesis by (rule that)
qed

lemma line_newline: "first_occ [10] (drop 1 (fill_lines [])) = Some 97"
proof -
  obtain ys where ys: "drop 1 (fill_lines []) = tl (butlast jsonl_line) @ 10 # ys" by (rule first_line)
  have "10 \<notin> set (tl (butlast jsonl_line))" "length (tl (butlast jsonl_line)) = 97" by (simp_all add: jsonl_line_def byte_text_def)
  then show ?thesis unfolding ys by (metis first_occ_after)
qed

text \<open>The dense content: the first probe finds the delimiter and reads no more than it.\<close>

lemma dense_probe:
  assumes "find_pattern_from (counting_ops \<lparr>cs_data = content, cs_max_read = usize_max\<rparr>) bptr 1 [10] buffer c = Ret (r, buffer', c')"
    "content = fill_lines []" "buffer = replicate DEFAULT_SCAN_BUFFER_BYTES 0"
  shows "r = Inr (Some 98) \<and> cs_requested c' \<le> cs_requested c + 4096 \<and> cs_returned c' \<le> cs_returned c + 4096"
proof -
  let ?d = "\<lparr>cs_data = content, cs_max_read = usize_max\<rparr>"
  have "length content < 1048700" unfolding assms(2) by (rule fill_lines_length) simp
  then have i: "valid_slice (cs_data ?d) \<and> isize_max \<le> cs_max_read ?d" by (simp add: valid_slice_def max_consts)
  have b: "valid_slice [10 :: byte]" "[10 :: byte] \<noteq> []" "valid_slice buffer" "length [10 :: byte] \<le> length buffer"
    "2 * (length [10 :: byte] - 1) \<le> length buffer"
    by (simp_all add: assms(3) DEFAULT_SCAN_BUFFER_BYTES_def valid_slice_def max_consts)
  have "fill_lines [] \<noteq> []" using line_newline by auto
  then have t: "1 \<le> length (cs_data ?d)" by (simp add: assms(2) Suc_le_eq)
  have "r = Inr (Some 98)"
    using counting_any.find_pattern_from_spec [OF counting_valid [OF i] b(1-4) t, of bptr c] assms(1,2) line_newline
      counting_no_error [of ?d] by (auto split: sum.splits)
  moreover have "min (max (length [10 :: byte]) ADAPTIVE_INITIAL_PROBE_BYTES) (length buffer) = 4096"
    by (simp add: assms(3) DEFAULT_SCAN_BUFFER_BYTES_def ADAPTIVE_INITIAL_PROBE_BYTES_def)
  ultimately show ?thesis
    using counting_src.find_pattern_from_asked [OF i b(1-4) t b(5) assms(1)]
      counting_ret.find_pattern_from_asked [OF i b(1-4) t b(5) assms(1)]
    by (simp add: assms(3) ADAPTIVE_INITIAL_PROBE_BYTES_def DEFAULT_SCAN_BUFFER_BYTES_def)
qed

lemma dense_test_ok:
  assumes "buffers_ok alloc"
  shows "adaptive_probe_reduces_dense_read_amplification alloc bptr ptr = Ret ()"
proof -
  define content where "content = fill_lines []"
  let ?d = "\<lparr>cs_data = content, cs_max_read = usize_max\<rparr>" and ?c = "\<lparr>cs_calls = 0, cs_requested = 0, cs_returned = 0\<rparr>"
    and ?b = "replicate DEFAULT_SCAN_BUFFER_BYTES (0 :: byte)"
  define misaligned where "misaligned = content @ replicate 37 (of_char (CHR ''x'') :: byte)"
  have len: "length content < 1048700" unfolding content_def by (rule fill_lines_length) simp
  then have i: "valid_slice (cs_data ?d) \<and> 0 < cs_max_read ?d" by (simp add: valid_slice_def max_consts)
  have b: "valid_slice [10 :: byte]" "[10 :: byte] \<noteq> []" "valid_slice ?b" "length [10 :: byte] \<le> length ?b"
    by (simp_all add: DEFAULT_SCAN_BUFFER_BYTES_def valid_slice_def max_consts)
  have "fill_lines [] \<noteq> []" using line_newline by auto
  then have t: "1 \<le> length (cs_data ?d)" "content \<noteq> []" by (simp_all add: content_def Suc_le_eq)
  obtain r b' c' where probe: "find_pattern_from (counting_ops ?d) bptr 1 [10] ?b ?c = Ret (r, b', c')"
    using counting_any.find_pattern_from_spec [OF i b t(1), of bptr ?c] by blast
  from dense_probe [OF this content_def refl] have r: "r = Inr (Some 98)" and c': "cs_requested c' \<le> 4096" "cs_returned c' \<le> 4096"
    by simp_all
  have found: "plan_unwrap (rmap (\<lambda>(r, _, s). (r, s)) (find_pattern_from (counting_ops ?d) bptr 1 [10] ?b ?c)) = Ret (Some 98, c')"
    unfolding probe r by (simp add: plan_unwrap_def)
  have v: "valid_slice misaligned" using len by (simp add: valid_slice_def max_consts misaligned_def)
  have pos: "0 < usize_max" "length [10 :: byte] \<le> DEFAULT_SCAN_BUFFER_BYTES" by (simp_all add: max_consts DEFAULT_SCAN_BUFFER_BYTES_def)
  obtain c2 where plan: "plan_parity alloc bptr ptr (counting_ops \<lparr>cs_data = misaligned, cs_max_read = usize_max\<rparr>) misaligned 16 [10]
      DEFAULT_SCAN_BUFFER_BYTES ?c = Ret (plan_spec (record_cut [10] misaligned) (length misaligned) (min 16 (length misaligned)), c2)"
    using counting_parity [OF assms v b(2) pos(2,1)] by metis
  have line: "98 = slen jsonl_line - 1" by (simp add: length_jsonl_line slen_def max_consts)
  have "misaligned \<noteq> []" by (simp add: misaligned_def)
  then have covers: "partition_inv_loop misaligned [10] 0
      (plan_spec (record_cut [10] misaligned) (length misaligned) (min 16 (length misaligned))) = Some (slen misaligned)"
    using plan_covers [of misaligned 16 "[10]"] v b(1) by simp
  show ?thesis
    unfolding adaptive_probe_reduces_dense_read_amplification_def counting_new_def Let_def prod.case found rbind.simps
      option.case counting_totals_def content_def [symmetric] misaligned_def [symmetric] plan
    using line c' covers by (simp add: rassert_def)
qed

lemma long_delimiter_ok:
  assumes "buffers_ok alloc"
  shows "adaptive_probe_handles_long_delimiter_without_unbounded_alloc alloc bptr ptr = Ret ()"
proof -
  define delimiter where "delimiter = replicate (10 * 1024) (of_char (CHR ''D'') :: byte)"
  define content where "content = replicate 4000 (of_char (CHR ''x'')) @ delimiter @ replicate 4000 (of_char (CHR ''y'')) @ delimiter @
            replicate 100 (of_char (CHR ''z'') :: byte)"
  let ?d = "\<lparr>cs_data = content, cs_max_read = usize_max\<rparr>" and ?c = "\<lparr>cs_calls = 0, cs_requested = 0, cs_returned = 0\<rparr>"
  have len: "length delimiter = 10240" "length content = 28580" by (simp_all add: content_def delimiter_def)
  then have v: "valid_slice content" "valid_slice delimiter" "delimiter \<noteq> []" "length delimiter \<le> DEFAULT_SCAN_BUFFER_BYTES"
      "0 < usize_max" "slen delimiter = 10240" "2 * length delimiter \<le> max DEFAULT_SCAN_BUFFER_BYTES 2"
    by (auto simp: valid_slice_def max_consts DEFAULT_SCAN_BUFFER_BYTES_def slen_def)
  have i: "valid_slice (cs_data ?d) \<and> isize_max \<le> cs_max_read ?d" using v(1) by (simp add: max_consts)
  obtain c' where plan: "plan_partition_boundaries alloc bptr (counting_ops ?d) 3 delimiter DEFAULT_SCAN_BUFFER_BYTES ?c =
       Ret (Inr (plan_spec (record_cut delimiter content) (length content) (min 3 (length content))), c')"
    "plan_parity alloc bptr ptr (counting_ops ?d) content 3 delimiter DEFAULT_SCAN_BUFFER_BYTES ?c =
       Ret (plan_spec (record_cut delimiter content) (length content) (min 3 (length content)), c')"
    using counting_parity [OF assms v(1,3,4,5)] by metis
  have "cs_requested c' \<le> 2 * DEFAULT_SCAN_BUFFER_BYTES + 2 * slen delimiter"
    using counting_src.planner_asked [OF i v(2,3,7) plan(1)]
    by (simp add: len v(6) DEFAULT_SCAN_BUFFER_BYTES_def ADAPTIVE_INITIAL_PROBE_BYTES_def)
  then show ?thesis
    unfolding adaptive_probe_handles_long_delimiter_without_unbounded_alloc_def counting_new_def Let_def prod.case
      counting_totals_def delimiter_def [symmetric] content_def [symmetric] plan(2) rbind.simps
    by simp
qed

subsection \<open>Claims\<close>

text \<open>
  Claim C40: no unit test of the differential module of the scanner and no unit test of the byte
  sources that works on memory can fail, wherever its buffers are allocated, if buffers up to the
  default size can be allocated and one of \<open>isize::MAX\<close> bytes cannot. The generators never index,
  copy or compute out of range; the scans, the cursors, the planners, the searches and the scalar
  oracles never slice or index out of range on what they generate; on every generated case and every fixture the scans, the cursors
  and the planners equal the scalar oracles and keep the asserted invariants; the buffered planner
  equals the slice planner for complete and for short reads; the adaptive probe asks for no more
  than the tests allow; a scan buffer that cannot exist is the asserted error.
\<close>

theorem unit_tests_pass:
  assumes "buffers_ok alloc" "\<not> alloc isize_max"
  shows "single_byte_oracle_matches_deterministic_corpus ptr = Ret () \<and>
   single_byte_oracle_matches_generated_cases addr = Ret () \<and>
   cursor_ranges_match_single_byte_oracle addr = Ret () \<and>
   pattern_oracle_matches_deterministic_fixtures ptr = Ret () \<and>
   pattern_oracle_matches_generated_cases addr = Ret () \<and>
   pattern_cursor_ranges_match_pattern_oracle addr = Ret () \<and>
   swar_matches_scalar_byte_search_across_offsets_and_lengths addr = Ret () \<and>
   partition_oracle_matches_deterministic_fixtures ptr = Ret () \<and>
   partition_oracle_matches_generated_cases addr = Ret () \<and>
   partition_request_above_file_len_matches_file_len_oracle addr = Ret () \<and>
   partition_pattern_matches_scalar_oracle_for_fixtures ptr = Ret () \<and>
   partition_pattern_matches_generated_cases addr = Ret () \<and>
   partition_pattern_delegates_to_single_byte_path addr = Ret () \<and>
   partition_pattern_accepts_exact_target_boundaries ptr = Ret () \<and>
   partition_pattern_request_above_file_len_matches_file_len_oracle addr = Ret () \<and>
   partition_pattern_rejects_empty_delimiter ptr = Panic ''delimiter must not be empty'' \<and>
   dribble_source_matches_reference_for_patterns alloc bptr ptr = Ret () \<and>
   dribble_source_matches_reference_for_generated_content alloc bptr ptr = Ret () \<and>
   dribble_source_matches_reference_with_tiny_reads alloc bptr ptr = Ret () \<and>
   dribble_source_edge_cases alloc bptr = Ret () \<and>
   adaptive_probe_reduces_dense_read_amplification alloc bptr ptr = Ret () \<and>
   adaptive_probe_matches_oracle_across_adversarial_matrix alloc bptr ptr = Ret () \<and>
   adaptive_probe_handles_long_delimiter_without_unbounded_alloc alloc bptr ptr = Ret () \<and>
   scan_buffer_extreme_size_returns_invalid_input alloc bptr = Ret () \<and>
   scan_buffer_unallocatable_size_returns_out_of_memory alloc bptr = Ret () \<and>
   scan_buffer_zero_matches_slice_oracle alloc bptr ptr = Ret ()"
  using differential_tests_ok [of ptr addr] dribble_tests_ok [OF assms(1)] edge_cases_ok [OF assms(1)] dense_test_ok [OF assms(1)]
    adversarial_ok [OF assms(1)] long_delimiter_ok [OF assms(1)] scan_buffer_tests_ok [of alloc] assms(2)
  by simp

theorem unit_tests_pass_witness:
  "buffers_ok (\<lambda>k. k \<le> 1048576) \<and> \<not> isize_max \<le> 1048576 \<and>
   adaptive_probe_reduces_dense_read_amplification (\<lambda>k. k \<le> 1048576) 0 3 = Ret () \<and>
   scan_buffer_unallocatable_size_returns_out_of_memory (\<lambda>k. k \<le> 1048576) 0 = Ret ()"
proof -
  have "buffers_ok (\<lambda>k. k \<le> 1048576)" "\<not> isize_max \<le> 1048576"
    by (simp_all add: buffers_ok_def DEFAULT_SCAN_BUFFER_BYTES_def max_consts)
  with unit_tests_pass [of "\<lambda>k. k \<le> 1048576" 3 id 0] show ?thesis by blast
qed

end
