(* ===== verification/Spec2Isabelle.thy ===== *)
theory Spec2Isabelle
  imports Ffi Cli_Run Source_Tests
begin

text \<open>
  A verification of \<open>mmap-chunker-core\<close>: a Rust library that plans how to cut a file into
  record-aligned byte ranges, with a C interface and a command-line program.

  \<^bold>\<open>The program and its parts.\<close> At the bottom, the scanner (\<open>src/src/scanner.rs\<close>) searches a byte
  slice for a delimiter, cuts it into chunks of at least a requested size, or plans at most
  \<open>n\<close> ranges whose inner ends follow a delimiter. A file reaches it in one of three ways
  (\<open>src/src/mmap.rs\<close>, \<open>src/src/source.rs\<close>): mapped as a whole, read through one cached window, or
  read at positions. For the last two a second planner works on a bounded buffer and has to
  produce the same ranges. A handle (\<open>src/src/lib.rs\<close>) owns a whole-file mapping, the current
  layout (\<open>src/src/plan.rs\<close>) and, optionally, a pin on the identity of the file
  (\<open>src/src/pin.rs\<close>) that every planning call checks first. The C interface (\<open>src/src/ffi.rs\<close>) wraps
  the handle, a thread-local error text and a planning call without a handle. The program
  (\<open>src/src/bin/mmap-chunker.rs\<close>) prints the ranges of one file, or distributes several files, seen
  as one logical sequence, over workers.

  \<^bold>\<open>Theories.\<close> The order is that of the imports; a definition has the name of the Rust item it
  models, or a name that says which loop or expression of it.

  \<^item> \<open>Chunker_Prelude\<close>: bytes, saturating and truncating \<open>usize\<close> arithmetic on \<open>nat\<close>, calls that may
    panic (\<open>'a run\<close>), I/O errors (\<open>'a io\<close>), checked indexing; the specifications \<open>first_occ\<close>
    (first occurrence), \<open>tiles\<close> (adjacent non-empty ranges), \<open>aligned\<close>, \<open>next_cut\<close> and
    \<open>record_cut\<close> (the boundary a scan or a planner must choose).
  \<^item> \<open>Scanner_Search\<close> (\<open>find_byte_swar\<close>, \<open>find_pattern_in_slice\<close>): the word-parallel search with
    its address-dependent prefix, its loop on 64-bit words and its tail. The borrow
    argument behind the zero-byte test is proved on integers, byte by byte. Both searches
    interpret the locale \<open>delimiter_search\<close>.
  \<^item> \<open>Scanner_Chunks\<close> (eager scans, \<open>ChunkCursor\<close>, \<open>PatternChunkCursor\<close>, fixed-size arithmetic, the
    oracles of the tests): everything refines \<open>chunks_from\<close>; \<open>scan_result\<close> adds the panic of
    \<open>Vec::with_capacity\<close> for a result vector beyond \<open>isize::MAX\<close> bytes.
  \<^item> \<open>Scanner_Partition\<close> (\<open>find_partition_boundaries\<close> and its pattern form): everything refines
    \<open>plan_spec\<close>, the cuts of a \<open>boundary_oracle\<close> at the ideal targets \<open>len * i / n\<close>.
  \<^item> \<open>Rust_Text\<close>: display and parsing of numbers, with the round trip between them.
  \<^item> \<open>Chunk_Plan\<close> (\<open>ChunkPlan\<close>), \<open>File_Pin\<close> (\<open>PinnedFile\<close>, flags at 32 bits).
  \<^item> \<open>Os_Env\<close>, \<open>Os_Sim\<close>: the foreign functions of \<open>src/src/mmap.rs\<close> as calls of an environment, with
    every argument and flag constant, the arguments that cannot modify a file (\<open>read_only\<close>), the
    accounting of handles and mappings (\<open>run_res\<close>), the assumption on the operating system
    (\<open>os_contract\<close>), and an environment that satisfies it.
  \<^item> \<open>Mmap_File\<close> (\<open>probe_mmap_eligible\<close>, \<open>MmapFile\<close>) and \<open>Windowed_File\<close> (\<open>WindowedMmapFile\<close>), for
    both platform families.
  \<^item> \<open>Byte_Source\<close> (\<open>ByteSource\<close>, \<open>find_pattern_from\<close>, \<open>plan_partition_boundaries\<close>): the buffered
    planner is verified once in the locale \<open>byte_source\<close>, whose assumptions are the documented
    contract of the trait, short reads included. \<open>Source_Backends\<close> interprets it for the mapped,
    the windowed and the positional-read backend and for the short-reading source of the tests,
    and models \<open>plan_partition_ranges\<close>.
  \<^item> \<open>Mmap_Chunker\<close> (\<open>MmapChunker\<close>): the operations, an invariant over the step relation
    \<open>chunker_reach\<close>, which goes on after a panic that the caller caught, the abstract layout of each
    operation (\<open>op_layout\<close>) and when it panics (\<open>op_panic\<close>).
  \<^item> \<open>Ffi\<close>: the exported functions over \<open>ffi_state\<close> (error buffer, engines, trace), the relation
    \<open>ffi_reach\<close> of a client that keeps the safety contract, and its invariant; \<open>ffi_use\<close> is the same
    client from the start of a process, for which every live engine holds its own mapping
    (\<open>accounted\<close>), so that engines can be freed in any order.
  \<^item> \<open>Cli_Logical\<close> and \<open>Cli_Sourced\<close>: the logical planner over mapped files and over sources opened
    on demand. Both interpret the locale \<open>projection\<close>, an extension of \<open>boundary_oracle\<close>, so
    that the loop over targets is verified once. \<open>Cli_Args\<close>: option parsing. \<open>Cli\<close>, \<open>Cli_Run\<close>: the
    commands, what reaches standard output and standard error (\<open>ce_stdout\<close>, \<open>ce_stderr\<close>), and
    \<open>main\<close>; \<open>cli_text\<close> is the text that given arguments ask for.
  \<^item> \<open>Fuzz_Harness\<close>: the two fuzz targets, with every assertion as a possible panic.
    \<open>Differential_Tests\<close>: the module \<open>differential_tests\<close> of the scanner, generators included; a
    small logic of runs that return (\<open>returns\<close>) shows that none of its tests can fail.
  \<^item> \<open>Read_Bounds\<close>: how many bytes the buffered planner asks for. The locale \<open>full_source\<close> extends
    \<open>byte_source\<close> by complete reads and a count of the bytes asked for; it is interpreted for the
    counting source of the tests and for positional reads. \<open>Source_Tests\<close>: the unit tests of
    \<open>src/src/source.rs\<close> that work on memory.

  \<^bold>\<open>How state and effects are modelled.\<close> A call that may panic has a value in \<open>'a run\<close>: every index,
  slice and subtraction of the searches, scans, cursors, planners and of the oracles and generators
  of their tests is checked, and a panic of one of them is what \<open>catch_unwind\<close> of the C interface
  catches. A fallible call has a sum type, the error on the left. A Rust reference to a mutable structure is a record
  that is passed and returned. The state of a run of the process is its trace: the list of the calls
  to the operating system with their results. The environment is an arbitrary function from a
  trace and a call to a result, so a theorem over it holds for every sequence of answers,
  failures included. Memory behind a mapping, metadata and the last error are read from the
  environment at the current trace. Resources are accounted for by replaying the trace:
  \<open>run_res\<close> fails on a double close, on an unmap that does not match a mapping and on a call whose
  flags would let it write, and otherwise gives what is held. Undefined behaviour of the C interface (a handle that is not live, a buffer shorter
  than its length) is the value \<open>None\<close>.

  \<^bold>\<open>What is assumed.\<close> The hypotheses of the theorems state documented behaviour of code outside the
  repository. \<open>valid_slice\<close>: Rust has no slice longer than \<open>isize::MAX\<close>. \<open>os_contract\<close>: a
  successful mapping shows the bytes of the file opened at that path until it is unmapped, sizes
  reported for a handle are the length of the file, a new mapping does not overlap a live one,
  positional reads return a prefix of what was asked, and a path with a zero character is refused;
  no call has to succeed. It is about traces of calls that only read (\<open>env_trace\<close>), which the
  program's own calls always are. Files do not change during a run, except in the theorems on pins, where
  the metadata may change at every call. \<open>complete_reads\<close>, in the bound on the bytes read only: a
  successful positional read of a regular file stops early only at its end. \<open>stat_ok\<close>: metadata lengths are those of the files.
  \<open>box_ok\<close>: a new allocation is not null and not one of the live ones. The address of a buffer
  and the success of a checked allocation are free parameters. Each hypothesis has a
  witness on concrete values, the operating system's on \<open>Os_Sim\<close>.

  \<^bold>\<open>What is proved.\<close> Searches return the first occurrence for every alignment. Scans, cursors and
  planners never panic (on an empty pattern exactly as documented, and a scan on a result that
  cannot be allocated), cover the data without gap or
  overlap, end at records, choose the first boundary after each target, and equal the scalar
  oracles of the test suite and of the fuzz targets, which in turn return on every input; no
  differential test of the scanner and no in-memory test of the byte sources can fail. The
  buffered planner and the windowed reader agree with the slice planner and the file, over any
  source that meets the contract, and fail only for the causes listed; the planner asks for at most
  four times the file and one initial probe and seven delimiters per boundary. Opening, planning and
  dropping release what was taken on every path, and never make a call that could modify a file. The layout of a handle is well formed in every
  reachable state, and a changed pinned file empties it. The C interface returns views inside
  the mapping, reports errors without losing the layout, and fills a caller's buffer only when it
  is large enough. The commands print exactly the rows of the plan, or a beginning of them when standard
  output fails; arguments round-trip; for any arguments the program ends with an exit code, holding
  nothing, unless the help, the version or the error report itself cannot be printed.

  \<^bold>\<open>Termination and bounds.\<close> There is no fuel. Every loop is a total function with a measure: the
  bytes that remain, the partitions that remain, or the arguments that remain. Where the code
  relies on a step being positive (\<open>max(1)\<close>, a read that returns no more than it was asked), the
  termination proof uses it. Offsets are natural numbers; \<open>usize\<close> and \<open>u128\<close> operations saturate,
  truncate or panic at their width as the code does, on a 64-bit target, the only one for which
  the crate compiles.

  \<^bold>\<open>Not modelled.\<close>
  \<^item> The encoding of wide paths as UTF-16 units: a call carries the path as characters. The calls
    the standard library makes for metadata, \<open>File::open\<close> and positional reads are single events.
  \<^item> Allocation failure where the code does not check for it (the process aborts), and stack or
    memory limits, also for a vector that grows by pushing or is sized by one already in memory. The
    capacity overflow of the result vectors that the two scans size from their arguments is modelled.
  \<^item> Threads beyond atomicity: the state lock of a windowed file makes a read one step, the error
    text is that of one thread, and other threads are arbitrary interleaved calls that only
    read and do not unmap what a handle owns. \<open>Send\<close> and \<open>Sync\<close> are not modelled.
  \<^item> The calls made before a panic inside \<open>catch_unwind\<close> of the planning call, and what \<open>print!\<close> or
    \<open>eprintln!\<close> wrote before a failure makes it panic.
  \<^item> Derived \<open>Debug\<close> and \<open>Clone\<close>, module wiring, attributes.
  \<^item> The other unit tests, on fixed examples or on temporary files, the integration tests and benchmarks under \<open>src/tests\<close>, the C header, the Python package, the
    examples and conformance clients in other languages, build scripts and workflows: they use
    the program or package it.
\<close>

end
